(* ===== verification/Prelude.thy ===== *)
theory Prelude imports Main "HOL-Library.Word" "HOL-Library.Code_Target_Numeral" begin

text \<open>
  Prelude of the development: the types every component shares (bytes as \<^typ>\<open>char\<close>,
  \<open>std::string\<close> as \<^typ>\<open>string\<close>, 16-bit channel identifiers as words), the pieces of the C++
  standard library the sources use on text (\<open>std::to_string\<close>, \<open>std::from_chars\<close>,
  \<open>memcmp\<close>, \<open>memmove\<close>), 64-bit signed arithmetic, and the generic lemmas about them.
\<close>

section \<open>Collections of facts\<close>

named_theorems wire_simps \<open>shape of encoded text\<close>
named_theorems step_defs \<open>definitions of the byte-wise parser steps\<close>

section \<open>Types\<close>

type_synonym channel = "16 word"
type_synonym fd = int

abbreviation byte_of :: "char \<Rightarrow> nat" where
  "byte_of c \<equiv> of_char c"

text \<open>\<open>static_cast<unsigned char>(c) > 127\<close> is rejected by the parser: \<open>is_ascii\<close> is its negation.\<close>

definition is_ascii :: "char \<Rightarrow> bool" where
  "is_ascii c \<longleftrightarrow> \<not> byte_of c > 127"

section \<open>Decimal digits\<close>

definition is_digit :: "char \<Rightarrow> bool" where
  "is_digit c \<longleftrightarrow> 48 \<le> byte_of c \<and> byte_of c \<le> 57"

definition digit_val :: "char \<Rightarrow> int" where
  "digit_val c = int (byte_of c) - 48"

definition digit_char :: "nat \<Rightarrow> char" where
  "digit_char n = char_of (48 + n)"

lemma digit_val_range: "is_digit c \<Longrightarrow> 0 \<le> digit_val c \<and> digit_val c \<le> 9"
  by (simp add: is_digit_def digit_val_def)

lemma is_digit_digit_char [simp]: "n < 10 \<Longrightarrow> is_digit (digit_char n)"
  by (simp add: is_digit_def digit_char_def)

lemma digit_val_digit_char [simp]: "n < 10 \<Longrightarrow> digit_val (digit_char n) = int n"
  by (simp add: digit_val_def digit_char_def)

lemma is_digit_ascii: "is_digit c \<Longrightarrow> is_ascii c"
  by (simp add: is_digit_def is_ascii_def)

lemma is_digit_neq [simp]:
  "is_digit c \<Longrightarrow> c \<noteq> CHR ''.''"
  "is_digit c \<Longrightarrow> c \<noteq> CHR '',''"
  "is_digit c \<Longrightarrow> c \<noteq> CHR '';''"
  "is_digit c \<Longrightarrow> c \<noteq> CHR ''-''"
  by (auto simp: is_digit_def)

lemma not_digit_punct [simp]:
  "\<not> is_digit CHR ''.''" "\<not> is_digit CHR '',''" "\<not> is_digit CHR '';''" "\<not> is_digit CHR ''-''"
  by (simp_all add: is_digit_def)

text \<open>The value of a string of digits, most significant first.\<close>

definition digits_val :: "string \<Rightarrow> int" where
  "digits_val ds = foldl (\<lambda>v c. v * 10 + digit_val c) 0 ds"

lemma digits_val_Nil [simp]: "digits_val [] = 0"
  by (simp add: digits_val_def)

lemma digits_val_snoc [simp]: "digits_val (ds @ [c]) = digits_val ds * 10 + digit_val c"
  by (simp add: digits_val_def)

lemma digits_val_nonneg: "list_all is_digit ds \<Longrightarrow> 0 \<le> digits_val ds"
  by (induction ds rule: rev_induct) (auto simp: digit_val_range)

text \<open>\<open>std::to_string\<close> on a non-negative number, and on an \<open>int\<close>.\<close>

fun show_nat :: "nat \<Rightarrow> string" where
  "show_nat n = (if n < 10 then [digit_char n] else show_nat (n div 10) @ [digit_char (n mod 10)])"

declare show_nat.simps [simp del]

definition show_int :: "int \<Rightarrow> string" where
  "show_int i = (if i < 0 then CHR ''-'' # show_nat (nat (- i)) else show_nat (nat i))"

lemma show_nat_digits [simp]: "list_all is_digit (show_nat n)"
  by (induction n rule: show_nat.induct) (subst show_nat.simps, auto)

lemma show_nat_nonempty [simp]: "show_nat n \<noteq> []"
  by (subst show_nat.simps) simp

lemma digits_val_show_nat [simp]: "digits_val (show_nat n) = int n"
proof (induction n rule: show_nat.induct)
  case (1 n)
  show ?case
  proof (cases "n < 10")
    case True
    then show ?thesis by (subst show_nat.simps) (simp add: digits_val_def)
  next
    case False
    with "1" show ?thesis by (subst show_nat.simps) (simp add: zdiv_int zmod_int)
  qed
qed

section \<open>Reading an integer: \<open>std::from_chars\<close>\<close>

text \<open>
  \<open>std::from_chars(first, last, value)\<close> on a 32-bit \<open>int\<close> reads an optional minus sign and as many
  decimal digits as there are. It fails when there is no digit (\<open>invalid_argument\<close>) and when the value
  does not fit (\<open>result_out_of_range\<close>); both are \<^const>\<open>None\<close> here, since the callers do not tell them
  apart. Otherwise it gives the value and the pointer past the digits, here the unread suffix.
\<close>

definition from_chars_int :: "string \<Rightarrow> (int \<times> string) option" where
  "from_chars_int s =
     (let neg = (s \<noteq> [] \<and> hd s = CHR ''-'');
          body = (if neg then tl s else s);
          ds = takeWhile is_digit body;
          v = (if neg then - digits_val ds else digits_val ds)
      in if ds = [] \<or> v < - (2 ^ 31) \<or> 2 ^ 31 \<le> v then None
         else Some (v, dropWhile is_digit body))"

lemma from_chars_show_nat:
  assumes "int n < 2 ^ 31"
  shows "from_chars_int (show_nat n) = Some (int n, [])"
proof -
  have digits: "takeWhile is_digit (show_nat n) = show_nat n"
    using show_nat_digits[of n] by (simp add: list_all_iff takeWhile_eq_all_conv)
  have rest: "dropWhile is_digit (show_nat n) = []"
    using show_nat_digits[of n] by (simp add: list_all_iff dropWhile_eq_Nil_conv)
  have "hd (show_nat n) \<noteq> CHR ''-''"
    using show_nat_digits[of n] show_nat_nonempty[of n]
    by (cases "show_nat n") (auto simp: is_digit_def)
  then show ?thesis using assms
    by (simp add: from_chars_int_def Let_def digits rest del: takeWhile_eq_all_conv dropWhile_eq_Nil_conv)
qed

section \<open>Signed 64-bit arithmetic\<close>

text \<open>
  The parser keeps the length of an element in a \<open>long long\<close>. \<open>wrap64\<close> is two's complement
  reduction; the overflow itself is undefined behaviour in C++, and two's complement is what the
  usual compilers produce. The theorems about the guard show that it is never reached there.
\<close>

definition wrap64 :: "int \<Rightarrow> int" where
  "wrap64 x = (x + 2 ^ 63) mod 2 ^ 64 - 2 ^ 63"

text \<open>For evaluation: no power of two is computed when there is nothing to wrap.\<close>

lemma wrap64_code [code]:
  "wrap64 x = (if - 9223372036854775808 \<le> x \<and> x < 9223372036854775808 then x else (x + 2 ^ 63) mod 2 ^ 64 - 2 ^ 63)"
  by (simp add: wrap64_def)

lemma wrap64_id: "- (2 ^ 63) \<le> x \<Longrightarrow> x < 2 ^ 63 \<Longrightarrow> wrap64 x = x"
  by (simp add: wrap64_def)

section \<open>\<open>memmove\<close> on a buffer\<close>

text \<open>The \<open>n\<close> bytes at \<open>src\<close> are copied to \<open>dst\<close>; the buffer keeps its size.\<close>

definition memmove :: "'a list \<Rightarrow> nat \<Rightarrow> nat \<Rightarrow> nat \<Rightarrow> 'a list" where
  "memmove b dst src n = take dst b @ take n (drop src b) @ drop (dst + n) b"

lemma length_memmove: "dst \<le> src \<Longrightarrow> src + n \<le> length b \<Longrightarrow> length (memmove b dst src n) = length b"
  by (simp add: memmove_def)

section \<open>Lists\<close>

lemma take_append_le: "n \<le> length xs \<Longrightarrow> take n (xs @ ys) = take n xs"
  by simp

lemma foldl_snoc: "foldl f a (xs @ [x]) = f (foldl f a xs) x"
  by simp

end
