(* ===== verification/Opcode_Parser.thy ===== *)
theory Opcode_Parser imports Prelude begin

text \<open>
  The Guacamole framer: \<open>shared/include/parser/opcode_parser.h\<close> and
  \<open>shared/src/parser/opcode_parser.cpp\<close>. The class is a record of its fields, with the fields of a
  subclass in \<open>sub\<close>; the virtual methods are a record of hooks over those fields. Every byte of
  \<open>Parse\<close> is one step of the state machine, a definition per \<open>case\<close> of the \<open>switch\<close>. A \<open>return\<close>
  inside the loop is \<open>Return\<close>, falling through to the next byte is \<open>Continue\<close>.
\<close>

definition MAX_ELEMENT_SIZE :: nat where "MAX_ELEMENT_SIZE = 8192"

datatype ParserState =
  READING_LENGTH | READING_DATA | EXPECT_DELIM | STREAM_CORRUPTED | DENIED_DATA

section \<open>The class and its virtual methods\<close>

text \<open>
  \<open>OnInstructionBegin\<close> and \<open>OnArgument\<close> get the element's bytes (\<open>GuacElement\<close>: a pointer and a
  length) and return whether it is allowed. \<open>OnInstructionEnd\<close> may read \<open>CurrentIndex()\<close>; its
  return value is ignored by the caller. \<open>ToleratesOversizedElements\<close> is a constant of each class.
\<close>

record 'h hooks =
  OnInstructionBegin :: "string \<Rightarrow> 'h \<Rightarrow> bool \<times> 'h"
  OnArgument :: "string \<Rightarrow> 'h \<Rightarrow> bool \<times> 'h"
  OnInstructionEnd :: "nat \<Rightarrow> 'h \<Rightarrow> 'h"
  Tolerates :: bool

text \<open>
  \<open>element_buffer\<close> holds the cells of the array that have been written so far (the array is not
  initialised); a store at an index already written overwrites that cell.
\<close>

record 'h parser =
  pstate :: ParserState
  current_index :: nat
  current_length :: int
  current_read :: int
  reading_opcode :: bool
  element_buffer :: string
  opcode_start_idx :: nat
  denied_ranges :: "(nat \<times> nat) list"
  sub :: 'h

definition new_parser :: "'h \<Rightarrow> 'h parser" where
  "new_parser h =
     \<lparr>pstate = READING_LENGTH, current_index = 0, current_length = -1, current_read = 0,
      reading_opcode = True, element_buffer = [], opcode_start_idx = 0, denied_ranges = [],
      sub = h\<rparr>"

definition buffer_store :: "string \<Rightarrow> nat \<Rightarrow> char \<Rightarrow> string" where
  "buffer_store b i c = (if i < length b then b[i := c] else b @ [c])"

text \<open>The base class's hooks: a neutral framer that allows everything.\<close>

definition base_hooks :: "'h hooks" where
  "base_hooks =
     \<lparr>OnInstructionBegin = (\<lambda>_ h. (True, h)), OnArgument = (\<lambda>_ h. (True, h)),
      OnInstructionEnd = (\<lambda>_ h. h), Tolerates = False\<rparr>"

section \<open>\<open>Parse\<close>\<close>

text \<open>The object and the two local flags of one call.\<close>

record 'h call =
  obj :: "'h parser"
  denying :: bool
  opcode_in_this_call :: bool

datatype 'h flow = Return "'h parser" | Continue "'h call"

abbreviation corrupt :: "'h parser \<Rightarrow> 'h flow" where
  "corrupt p \<equiv> Return (p\<lparr>pstate := STREAM_CORRUPTED\<rparr>)"

subsection \<open>\<open>case ParserState::READING_LENGTH\<close>\<close>

definition first_digit :: "nat \<Rightarrow> 'h call \<Rightarrow> 'h call" where
  "first_digit i k =
     (if current_length (obj k) = -1 then
        let p = (obj k)\<lparr>current_length := 0\<rparr>
        in if reading_opcode p
           then k\<lparr>obj := p\<lparr>opcode_start_idx := i\<rparr>, opcode_in_this_call := True\<rparr>
           else k\<lparr>obj := p\<rparr>
      else k)"

definition step_length :: "'h hooks \<Rightarrow> nat \<Rightarrow> char \<Rightarrow> 'h call \<Rightarrow> 'h flow" where
  "step_length hk i c k =
     (if is_digit c then
        let k1 = first_digit i k;
            p = (obj k1)\<lparr>current_length := wrap64 (current_length (obj k1) * 10 + digit_val c)\<rparr>
        in if current_length p > int MAX_ELEMENT_SIZE \<and> \<not> Tolerates hk
           then corrupt p
           else Continue (k1\<lparr>obj := p\<rparr>)
      else if c = CHR ''.'' then
        if current_length (obj k) = -1 then corrupt (obj k)
        else
          let p = (obj k)\<lparr>current_read := 0\<rparr>
          in Continue (k\<lparr>obj := p\<lparr>pstate :=
               (if current_length p = 0 then EXPECT_DELIM else READING_DATA)\<rparr>\<rparr>)
      else corrupt (obj k))"

subsection \<open>\<open>case ParserState::READING_DATA\<close>\<close>

definition step_data :: "char \<Rightarrow> 'h call \<Rightarrow> 'h flow" where
  "step_data c k =
     (let p = obj k in
      if current_read p < int MAX_ELEMENT_SIZE \<and> \<not> is_ascii c then corrupt p
      else
        let p1 = (if current_read p < int MAX_ELEMENT_SIZE
                  then p\<lparr>element_buffer := buffer_store (element_buffer p) (nat (current_read p)) c\<rparr>
                  else p);
            p2 = p1\<lparr>current_read := current_read p1 + 1\<rparr>
        in Continue (k\<lparr>obj := (if current_read p2 = current_length p2
                               then p2\<lparr>pstate := EXPECT_DELIM\<rparr> else p2)\<rparr>))"

subsection \<open>\<open>case ParserState::EXPECT_DELIM\<close>\<close>

text \<open>The element handed to the hooks: the declared length, clamped and cast to \<open>uint32_t\<close>.\<close>

definition elem_len :: "int \<Rightarrow> nat" where
  "elem_len len = (if len > int MAX_ELEMENT_SIZE then MAX_ELEMENT_SIZE else nat (len mod 2 ^ 32))"

lemma elem_len_code [code]:
  "elem_len len = (if len > 8192 then 8192 else if 0 \<le> len then nat len else nat (len mod 4294967296))"
  by (auto simp: elem_len_def MAX_ELEMENT_SIZE_def)

definition current_element :: "'h parser \<Rightarrow> string" where
  "current_element p = take (elem_len (current_length p)) (element_buffer p)"

text \<open>\<open>if (!denying) { \<dots> }\<close>: \<^const>\<open>Return\<close> only when a denied instruction began in an earlier call.\<close>

definition handle_element :: "'h hooks \<Rightarrow> 'h call \<Rightarrow> 'h flow" where
  "handle_element hk k =
     (if denying k then Continue k
      else
        let p = obj k;
            r = (if reading_opcode p then OnInstructionBegin hk (current_element p) (sub p)
                 else OnArgument hk (current_element p) (sub p));
            p1 = p\<lparr>sub := snd r\<rparr>
        in if \<not> fst r then
             if \<not> opcode_in_this_call k then corrupt p1
             else Continue (k\<lparr>obj := p1\<lparr>reading_opcode := False\<rparr>, denying := True\<rparr>)
           else if reading_opcode p1 then Continue (k\<lparr>obj := p1\<lparr>reading_opcode := False\<rparr>\<rparr>)
           else Continue (k\<lparr>obj := p1\<rparr>))"

text \<open>\<open>if (c == ';') { \<dots> }\<close>\<close>

definition end_instruction :: "'h hooks \<Rightarrow> nat \<Rightarrow> 'h call \<Rightarrow> 'h call" where
  "end_instruction hk i k =
     (let p = obj k;
          k1 = (if denying k
                then k\<lparr>obj := p\<lparr>denied_ranges :=
                          denied_ranges p @ [(opcode_start_idx p, i - opcode_start_idx p + 1)]\<rparr>,
                       denying := False\<rparr>
                else k\<lparr>obj := p\<lparr>sub := OnInstructionEnd hk (current_index p) (sub p)\<rparr>\<rparr>)
      in k1\<lparr>obj := (obj k1)\<lparr>reading_opcode := True\<rparr>\<rparr>)"

definition step_delim :: "'h hooks \<Rightarrow> nat \<Rightarrow> char \<Rightarrow> 'h call \<Rightarrow> 'h flow" where
  "step_delim hk i c k =
     (if c \<noteq> CHR '','' \<and> c \<noteq> CHR '';'' then corrupt (obj k)
      else
        (case handle_element hk k of
           Return p \<Rightarrow> Return p
         | Continue k1 \<Rightarrow>
             let k2 = (if c = CHR '';'' then end_instruction hk i k1 else k1)
             in Continue (k2\<lparr>obj := (obj k2)\<lparr>current_length := -1, pstate := READING_LENGTH\<rparr>\<rparr>)))"

subsection \<open>The loop and the call\<close>

definition parse_byte :: "'h hooks \<Rightarrow> nat \<Rightarrow> char \<Rightarrow> 'h call \<Rightarrow> 'h flow" where
  "parse_byte hk i c k0 =
     (let k = k0\<lparr>obj := (obj k0)\<lparr>current_index := i\<rparr>\<rparr> in
      case pstate (obj k) of
        READING_LENGTH \<Rightarrow> step_length hk i c k
      | READING_DATA \<Rightarrow> step_data c k
      | EXPECT_DELIM \<Rightarrow> step_delim hk i c k
      | STREAM_CORRUPTED \<Rightarrow> Return (obj k)
      | DENIED_DATA \<Rightarrow> Return (obj k))"

fun parse_loop :: "'h hooks \<Rightarrow> nat \<Rightarrow> string \<Rightarrow> 'h call \<Rightarrow> 'h flow" where
  "parse_loop hk i [] k = Continue k"
| "parse_loop hk i (c # cs) k =
     (case parse_byte hk i c k of
        Return p \<Rightarrow> Return p
      | Continue k1 \<Rightarrow> parse_loop hk (Suc i) cs k1)"

definition start_call :: "'h parser \<Rightarrow> 'h call" where
  "start_call p = \<lparr>obj = p\<lparr>denied_ranges := []\<rparr>, denying = False, opcode_in_this_call = False\<rparr>"

definition finish_call :: "'h flow \<Rightarrow> ParserState \<times> 'h parser" where
  "finish_call r =
     (case r of
        Return p \<Rightarrow> (pstate p, p)
      | Continue k \<Rightarrow>
          if denying k then (STREAM_CORRUPTED, (obj k)\<lparr>pstate := STREAM_CORRUPTED\<rparr>)
          else if denied_ranges (obj k) \<noteq> [] then (DENIED_DATA, obj k)
          else (pstate (obj k), obj k))"

definition Parse :: "'h hooks \<Rightarrow> 'h parser \<Rightarrow> string \<Rightarrow> ParserState \<times> 'h parser" where
  "Parse hk p data = finish_call (parse_loop hk 0 data (start_call p))"

section \<open>\<open>Excise\<close> and \<open>Reset\<close>\<close>

text \<open>
  The compaction loop over the recorded ranges: the buffer and the two cursors. The \<open>size_t\<close>
  difference \<open>range.first - read\<close> is a natural number because the ranges are ascending
  (\<open>ranges_ok\<close> below, which \<open>Parse\<close> establishes).
\<close>

fun excise_loop :: "(nat \<times> nat) list \<Rightarrow> string \<times> nat \<times> nat \<Rightarrow> string \<times> nat \<times> nat" where
  "excise_loop [] s = s"
| "excise_loop ((first, cnt) # rs) (b, wr, rd) =
     (let keep = first - rd;
          b1 = (if wr \<noteq> rd then memmove b wr rd keep else b)
      in excise_loop rs (b1, wr + keep, first + cnt))"

definition Excise :: "'h parser \<Rightarrow> string \<Rightarrow> nat \<Rightarrow> string \<times> nat \<times> 'h parser" where
  "Excise p data len =
     (if denied_ranges p = [] then (data, len, p)
      else
        (case excise_loop (denied_ranges p) (data, 0, 0) of
           (b, wr, rd) \<Rightarrow>
             ((if wr \<noteq> rd then memmove b wr rd (len - rd) else b),
              wr + (len - rd), p\<lparr>denied_ranges := []\<rparr>)))"

definition Reset :: "'h parser \<Rightarrow> 'h parser" where
  "Reset p =
     p\<lparr>pstate := READING_LENGTH, current_index := 0, current_length := -1, current_read := 0,
       reading_opcode := True, opcode_start_idx := 0, denied_ranges := []\<rparr>"

end
