(* ===== verification/Excision.thy ===== *)
theory Excision imports Opcode_Parser begin

text \<open>
  Correctness of \<open>OpcodeParser::Excise\<close>. The reference definition \<open>cut_ranges\<close> drops the denied ranges of
  a buffer by taking and dropping; the code compacts the buffer in place with \<open>memmove\<close>. The lemmas
  show that the two agree on every list of ranges that is ascending and inside the buffer.
\<close>

fun ranges_ok :: "nat \<Rightarrow> (nat \<times> nat) list \<Rightarrow> nat \<Rightarrow> bool" where
  "ranges_ok pos [] len = (pos \<le> len)"
| "ranges_ok pos ((s, n) # rs) len = (pos \<le> s \<and> ranges_ok (s + n) rs len)"

fun cut_ranges :: "(nat \<times> nat) list \<Rightarrow> nat \<Rightarrow> 'a list \<Rightarrow> 'a list" where
  "cut_ranges [] pos xs = xs"
| "cut_ranges ((s, n) # rs) pos xs = take (s - pos) xs @ cut_ranges rs (s + n) (drop (s + n - pos) xs)"

lemma ranges_ok_le: "ranges_ok pos rs len \<Longrightarrow> pos \<le> len"
  by (induction pos rs len rule: ranges_ok.induct) auto

lemma ranges_ok_mono: "ranges_ok pos rs len \<Longrightarrow> len \<le> len' \<Longrightarrow> ranges_ok pos rs len'"
  by (induction pos rs len rule: ranges_ok.induct) auto

lemma ranges_ok_snoc:
  "ranges_ok pos rs s \<Longrightarrow> s + n \<le> len \<Longrightarrow> ranges_ok pos (rs @ [(s, n)]) len"
  by (induction pos rs s rule: ranges_ok.induct) auto

text \<open>Bytes behind the last range are kept; a range at the end drops them.\<close>

lemma cut_append:
  "ranges_ok pos rs (pos + length xs) \<Longrightarrow> cut_ranges rs pos (xs @ ys) = cut_ranges rs pos xs @ ys"
proof (induction rs pos xs rule: cut_ranges.induct)
  case (2 s n rs pos xs)
  then have le: "pos \<le> s" and ok: "ranges_ok (s + n) rs (pos + length xs)" by auto
  from ranges_ok_le[OF ok] le have "s + n - pos \<le> length xs" "s - pos \<le> length xs" by linarith+
  with 2 le ok show ?case by (simp add: add.commute)
qed simp

lemma cut_drop_end:
  "ranges_ok pos rs s \<Longrightarrow> pos + length xs = s + n
   \<Longrightarrow> cut_ranges (rs @ [(s, n)]) pos xs = cut_ranges rs pos (take (s - pos) xs)"
proof (induction rs pos xs rule: cut_ranges.induct)
  case (2 s' n' rs pos xs)
  then have le: "pos \<le> s'" and ok: "ranges_ok (s' + n') rs s" by auto
  from ranges_ok_le[OF ok] have "s' + n' \<le> s" .
  with 2 le ok show ?case by (simp add: drop_take min_def)
qed simp

section \<open>The compaction loop\<close>

lemma excise_loop_inv:
  assumes "excise_loop rs (b, wr, rd) = (b', wr', rd')"
    and "ranges_ok rd rs (length b)" and "wr \<le> rd"
  shows "length b' = length b \<and> wr' \<le> rd' \<and> rd' \<le> length b' \<and>
         take wr' b' @ drop rd' b' = take wr b @ cut_ranges rs rd (drop rd b)"
  using assms
proof (induction rs arbitrary: b wr rd)
  case Nil
  then show ?case by auto
next
  case (Cons r rs)
  obtain s n where r: "r = (s, n)" by (cases r)
  let ?keep = "s - rd"
  let ?b = "if wr \<noteq> rd then memmove b wr rd ?keep else b"
  from Cons.prems(2) r have le: "rd \<le> s" and ok: "ranges_ok (s + n) rs (length b)" by auto
  from ranges_ok_le[OF ok] have sn: "s + n \<le> length b" .
  with le Cons.prems(3) have len: "length ?b = length b" by (simp add: length_memmove)
  have tail: "drop (s + n) ?b = drop (s + n) b"
    using le sn Cons.prems(3) by (simp add: memmove_def add.commute)
  have front: "take (wr + ?keep) ?b = take wr b @ take ?keep (drop rd b)"
  proof -
    from le obtain d where d: "s = rd + d" using le_iff_add by blast
    show ?thesis using sn Cons.prems(3)
      by (cases "wr = rd") (simp_all add: d memmove_def take_add)
  qed
  from Cons.prems(1) r have rec: "excise_loop rs (?b, wr + ?keep, s + n) = (b', wr', rd')"
    by (simp add: Let_def)
  have "ranges_ok (s + n) rs (length ?b)" using ok len by simp
  moreover have "wr + ?keep \<le> s + n" using le Cons.prems(3) by linarith
  ultimately have "length b' = length ?b \<and> wr' \<le> rd' \<and> rd' \<le> length b' \<and>
        take wr' b' @ drop rd' b' = take (wr + ?keep) ?b @ cut_ranges rs (s + n) (drop (s + n) ?b)"
    by (rule Cons.IH[OF rec])
  then show ?case unfolding tail front len using le by (simp add: r)
qed

lemma Excise_correct:
  assumes "ranges_ok 0 (denied_ranges p) (length data)"
    and "Excise p data (length data) = (data', len', p')"
  shows "take len' data' = cut_ranges (denied_ranges p) 0 data \<and> len' \<le> length data' \<and>
         length data' = length data \<and> p' = p\<lparr>denied_ranges := []\<rparr>"
proof (cases "denied_ranges p = []")
  case True
  with assms(2) show ?thesis by (auto simp: Excise_def)
next
  case False
  obtain b wr rd where loop: "excise_loop (denied_ranges p) (data, 0, 0) = (b, wr, rd)"
    by (metis prod_cases3)
  from excise_loop_inv[OF loop] assms(1)
  have b: "length b = length data" "wr \<le> rd" "rd \<le> length b"
    "take wr b @ drop rd b = cut_ranges (denied_ranges p) 0 data" by auto
  from False assms(2) loop have res:
    "data' = (if wr \<noteq> rd then memmove b wr rd (length data - rd) else b)"
    "len' = wr + (length data - rd)" "p' = p\<lparr>denied_ranges := []\<rparr>"
    by (auto simp: Excise_def)
  with b show ?thesis by (auto simp: memmove_def take_add)
qed

end
