(* ===== verification/Framing.thy ===== *)
theory Framing imports Excision begin

text \<open>
  The Guacamole wire grammar, as an abstract specification of the framer. An element is its length
  prefix as spelled and its bytes; an instruction is a non-empty list of elements. A position in a
  stream is the elements already closed in the current instruction and the partial element. The
  lemmas of this theory relate one byte of \<open>OpcodeParser::Parse\<close> to one move of the position.
\<close>

section \<open>Grammar\<close>

type_synonym element = "string \<times> string"
type_synonym instr = "element list"

definition wire_elem :: "element \<Rightarrow> string" where
  "wire_elem e = fst e @ ''.'' @ snd e"

definition wire_open :: "element list \<Rightarrow> string" where
  "wire_open es = concat (map (\<lambda>e. wire_elem e @ '','') es)"

definition wire_instr :: "instr \<Rightarrow> string" where
  "wire_instr es = wire_open (butlast es) @ wire_elem (last es) @ '';''"

definition wire :: "instr list \<Rightarrow> string" where
  "wire is = concat (map wire_instr is)"

datatype partial = PLen string | PVal string string

fun wire_partial :: "partial \<Rightarrow> string" where
  "wire_partial (PLen ds) = ds"
| "wire_partial (PVal ds bs) = ds @ ''.'' @ bs"

lemma wire_Nil [simp]: "wire [] = []"
  by (simp add: wire_def)

lemma wire_Cons [simp]: "wire (i # is) = wire_instr i @ wire is"
  by (simp add: wire_def)

lemma wire_append [simp]: "wire (is @ js) = wire is @ wire js"
  by (simp add: wire_def)

lemma wire_open_Nil [simp]: "wire_open [] = []"
  by (simp add: wire_open_def)

lemma wire_open_snoc [simp]: "wire_open (es @ [e]) = wire_open es @ wire_elem e @ '',''"
  by (simp add: wire_open_def)

lemma wire_instr_snoc [simp]: "wire_instr (es @ [e]) = wire_open es @ wire_elem e @ '';''"
  by (simp add: wire_instr_def)

section \<open>Well-formed elements\<close>

text \<open>
  The largest length a parser frames: the element buffer, or any \<open>long long\<close> when the subclass
  tolerates oversized elements. Only the buffered part is ASCII-checked and seen by the hooks.
\<close>

definition limit :: "'h hooks \<Rightarrow> int" where
  "limit hk = (if Tolerates hk then 2 ^ 63 - 1 else int MAX_ELEMENT_SIZE)"

abbreviation clamp :: "string \<Rightarrow> string" where
  "clamp \<equiv> take MAX_ELEMENT_SIZE"

definition elem_ok :: "'h hooks \<Rightarrow> element \<Rightarrow> bool" where
  "elem_ok hk e \<longleftrightarrow>
     fst e \<noteq> [] \<and> list_all is_digit (fst e) \<and> digits_val (fst e) = int (length (snd e)) \<and>
     int (length (snd e)) \<le> limit hk \<and> list_all is_ascii (clamp (snd e))"

definition instr_ok :: "'h hooks \<Rightarrow> instr \<Rightarrow> bool" where
  "instr_ok hk es \<longleftrightarrow> es \<noteq> [] \<and> list_all (elem_ok hk) es"

definition elems :: "instr \<Rightarrow> string list" where
  "elems es = map (\<lambda>e. clamp (snd e)) es"

lemma elems_simps [simp]: "elems [] = []" "elems (es @ [e]) = elems es @ [clamp (snd e)]"
  by (simp_all add: elems_def)

lemma elems_eq_Nil [simp]: "elems es = [] \<longleftrightarrow> es = []"
  by (simp add: elems_def)

fun partial_ok :: "'h hooks \<Rightarrow> partial \<Rightarrow> bool" where
  "partial_ok hk (PLen ds) = (list_all is_digit ds \<and> digits_val ds \<le> limit hk)"
| "partial_ok hk (PVal ds bs) =
     (ds \<noteq> [] \<and> list_all is_digit ds \<and> digits_val ds \<le> limit hk \<and>
      int (length bs) \<le> digits_val ds \<and> list_all is_ascii (clamp bs))"

fun complete :: "partial \<Rightarrow> bool" where
  "complete (PLen ds) = False"
| "complete (PVal ds bs) = (int (length bs) = digits_val ds)"

text \<open>One byte inside an element; a missing successor is a byte that corrupts the stream.\<close>

fun scan1 :: "'h hooks \<Rightarrow> partial \<Rightarrow> char \<Rightarrow> partial option" where
  "scan1 hk (PLen ds) c =
     (if is_digit c then
        if digits_val (ds @ [c]) \<le> limit hk then Some (PLen (ds @ [c])) else None
      else if c = CHR ''.'' \<and> ds \<noteq> [] then Some (PVal ds []) else None)"
| "scan1 hk (PVal ds bs) c =
     (if length bs < MAX_ELEMENT_SIZE \<and> \<not> is_ascii c then None else Some (PVal ds (bs @ [c])))"

lemma wire_partial_scan1: "scan1 hk pt c = Some pt' \<Longrightarrow> wire_partial pt' = wire_partial pt @ [c]"
  by (cases pt) (auto split: if_splits)

lemma scan1_ok:
  assumes "scan1 hk pt c = Some pt'" and "partial_ok hk pt" and "\<not> complete pt"
  shows "partial_ok hk pt'"
proof (cases pt)
  case (PLen ds)
  with assms show ?thesis by (auto split: if_splits simp: digits_val_nonneg)
next
  case (PVal ds bs)
  have "clamp (bs @ [c]) = (if length bs < MAX_ELEMENT_SIZE then clamp bs @ [c] else clamp bs)"
    by auto
  with assms PVal show ?thesis by (auto split: if_splits)
qed

section \<open>The parser at a position\<close>

fun at_pos :: "'h parser \<Rightarrow> element list \<Rightarrow> partial \<Rightarrow> bool" where
  "at_pos p cur (PLen ds) =
     (reading_opcode p = (cur = []) \<and> pstate p = READING_LENGTH \<and>
      current_length p = (if ds = [] then -1 else digits_val ds))"
| "at_pos p cur (PVal ds bs) =
     (reading_opcode p = (cur = []) \<and>
      pstate p = (if int (length bs) = digits_val ds then EXPECT_DELIM else READING_DATA) \<and>
      current_length p = digits_val ds \<and> current_read p = int (length bs) \<and>
      take (length (clamp bs)) (element_buffer p) = clamp bs)"

definition frame_same :: "'h call \<Rightarrow> 'h call \<Rightarrow> bool" where
  "frame_same k k' \<longleftrightarrow>
     sub (obj k') = sub (obj k) \<and> denying k' = denying k \<and>
     denied_ranges (obj k') = denied_ranges (obj k)"

definition start_same :: "'h call \<Rightarrow> 'h call \<Rightarrow> bool" where
  "start_same k k' \<longleftrightarrow>
     opcode_start_idx (obj k') = opcode_start_idx (obj k) \<and>
     opcode_in_this_call k' = opcode_in_this_call k"

definition starts_at :: "nat \<Rightarrow> 'h call \<Rightarrow> bool" where
  "starts_at i k \<longleftrightarrow> opcode_start_idx (obj k) = i \<and> opcode_in_this_call k"

lemma limit_bounds: "limit hk < 2 ^ 63" "0 \<le> limit hk" "\<not> Tolerates hk \<Longrightarrow> limit hk = int MAX_ELEMENT_SIZE"
  "int MAX_ELEMENT_SIZE \<le> limit hk"
  by (simp_all add: limit_def MAX_ELEMENT_SIZE_def)

lemma limit_nonneg [simp]: "0 \<le> limit hk"
  by (rule limit_bounds(2))

lemma length_clamp_le: "int (length bs) \<le> limit hk \<Longrightarrow> \<not> Tolerates hk \<Longrightarrow> clamp bs = bs"
  by (simp add: limit_def)

lemma buffer_store_take:
  assumes "take n b = bs" and "length bs = n"
  shows "take (Suc n) (buffer_store b n c) = bs @ [c]"
proof (cases "n < length b")
  case True
  with assms show ?thesis by (simp add: buffer_store_def take_Suc_conv_app_nth)
next
  case False
  with assms have "b = bs" "length b = n" by auto
  with False show ?thesis by (simp add: buffer_store_def)
qed

section \<open>One byte inside an element\<close>

text \<open>A digit: the length is extended; the first digit of an opcode marks the instruction's start.\<close>

lemma step_digit:
  assumes pos: "at_pos (obj k) cur (PLen ds)" and ds: "list_all is_digit ds" and c: "is_digit c"
    and ok: "digits_val (ds @ [c]) \<le> limit hk"
  shows "\<exists>k'. parse_byte hk i c k = Continue k' \<and> at_pos (obj k') cur (PLen (ds @ [c])) \<and>
           frame_same k k' \<and> (if cur = [] \<and> ds = [] then starts_at i k' else start_same k k')"
proof -
  have nn: "0 \<le> digits_val (ds @ [c])" using ds c by (simp add: digits_val_nonneg del: digits_val_snoc)
  with ok limit_bounds(1)[of hk] have w: "wrap64 (digits_val (ds @ [c])) = digits_val (ds @ [c])"
    by (intro wrap64_id) linarith+
  have over: "\<not> (int MAX_ELEMENT_SIZE < digits_val (ds @ [c]) \<and> \<not> Tolerates hk)"
    using ok by (auto simp: limit_def split: if_splits)
  have "0 \<le> digits_val ds" using ds by (rule digits_val_nonneg)
  then show ?thesis
    using pos c w over
    by (auto simp: parse_byte_def step_length_def first_digit_def Let_def frame_same_def
        start_same_def starts_at_def)
qed

lemma step_digit_over:
  assumes pos: "at_pos (obj k) cur (PLen ds)" and ds: "list_all is_digit ds" and c: "is_digit c"
    and okds: "digits_val ds \<le> limit hk"
    and over: "limit hk < digits_val (ds @ [c])" and tol: "\<not> Tolerates hk"
  shows "\<exists>p. parse_byte hk i c k = Return p \<and> pstate p = STREAM_CORRUPTED"
proof -
  have nn: "0 \<le> digits_val ds" using ds by (rule digits_val_nonneg)
  have "digits_val (ds @ [c]) < 2 ^ 63"
    using okds digit_val_range[OF c] tol by (simp add: limit_def MAX_ELEMENT_SIZE_def)
  moreover have "- (2 ^ 63) \<le> digits_val (ds @ [c])"
    using nn digit_val_range[OF c] by simp
  ultimately have w: "wrap64 (digits_val (ds @ [c])) = digits_val (ds @ [c])"
    by (intro wrap64_id)
  have "int MAX_ELEMENT_SIZE < digits_val (ds @ [c])" using over tol by (simp add: limit_def)
  then show ?thesis
    using pos c w nn tol
    by (auto simp: parse_byte_def step_length_def first_digit_def Let_def)
qed

lemma step_other_length:
  assumes "at_pos (obj k) cur (PLen ds)" and "list_all is_digit ds"
    and "\<not> is_digit c" and "c \<noteq> CHR ''.'' \<or> ds = []"
  shows "\<exists>p. parse_byte hk i c k = Return p \<and> pstate p = STREAM_CORRUPTED"
  using assms by (auto simp: parse_byte_def step_length_def Let_def)

lemma step_dot:
  assumes pos: "at_pos (obj k) cur (PLen ds)" and ds: "list_all is_digit ds" "ds \<noteq> []"
  shows "\<exists>k'. parse_byte hk i (CHR ''.'') k = Continue k' \<and> at_pos (obj k') cur (PVal ds []) \<and>
           frame_same k k' \<and> start_same k k'"
  using pos ds digits_val_nonneg[OF ds(1)]
  by (auto simp: parse_byte_def step_length_def Let_def frame_same_def start_same_def)

text \<open>A value byte: buffered while there is room, counted always.\<close>

lemma step_value:
  assumes pos: "at_pos (obj k) cur (PVal ds bs)" and nc: "int (length bs) \<noteq> digits_val ds"
    and c: "length bs < MAX_ELEMENT_SIZE \<longrightarrow> is_ascii c"
  shows "\<exists>k'. parse_byte hk i c k = Continue k' \<and> at_pos (obj k') cur (PVal ds (bs @ [c])) \<and>
           frame_same k k' \<and> start_same k k'"
proof (cases "length bs < MAX_ELEMENT_SIZE")
  case True
  then have "clamp bs = bs" "clamp (bs @ [c]) = bs @ [c]" by simp_all
  with pos True nc c show ?thesis
    using buffer_store_take[of "length bs" "element_buffer (obj k)" bs c]
    by (auto simp: parse_byte_def step_data_def Let_def frame_same_def start_same_def)
next
  case False
  then have "clamp (bs @ [c]) = clamp bs" by simp
  with pos False nc c show ?thesis
    by (auto simp: parse_byte_def step_data_def Let_def frame_same_def start_same_def)
qed

lemma step_value_corrupt:
  assumes "at_pos (obj k) cur (PVal ds bs)" and "int (length bs) \<noteq> digits_val ds"
    and "length bs < MAX_ELEMENT_SIZE" and "\<not> is_ascii c"
  shows "\<exists>p. parse_byte hk i c k = Return p \<and> pstate p = STREAM_CORRUPTED"
  using assms by (auto simp: parse_byte_def step_data_def Let_def)

text \<open>The two cases of a byte inside an element, against \<^const>\<open>scan1\<close>.\<close>

lemma step_scan_Some:
  assumes "at_pos (obj k) cur pt" and "partial_ok hk pt" and "\<not> complete pt"
    and "scan1 hk pt c = Some pt'"
  shows "\<exists>k'. parse_byte hk i c k = Continue k' \<and> at_pos (obj k') cur pt' \<and> frame_same k k' \<and>
           (if cur = [] \<and> pt = PLen [] then starts_at i k' else start_same k k')"
proof (cases pt)
  case (PLen ds)
  show ?thesis
  proof (cases "is_digit c")
    case True
    with PLen assms have "digits_val (ds @ [c]) \<le> limit hk" "pt' = PLen (ds @ [c])"
      by (auto split: if_splits simp del: digits_val_snoc)
    with step_digit[of k cur ds c hk i] PLen assms True show ?thesis by auto
  next
    case False
    with PLen assms have "c = CHR ''.''" "ds \<noteq> []" "pt' = PVal ds []" by (auto split: if_splits)
    with step_dot[of k cur ds hk i] PLen assms show ?thesis by auto
  qed
next
  case (PVal ds bs)
  with assms have "length bs < MAX_ELEMENT_SIZE \<longrightarrow> is_ascii c" "pt' = PVal ds (bs @ [c])"
    by (auto split: if_splits)
  with step_value[of k cur ds bs c hk i] PVal assms show ?thesis by auto
qed

lemma step_scan_None:
  assumes "at_pos (obj k) cur pt" and "partial_ok hk pt" and "\<not> complete pt"
    and "scan1 hk pt c = None" and "\<not> Tolerates hk"
  shows "\<exists>p. parse_byte hk i c k = Return p \<and> pstate p = STREAM_CORRUPTED"
proof (cases pt)
  case (PLen ds)
  show ?thesis
  proof (cases "is_digit c")
    case True
    with PLen assms have "limit hk < digits_val (ds @ [c])"
      by (auto split: if_splits simp del: digits_val_snoc)
    with step_digit_over[of k cur ds c hk i] PLen assms True show ?thesis by auto
  next
    case False
    with PLen assms have "c \<noteq> CHR ''.'' \<or> ds = []" by (auto split: if_splits)
    with step_other_length[of k cur ds c hk i] PLen assms False show ?thesis by auto
  qed
next
  case (PVal ds bs)
  with assms have "length bs < MAX_ELEMENT_SIZE" "\<not> is_ascii c" by (auto split: if_splits)
  with step_value_corrupt[of k cur ds bs c hk i] PVal assms show ?thesis by auto
qed

section \<open>The delimiter\<close>

text \<open>
  At a complete element a comma or a semicolon closes it. While denying, no hook runs; otherwise the
  element goes to the opcode or the argument hook.
\<close>

definition on_element :: "'h hooks \<Rightarrow> element list \<Rightarrow> string \<Rightarrow> 'h \<Rightarrow> bool \<times> 'h" where
  "on_element hk cur v h =
     (if cur = [] then OnInstructionBegin hk (clamp v) h else OnArgument hk (clamp v) h)"

definition is_delim :: "char \<Rightarrow> bool" where
  "is_delim c \<longleftrightarrow> c = CHR '','' \<or> c = CHR '';''"

text \<open>The position after a delimiter.\<close>

definition after_delim :: "char \<Rightarrow> element list \<Rightarrow> element \<Rightarrow> element list" where
  "after_delim c cur e = (if c = CHR '';'' then [] else cur @ [e])"

lemma current_element_at:
  assumes "at_pos p cur (PVal ds bs)" and "complete (PVal ds bs)"
    and "int (length bs) \<le> limit hk"
  shows "current_element p = clamp bs"
proof (cases "int MAX_ELEMENT_SIZE < current_length p")
  case True
  with assms have "MAX_ELEMENT_SIZE \<le> length bs" by simp
  with True assms show ?thesis by (simp add: current_element_def elem_len_def)
next
  case False
  with assms have "elem_len (current_length p) = length (clamp bs)"
    by (simp add: elem_len_def MAX_ELEMENT_SIZE_def)
  with assms show ?thesis by (simp add: current_element_def)
qed

lemma step_delim_bad:
  assumes "at_pos (obj k) cur (PVal ds bs)" and "complete (PVal ds bs)" and "\<not> is_delim c"
  shows "\<exists>p. parse_byte hk i c k = Return p \<and> pstate p = STREAM_CORRUPTED"
  using assms by (auto simp: parse_byte_def step_delim_def Let_def is_delim_def)

lemma step_delim_denying:
  assumes "at_pos (obj k) cur (PVal ds bs)" and "complete (PVal ds bs)" and "is_delim c"
    and "denying k" and "cur \<noteq> []"
  shows "\<exists>k'. parse_byte hk i c k = Continue k' \<and>
           at_pos (obj k') (after_delim c cur (ds, bs)) (PLen []) \<and> sub (obj k') = sub (obj k) \<and>
           start_same k k' \<and> denying k' = (c \<noteq> CHR '';'') \<and>
           denied_ranges (obj k') = denied_ranges (obj k) @
             (if c = CHR '';'' then [(opcode_start_idx (obj k), i - opcode_start_idx (obj k) + 1)] else [])"
  using assms
  by (auto simp: parse_byte_def step_delim_def handle_element_def end_instruction_def Let_def
      is_delim_def after_delim_def start_same_def)

lemma step_delim_allowed:
  assumes "at_pos (obj k) cur (PVal ds bs)" and "complete (PVal ds bs)" and "is_delim c"
    and "int (length bs) \<le> limit hk"
    and "\<not> denying k" and "on_element hk cur bs (sub (obj k)) = (True, h)"
  shows "\<exists>k'. parse_byte hk i c k = Continue k' \<and>
           at_pos (obj k') (after_delim c cur (ds, bs)) (PLen []) \<and>
           sub (obj k') = (if c = CHR '';'' then OnInstructionEnd hk i h else h) \<and>
           start_same k k' \<and> \<not> denying k' \<and> denied_ranges (obj k') = denied_ranges (obj k)"
proof -
  have "at_pos ((obj k)\<lparr>current_index := i\<rparr>) cur (PVal ds bs)" using assms(1) by simp
  from current_element_at[OF this assms(2,4)]
  have el: "current_element ((obj k)\<lparr>current_index := i\<rparr>) = clamp bs" .
  from assms show ?thesis
    by (auto simp: parse_byte_def step_delim_def handle_element_def end_instruction_def Let_def
        is_delim_def after_delim_def start_same_def on_element_def el split: if_splits)
qed

lemma step_delim_denied:
  assumes "at_pos (obj k) cur (PVal ds bs)" and "complete (PVal ds bs)" and "is_delim c"
    and "int (length bs) \<le> limit hk"
    and "\<not> denying k" and "on_element hk cur bs (sub (obj k)) = (False, h)"
    and "opcode_in_this_call k"
  shows "\<exists>k'. parse_byte hk i c k = Continue k' \<and>
           at_pos (obj k') (after_delim c cur (ds, bs)) (PLen []) \<and> sub (obj k') = h \<and>
           start_same k k' \<and> denying k' = (c \<noteq> CHR '';'') \<and>
           denied_ranges (obj k') = denied_ranges (obj k) @
             (if c = CHR '';'' then [(opcode_start_idx (obj k), i - opcode_start_idx (obj k) + 1)] else [])"
proof -
  have "at_pos ((obj k)\<lparr>current_index := i\<rparr>) cur (PVal ds bs)" using assms(1) by simp
  from current_element_at[OF this assms(2,4)]
  have el: "current_element ((obj k)\<lparr>current_index := i\<rparr>) = clamp bs" .
  from assms show ?thesis
    by (auto simp: parse_byte_def step_delim_def handle_element_def end_instruction_def Let_def
        is_delim_def after_delim_def start_same_def on_element_def el split: if_splits)
qed

lemma step_delim_denied_earlier:
  assumes "at_pos (obj k) cur (PVal ds bs)" and "complete (PVal ds bs)" and "is_delim c"
    and "int (length bs) \<le> limit hk"
    and "\<not> denying k" and "on_element hk cur bs (sub (obj k)) = (False, h)"
    and "\<not> opcode_in_this_call k"
  shows "\<exists>p. parse_byte hk i c k = Return p \<and> pstate p = STREAM_CORRUPTED"
proof -
  have "at_pos ((obj k)\<lparr>current_index := i\<rparr>) cur (PVal ds bs)" using assms(1) by simp
  from current_element_at[OF this assms(2,4)]
  have el: "current_element ((obj k)\<lparr>current_index := i\<rparr>) = clamp bs" .
  from assms show ?thesis
    by (auto simp: parse_byte_def step_delim_def handle_element_def Let_def
        is_delim_def on_element_def el split: if_splits)
qed

section \<open>Running the loop\<close>

lemma parse_loop_append:
  "parse_loop hk i (xs @ ys) k =
     (case parse_loop hk i xs k of
        Return p \<Rightarrow> Return p
      | Continue k' \<Rightarrow> parse_loop hk (i + length xs) ys k')"
  by (induction hk i xs k rule: parse_loop.induct) (auto split: flow.splits)

end
