(* ===== verification/Deny_Filter.thy ===== *)
theory Deny_Filter imports Framing begin

text \<open>
  The contract of a filtering subclass of \<open>OpcodeParser\<close>, as a locale, and what the framer then
  guarantees. \<open>exec_instrs\<close> is the abstract policy: the hooks run over whole instructions. The locale
  assumes what the subclass promises (a denied instruction leaves no trace in its state); its main
  lemma is that the bytes kept by \<open>Parse\<close> and \<open>Excise\<close>, over any sequence of datagrams, are whole
  instructions the policy accepts followed by one unfinished instruction.
\<close>

section \<open>The policy of a subclass over whole instructions\<close>

fun exec_args :: "'h hooks \<Rightarrow> 'h \<Rightarrow> string list \<Rightarrow> 'h option" where
  "exec_args hk h [] = Some h"
| "exec_args hk h (a # as) =
     (case OnArgument hk a h of (ok, h') \<Rightarrow> if ok then exec_args hk h' as else None)"

fun exec_instr :: "'h hooks \<Rightarrow> 'h \<Rightarrow> string list \<Rightarrow> 'h option" where
  "exec_instr hk h [] = Some h"
| "exec_instr hk h (opcode # as) =
     (case OnInstructionBegin hk opcode h of (ok, h') \<Rightarrow> if ok then exec_args hk h' as else None)"

fun exec_instrs :: "'h hooks \<Rightarrow> 'h \<Rightarrow> instr list \<Rightarrow> 'h option" where
  "exec_instrs hk h [] = Some h"
| "exec_instrs hk h (i # is) =
     (case exec_instr hk h (elems i) of None \<Rightarrow> None | Some h' \<Rightarrow> exec_instrs hk h' is)"

lemma exec_args_snoc:
  "exec_args hk h (as @ [a]) =
     (case exec_args hk h as of
        None \<Rightarrow> None
      | Some h' \<Rightarrow> (case OnArgument hk a h' of (ok, h'') \<Rightarrow> if ok then Some h'' else None))"
  by (induction as arbitrary: h) (auto split: prod.splits option.splits)

lemma exec_instr_snoc:
  "exec_instr hk h (elems cur @ [clamp v]) =
     (case exec_instr hk h (elems cur) of
        None \<Rightarrow> None
      | Some h' \<Rightarrow> (case on_element hk cur v h' of (ok, h'') \<Rightarrow> if ok then Some h'' else None))"
proof (cases cur)
  case Nil
  then show ?thesis by (auto simp: on_element_def split: prod.splits)
next
  case (Cons e es)
  then show ?thesis
    by (auto simp: on_element_def elems_def exec_args_snoc split: prod.splits option.splits)
qed

lemma exec_instrs_append:
  "exec_instrs hk h (is @ js) =
     (case exec_instrs hk h is of None \<Rightarrow> None | Some h' \<Rightarrow> exec_instrs hk h' js)"
  by (induction "is" arbitrary: h) (auto split: option.splits)

text \<open>The abstract filter: denied instructions are dropped, the state is as before them.\<close>

fun spec_filter :: "'h hooks \<Rightarrow> 'h \<Rightarrow> instr list \<Rightarrow> instr list" where
  "spec_filter hk h [] = []"
| "spec_filter hk h (i # is) =
     (case exec_instr hk h (elems i) of
        None \<Rightarrow> spec_filter hk h is
      | Some h' \<Rightarrow> i # spec_filter hk h' is)"

text \<open>The state the policy is left in: a denied instruction changes nothing.\<close>

fun spec_state :: "'h hooks \<Rightarrow> 'h \<Rightarrow> instr list \<Rightarrow> 'h" where
  "spec_state hk h [] = h"
| "spec_state hk h (i # is) =
     spec_state hk (case exec_instr hk h (elems i) of None \<Rightarrow> h | Some h' \<Rightarrow> h') is"

section \<open>The contract\<close>

locale deny_filter =
  fixes hk :: "'h hooks" and eqv :: "'h \<Rightarrow> 'h \<Rightarrow> bool"
  assumes end_id: "OnInstructionEnd hk i h = h"
    and eqv_refl: "eqv h h"
    and eqv_trans: "eqv h1 h2 \<Longrightarrow> eqv h2 h3 \<Longrightarrow> eqv h1 h3"
    and begin_eqv: "eqv h h' \<Longrightarrow> OnInstructionBegin hk e h = OnInstructionBegin hk e h'"
    and deny_begin: "OnInstructionBegin hk e h = (False, h') \<Longrightarrow> eqv h h'"
    and deny_arg: "exec_instr hk h es = Some h1 \<Longrightarrow> es \<noteq> [] \<Longrightarrow>
                   OnArgument hk e h1 = (False, h') \<Longrightarrow> eqv h h'"
begin

lemma deny_element:
  assumes "if cur = [] then eqv hs h else exec_instr hk hs (elems cur) = Some h"
    and "on_element hk cur v h = (False, h')"
  shows "eqv hs h'"
proof (cases "cur = []")
  case True
  with assms have "eqv hs h" "OnInstructionBegin hk (clamp v) h = (False, h')"
    by (simp_all add: on_element_def)
  with deny_begin eqv_trans show ?thesis by blast
next
  case False
  with assms deny_arg[of hs "elems cur" h "clamp v" h'] show ?thesis
    by (simp add: on_element_def)
qed

lemma allow_element:
  assumes "if cur = [] then eqv hs h else exec_instr hk hs (elems cur) = Some h"
    and "on_element hk cur v h = (True, h')"
  shows "exec_instr hk hs (elems cur @ [clamp v]) = Some h'"
proof (cases "cur = []")
  case True
  with assms have "OnInstructionBegin hk (clamp v) hs = (True, h')"
    using begin_eqv[of hs h "clamp v"] by (simp add: on_element_def)
  with True show ?thesis by simp
next
  case False
  with assms show ?thesis by (simp add: exec_instr_snoc)
qed

lemma exec_instr_eqv:
  "es \<noteq> [] \<Longrightarrow> eqv h h' \<Longrightarrow> exec_instr hk h es = exec_instr hk h' es"
  using begin_eqv by (cases es) auto

end

section \<open>The state of a stream\<close>

text \<open>
  \<open>clean hk eqv h0 out cur pt h\<close>: the bytes \<open>out\<close> are instructions the policy accepts from \<open>h0\<close>,
  then the closed elements \<open>cur\<close> and the partial element \<open>pt\<close> of an unfinished one; \<open>h\<close> is the
  subclass's state there.
\<close>

definition clean ::
  "'h hooks \<Rightarrow> ('h \<Rightarrow> 'h \<Rightarrow> bool) \<Rightarrow> 'h \<Rightarrow> string \<Rightarrow> element list \<Rightarrow> partial \<Rightarrow> 'h \<Rightarrow> bool" where
  "clean hk eqv h0 out cur pt h \<longleftrightarrow>
     (\<exists>kept hs. out = wire kept @ wire_open cur @ wire_partial pt \<and>
        list_all (instr_ok hk) kept \<and> list_all (elem_ok hk) cur \<and> partial_ok hk pt \<and>
        exec_instrs hk h0 kept = Some hs \<and>
        (if cur = [] then eqv hs h else exec_instr hk hs (elems cur) = Some h))"

lemma cleanI:
  assumes "out = wire kept @ wire_open cur @ wire_partial pt"
    and "list_all (instr_ok hk) kept" and "list_all (elem_ok hk) cur" and "partial_ok hk pt"
    and "exec_instrs hk h0 kept = Some hs"
    and "if cur = [] then eqv hs h else exec_instr hk hs (elems cur) = Some h"
  shows "clean hk eqv h0 out cur pt h"
  using assms unfolding clean_def by blast

lemma cleanE:
  assumes "clean hk eqv h0 out cur pt h"
  obtains kept hs where "out = wire kept @ wire_open cur @ wire_partial pt"
    "list_all (instr_ok hk) kept" "list_all (elem_ok hk) cur" "partial_ok hk pt"
    "exec_instrs hk h0 kept = Some hs"
    "if cur = [] then eqv hs h else exec_instr hk hs (elems cur) = Some h"
  using assms unfolding clean_def by blast

lemma partial_ok_PLen_Nil [simp]: "partial_ok hk (PLen [])"
  by (simp add: limit_def)

lemma complete_elem_ok:
  "partial_ok hk (PVal ds bs) \<Longrightarrow> complete (PVal ds bs) \<Longrightarrow> elem_ok hk (ds, bs)"
  by (simp add: elem_ok_def)

lemma wire_elem_partial: "wire_elem (ds, bs) = wire_partial (PVal ds bs)"
  by (simp add: wire_elem_def)

lemma after_delim_bytes:
  "is_delim c \<Longrightarrow> wire_open cur @ wire_partial (PVal ds bs) @ [c] =
     (if c = CHR '';'' then wire_instr (cur @ [(ds, bs)]) else wire_open (cur @ [(ds, bs)]))"
  by (auto simp: is_delim_def wire_elem_def)

lemma clean_scan:
  assumes "clean hk eqv h0 out cur pt h" and "scan1 hk pt c = Some pt'" and "\<not> complete pt"
  shows "clean hk eqv h0 (out @ [c]) cur pt' h"
  using assms(1)
proof (rule cleanE)
  fix kept hs
  assume "out = wire kept @ wire_open cur @ wire_partial pt" "list_all (instr_ok hk) kept"
    "list_all (elem_ok hk) cur" "partial_ok hk pt" "exec_instrs hk h0 kept = Some hs"
    "if cur = [] then eqv hs h else exec_instr hk hs (elems cur) = Some h"
  with assms(2,3) show ?thesis
    by (intro cleanI[of _ kept _ _ _ _ hs]) (auto simp: wire_partial_scan1 intro: scan1_ok)
qed

section \<open>The invariant of the byte loop\<close>

text \<open>
  \<open>out\<close> is what the stream forwarded before this call, \<open>pre\<close> the bytes of the datagram read so far.
  While an instruction is being denied its bytes run from \<open>opcode_start_idx\<close> to the end of \<open>pre\<close>.
\<close>

definition denied_base ::
  "'h hooks \<Rightarrow> ('h \<Rightarrow> 'h \<Rightarrow> bool) \<Rightarrow> 'h \<Rightarrow> string \<Rightarrow> string \<Rightarrow> 'h parser \<Rightarrow> bool" where
  "denied_base hk eqv h0 out pre p \<longleftrightarrow>
     opcode_start_idx p \<le> length pre \<and> ranges_ok 0 (denied_ranges p) (opcode_start_idx p) \<and>
     clean hk eqv h0 (out @ cut_ranges (denied_ranges p) 0 (take (opcode_start_idx p) pre))
       [] (PLen []) (sub p)"

definition denying_inv ::
  "'h hooks \<Rightarrow> ('h \<Rightarrow> 'h \<Rightarrow> bool) \<Rightarrow> 'h \<Rightarrow> string \<Rightarrow> string \<Rightarrow> 'h parser \<Rightarrow> bool" where
  "denying_inv hk eqv h0 out pre p \<longleftrightarrow>
     (\<exists>cur pt. at_pos p cur pt \<and> cur \<noteq> [] \<and> partial_ok hk pt) \<and> denied_base hk eqv h0 out pre p"

definition started ::
  "string \<Rightarrow> 'h parser \<Rightarrow> element list \<Rightarrow> partial \<Rightarrow> bool" where
  "started pre p cur pt \<longleftrightarrow>
     opcode_start_idx p \<le> length pre \<and> ranges_ok 0 (denied_ranges p) (opcode_start_idx p) \<and>
     drop (opcode_start_idx p) pre = wire_open cur @ wire_partial pt"

definition open_inv ::
  "'h hooks \<Rightarrow> ('h \<Rightarrow> 'h \<Rightarrow> bool) \<Rightarrow> 'h \<Rightarrow> string \<Rightarrow> string \<Rightarrow> 'h call \<Rightarrow>
   element list \<Rightarrow> partial \<Rightarrow> bool" where
  "open_inv hk eqv h0 out pre k cur pt \<longleftrightarrow>
     at_pos (obj k) cur pt \<and> ranges_ok 0 (denied_ranges (obj k)) (length pre) \<and>
     clean hk eqv h0 (out @ cut_ranges (denied_ranges (obj k)) 0 pre) cur pt (sub (obj k)) \<and>
     (opcode_in_this_call k \<longrightarrow> cur \<noteq> [] \<or> pt \<noteq> PLen [] \<longrightarrow> started pre (obj k) cur pt)"

definition loop_inv ::
  "'h hooks \<Rightarrow> ('h \<Rightarrow> 'h \<Rightarrow> bool) \<Rightarrow> 'h \<Rightarrow> string \<Rightarrow> string \<Rightarrow> 'h call \<Rightarrow> bool" where
  "loop_inv hk eqv h0 out pre k \<longleftrightarrow>
     (if denying k then denying_inv hk eqv h0 out pre (obj k)
      else \<exists>cur pt. open_inv hk eqv h0 out pre k cur pt)"

definition corrupted :: "'h flow \<Rightarrow> bool" where
  "corrupted r \<longleftrightarrow> (\<exists>p. r = Return p \<and> pstate p = STREAM_CORRUPTED)"

text \<open>What one step may give: corruption, or the invariant with one more byte.\<close>

definition step_ok ::
  "'h hooks \<Rightarrow> ('h \<Rightarrow> 'h \<Rightarrow> bool) \<Rightarrow> 'h \<Rightarrow> string \<Rightarrow> string \<Rightarrow> 'h flow \<Rightarrow> bool" where
  "step_ok hk eqv h0 out pre r \<longleftrightarrow>
     corrupted r \<or> (\<exists>k. r = Continue k \<and> loop_inv hk eqv h0 out pre k)"

lemma cut_snoc:
  "ranges_ok 0 rs (length pre) \<Longrightarrow> cut_ranges rs 0 (pre @ ys) = cut_ranges rs 0 pre @ ys"
  using cut_append[of 0 rs pre ys] by simp

lemma denying_scan:
  assumes inv: "denying_inv hk eqv h0 out pre (obj k)" and "denying k"
    and pos: "at_pos (obj k) cur pt" "cur \<noteq> []" "partial_ok hk pt" "\<not> complete pt"
    and sc: "scan1 hk pt c = Some pt'"
  shows "step_ok hk eqv h0 out (pre @ [c]) (parse_byte hk (length pre) c k)"
proof -
  from step_scan_Some[OF pos(1,3,4) sc, of "length pre"] pos(2) obtain k' where
    k': "parse_byte hk (length pre) c k = Continue k'" "at_pos (obj k') cur pt'"
      "frame_same k k'" "start_same k k'" by auto
  from inv k'(3,4) have "denied_base hk eqv h0 out (pre @ [c]) (obj k')"
    by (simp add: denying_inv_def denied_base_def frame_same_def start_same_def)
  with k'(2) pos(2) scan1_ok[OF sc pos(3,4)]
  have "denying_inv hk eqv h0 out (pre @ [c]) (obj k')" unfolding denying_inv_def by blast
  with k' \<open>denying k\<close> show ?thesis by (simp add: step_ok_def loop_inv_def frame_same_def)
qed

lemma open_scan:
  assumes inv: "open_inv hk eqv h0 out pre k cur pt" and "\<not> denying k"
    and pt: "partial_ok hk pt" "\<not> complete pt" and sc: "scan1 hk pt c = Some pt'"
  shows "step_ok hk eqv h0 out (pre @ [c]) (parse_byte hk (length pre) c k)"
proof -
  from inv have pos: "at_pos (obj k) cur pt" by (simp add: open_inv_def)
  from step_scan_Some[OF pos pt sc, of "length pre"] obtain k' where
    k': "parse_byte hk (length pre) c k = Continue k'" "at_pos (obj k') cur pt'" "frame_same k k'"
    and st: "if cur = [] \<and> pt = PLen [] then starts_at (length pre) k' else start_same k k'" by auto
  from inv have rok: "ranges_ok 0 (denied_ranges (obj k)) (length pre)" by (simp add: open_inv_def)
  from inv k'(3) sc pt(2)
  have cl: "clean hk eqv h0 (out @ cut_ranges (denied_ranges (obj k')) 0 (pre @ [c])) cur pt' (sub (obj k'))"
    using clean_scan by (fastforce simp: open_inv_def frame_same_def cut_snoc[OF rok])
  have "started (pre @ [c]) (obj k') cur pt'" if "opcode_in_this_call k'"
  proof (cases "cur = [] \<and> pt = PLen []")
    case True
    with st rok k'(3) sc show ?thesis
      by (simp add: started_def starts_at_def frame_same_def wire_partial_scan1[OF sc] del: scan1.simps)
  next
    case False
    with inv that st have "started pre (obj k) cur pt" by (auto simp: open_inv_def start_same_def)
    with st False k'(3) show ?thesis
      by (auto simp: started_def start_same_def frame_same_def wire_partial_scan1[OF sc])
  qed
  with cl k' rok have "open_inv hk eqv h0 out (pre @ [c]) k' cur pt'"
    by (auto simp: open_inv_def frame_same_def intro: ranges_ok_mono)
  with k' \<open>\<not> denying k\<close> show ?thesis by (auto simp: step_ok_def loop_inv_def frame_same_def)
qed

text \<open>Where the loop stands, whether it denies or not.\<close>

lemma loop_inv_pos:
  assumes "loop_inv hk eqv h0 out pre k"
  obtains cur pt where "at_pos (obj k) cur pt" "partial_ok hk pt"
    "denying k \<Longrightarrow> cur \<noteq> [] \<and> denying_inv hk eqv h0 out pre (obj k)"
    "\<not> denying k \<Longrightarrow> open_inv hk eqv h0 out pre k cur pt"
proof (cases "denying k")
  case True
  with assms have inv: "denying_inv hk eqv h0 out pre (obj k)" by (simp add: loop_inv_def)
  then obtain cur pt where "at_pos (obj k) cur pt" "cur \<noteq> []" "partial_ok hk pt"
    unfolding denying_inv_def by blast
  with True inv that show ?thesis by blast
next
  case False
  with assms obtain cur pt where inv: "open_inv hk eqv h0 out pre k cur pt"
    by (auto simp: loop_inv_def)
  then have "at_pos (obj k) cur pt" "partial_ok hk pt"
    by (auto simp: open_inv_def elim: cleanE)
  with False inv that show ?thesis by blast
qed

lemma step_ok_corrupt: "\<exists>p. r = Return p \<and> pstate p = STREAM_CORRUPTED \<Longrightarrow> step_ok hk eqv h0 out pre r"
  by (simp add: step_ok_def corrupted_def)

text \<open>A denied instruction that began in this call can be cut out cleanly.\<close>

lemma clean_before:
  assumes inv: "open_inv hk eqv h0 out pre k cur pt" and "opcode_in_this_call k"
    and ne: "cur \<noteq> [] \<or> pt \<noteq> PLen []"
    and h': "\<And>hs. if cur = [] then eqv hs (sub (obj k)) else exec_instr hk hs (elems cur) = Some (sub (obj k))
              \<Longrightarrow> eqv hs h'"
  shows "clean hk eqv h0
           (out @ cut_ranges (denied_ranges (obj k)) 0 (take (opcode_start_idx (obj k)) pre))
           [] (PLen []) h'"
proof -
  let ?s = "opcode_start_idx (obj k)" and ?rs = "denied_ranges (obj k)"
  from assms have st: "started pre (obj k) cur pt" by (auto simp: open_inv_def)
  then have rest: "drop ?s pre = wire_open cur @ wire_partial pt" by (simp add: started_def)
  have len: "length (take ?s pre) = ?s" using st by (simp add: started_def)
  have "cut_ranges ?rs 0 (take ?s pre @ drop ?s pre) = cut_ranges ?rs 0 (take ?s pre) @ drop ?s pre"
    using st by (intro cut_snoc) (simp only: len, simp add: started_def)
  then have split: "cut_ranges ?rs 0 pre = cut_ranges ?rs 0 (take ?s pre) @ wire_open cur @ wire_partial pt"
    by (metis append_take_drop_id rest)
  from inv have "clean hk eqv h0 (out @ cut_ranges ?rs 0 pre) cur pt (sub (obj k))"
    by (simp add: open_inv_def)
  then show ?thesis
  proof (rule cleanE)
    fix kept hs
    assume "out @ cut_ranges ?rs 0 pre = wire kept @ wire_open cur @ wire_partial pt"
      "list_all (instr_ok hk) kept" "exec_instrs hk h0 kept = Some hs"
      "if cur = [] then eqv hs (sub (obj k)) else exec_instr hk hs (elems cur) = Some (sub (obj k))"
    with split h' show ?thesis by (intro cleanI[of _ kept _ _ _ _ hs]) simp_all
  qed
qed

section \<open>The delimiter keeps the invariant\<close>

text \<open>A byte after which the instruction stands denied, or has just been recorded as denied.\<close>

lemma denied_step_ok:
  assumes pb: "parse_byte hk (length pre) c k = Continue k'"
    and pos: "at_pos (obj k') (after_delim c cur e) (PLen [])" and "start_same k k'"
    and dn: "denying k' = (c \<noteq> CHR '';'')"
    and dr: "denied_ranges (obj k') = denied_ranges (obj k) @
               (if c = CHR '';''
                then [(opcode_start_idx (obj k), length pre - opcode_start_idx (obj k) + 1)] else [])"
    and le: "opcode_start_idx (obj k) \<le> length pre"
    and rok: "ranges_ok 0 (denied_ranges (obj k)) (opcode_start_idx (obj k))"
    and cl: "clean hk eqv h0
               (out @ cut_ranges (denied_ranges (obj k)) 0 (take (opcode_start_idx (obj k)) pre))
               [] (PLen []) (sub (obj k'))"
  shows "step_ok hk eqv h0 out (pre @ [c]) (parse_byte hk (length pre) c k)"
proof (cases "c = CHR '';''")
  case True
  let ?s = "opcode_start_idx (obj k)" and ?rs = "denied_ranges (obj k)"
  have cut: "cut_ranges (?rs @ [(?s, length pre - ?s + 1)]) 0 (pre @ [c]) = cut_ranges ?rs 0 (take ?s pre)"
    using cut_drop_end[OF rok, of "pre @ [c]" "length pre - ?s + 1"] le by simp
  have ok: "ranges_ok 0 (?rs @ [(?s, length pre - ?s + 1)]) (length (pre @ [c]))"
    using le by (intro ranges_ok_snoc[OF rok]) simp
  from True dr have dr': "denied_ranges (obj k') = ?rs @ [(?s, length pre - ?s + 1)]" by simp
  have "open_inv hk eqv h0 out (pre @ [c]) k' [] (PLen [])"
    unfolding open_inv_def dr' cut using pos True ok cl by (simp add: after_delim_def)
  with pb dn True show ?thesis by (auto simp: step_ok_def loop_inv_def)
next
  case False
  from assms False have "denied_base hk eqv h0 out (pre @ [c]) (obj k')"
    by (simp add: denied_base_def start_same_def)
  moreover from pos False have "at_pos (obj k') (cur @ [e]) (PLen [])" by (simp add: after_delim_def)
  ultimately have "denying_inv hk eqv h0 out (pre @ [c]) (obj k')"
    unfolding denying_inv_def by (metis partial_ok_PLen_Nil snoc_eq_iff_butlast)
  with pb dn False show ?thesis by (simp add: step_ok_def loop_inv_def)
qed

lemma denying_delim:
  assumes inv: "denying_inv hk eqv h0 out pre (obj k)" and "denying k"
    and pos: "at_pos (obj k) cur (PVal ds bs)" "cur \<noteq> []" "complete (PVal ds bs)" and c: "is_delim c"
  shows "step_ok hk eqv h0 out (pre @ [c]) (parse_byte hk (length pre) c k)"
proof -
  from step_delim_denying[OF pos(1,3) c \<open>denying k\<close> pos(2), of hk "length pre"] obtain k' where
    k': "parse_byte hk (length pre) c k = Continue k'"
      "at_pos (obj k') (after_delim c cur (ds, bs)) (PLen [])" "sub (obj k') = sub (obj k)"
      "start_same k k'" "denying k' = (c \<noteq> CHR '';'')"
      "denied_ranges (obj k') = denied_ranges (obj k) @
         (if c = CHR '';'' then [(opcode_start_idx (obj k), length pre - opcode_start_idx (obj k) + 1)] else [])"
    by blast
  from inv have "denied_base hk eqv h0 out pre (obj k)" by (simp add: denying_inv_def)
  with k'(3) show ?thesis
    by (intro denied_step_ok[OF k'(1,2,4,5,6)]) (simp_all add: denied_base_def)
qed

context deny_filter
begin

lemma open_delim_denied:
  assumes inv: "open_inv hk eqv h0 out pre k cur (PVal ds bs)" and nd: "\<not> denying k"
    and pt: "partial_ok hk (PVal ds bs)" "complete (PVal ds bs)" and c: "is_delim c"
    and el: "on_element hk cur bs (sub (obj k)) = (False, h')"
  shows "step_ok hk eqv h0 out (pre @ [c]) (parse_byte hk (length pre) c k)"
proof -
  from inv have pos: "at_pos (obj k) cur (PVal ds bs)" by (simp add: open_inv_def)
  from pt have lim: "int (length bs) \<le> limit hk" by simp
  show ?thesis
  proof (cases "opcode_in_this_call k")
    case False
    from step_delim_denied_earlier[OF pos pt(2) c lim nd el False, of "length pre"]
    show ?thesis by (simp add: step_ok_def corrupted_def)
  next
    case True
    from step_delim_denied[OF pos pt(2) c lim nd el True, of "length pre"] obtain k' where
      k': "parse_byte hk (length pre) c k = Continue k'"
        "at_pos (obj k') (after_delim c cur (ds, bs)) (PLen [])" "sub (obj k') = h'"
        "start_same k k'" "denying k' = (c \<noteq> CHR '';'')"
        "denied_ranges (obj k') = denied_ranges (obj k) @
           (if c = CHR '';'' then [(opcode_start_idx (obj k), length pre - opcode_start_idx (obj k) + 1)] else [])"
      by blast
    from inv True have st: "started pre (obj k) cur (PVal ds bs)" by (simp add: open_inv_def)
    have "clean hk eqv h0
            (out @ cut_ranges (denied_ranges (obj k)) 0 (take (opcode_start_idx (obj k)) pre))
            [] (PLen []) (sub (obj k'))"
      unfolding k'(3) using deny_element el by (intro clean_before[OF inv True]) blast+
    with st show ?thesis
      by (intro denied_step_ok[OF k'(1,2,4,5,6)]) (simp_all add: started_def)
  qed
qed

lemma clean_delim:
  assumes cl: "clean hk eqv h0 xs cur (PVal ds bs) h"
    and pt: "partial_ok hk (PVal ds bs)" "complete (PVal ds bs)" and c: "is_delim c"
    and el: "on_element hk cur bs h = (True, h')"
  shows "clean hk eqv h0 (xs @ [c]) (after_delim c cur (ds, bs)) (PLen []) h'"
proof -
  from cl obtain kept hs where kept: "xs = wire kept @ wire_open cur @ wire_partial (PVal ds bs)"
      "list_all (instr_ok hk) kept" "list_all (elem_ok hk) cur" "exec_instrs hk h0 kept = Some hs"
    and hs: "if cur = [] then eqv hs h else exec_instr hk hs (elems cur) = Some h"
    by (elim cleanE) blast
  have bytes: "xs @ [c] = wire kept @
      (if c = CHR '';'' then wire_instr (cur @ [(ds, bs)]) else wire_open (cur @ [(ds, bs)]))"
    using kept(1) after_delim_bytes[OF c, of cur ds bs] by simp
  have all: "list_all (elem_ok hk) (cur @ [(ds, bs)])"
    using kept(3) complete_elem_ok[OF pt] by simp
  have ex: "exec_instr hk hs (elems (cur @ [(ds, bs)])) = Some h'"
    using allow_element[OF hs el] by simp
  show ?thesis
  proof (cases "c = CHR '';''")
    case True
    with bytes all ex kept eqv_refl show ?thesis
      by (intro cleanI[of _ "kept @ [cur @ [(ds, bs)]]" _ _ _ _ h'])
        (auto simp: after_delim_def instr_ok_def exec_instrs_append simp del: elems_simps)
  next
    case False
    with bytes all ex kept show ?thesis
      by (intro cleanI[of _ kept _ _ _ _ hs]) (auto simp: after_delim_def simp del: elems_simps)
  qed
qed

lemma open_delim_allowed:
  assumes inv: "open_inv hk eqv h0 out pre k cur (PVal ds bs)" and nd: "\<not> denying k"
    and pt: "partial_ok hk (PVal ds bs)" "complete (PVal ds bs)" and c: "is_delim c"
    and el: "on_element hk cur bs (sub (obj k)) = (True, h')"
  shows "step_ok hk eqv h0 out (pre @ [c]) (parse_byte hk (length pre) c k)"
proof -
  from inv have pos: "at_pos (obj k) cur (PVal ds bs)" by (simp add: open_inv_def)
  from pt have lim: "int (length bs) \<le> limit hk" by simp
  from step_delim_allowed[OF pos pt(2) c lim nd el, of "length pre"] obtain k' where
    k': "parse_byte hk (length pre) c k = Continue k'"
      "at_pos (obj k') (after_delim c cur (ds, bs)) (PLen [])" "sub (obj k') = h'"
      "start_same k k'" "\<not> denying k'" "denied_ranges (obj k') = denied_ranges (obj k)"
    by (auto simp: end_id split: if_splits)
  let ?cur' = "after_delim c cur (ds, bs)" and ?rs = "denied_ranges (obj k)"
  from inv have rok: "ranges_ok 0 ?rs (length pre)" by (simp add: open_inv_def)
  from inv have "clean hk eqv h0 (out @ cut_ranges ?rs 0 pre) cur (PVal ds bs) (sub (obj k))"
    by (simp add: open_inv_def)
  from clean_delim[OF this pt c el]
  have cl: "clean hk eqv h0 ((out @ cut_ranges ?rs 0 pre) @ [c]) ?cur' (PLen []) h'" .
  have st: "started (pre @ [c]) (obj k') ?cur' (PLen [])"
    if "opcode_in_this_call k'" "?cur' \<noteq> []"
  proof -
    from that inv k'(4) have "started pre (obj k) cur (PVal ds bs)"
      by (auto simp: open_inv_def start_same_def)
    with that c k'(4,6) show ?thesis
      by (auto simp: started_def start_same_def after_delim_def is_delim_def wire_elem_def
          split: if_splits)
  qed
  from cl st k' rok have "open_inv hk eqv h0 out (pre @ [c]) k' ?cur' (PLen [])"
    by (auto simp: open_inv_def cut_snoc intro: ranges_ok_mono)
  with k' show ?thesis by (auto simp: step_ok_def loop_inv_def)
qed

end

section \<open>Filters that do not tolerate oversized elements\<close>

locale strict_filter = deny_filter +
  assumes strict: "\<not> Tolerates hk"
begin

lemma loop_inv_scan:
  assumes pos: "at_pos (obj k) cur pt" "partial_ok hk pt" "\<not> complete pt"
    and dn: "denying k \<Longrightarrow> cur \<noteq> [] \<and> denying_inv hk eqv h0 out pre (obj k)"
    and op: "\<not> denying k \<Longrightarrow> open_inv hk eqv h0 out pre k cur pt"
  shows "step_ok hk eqv h0 out (pre @ [c]) (parse_byte hk (length pre) c k)"
proof (cases "scan1 hk pt c")
  case None
  from step_scan_None[OF pos None strict] show ?thesis by (intro step_ok_corrupt) blast
next
  case (Some pt')
  show ?thesis
  proof (cases "denying k")
    case True
    with dn have "denying_inv hk eqv h0 out pre (obj k)" "cur \<noteq> []" by simp_all
    from denying_scan[OF this(1) True pos(1) this(2) pos(2,3) Some] show ?thesis .
  next
    case False
    from open_scan[OF op[OF False] False pos(2,3) Some] show ?thesis .
  qed
qed

lemma loop_inv_delim:
  assumes pos: "at_pos (obj k) cur (PVal ds bs)" "partial_ok hk (PVal ds bs)" "complete (PVal ds bs)"
    and dn: "denying k \<Longrightarrow> cur \<noteq> [] \<and> denying_inv hk eqv h0 out pre (obj k)"
    and op: "\<not> denying k \<Longrightarrow> open_inv hk eqv h0 out pre k cur (PVal ds bs)"
  shows "step_ok hk eqv h0 out (pre @ [c]) (parse_byte hk (length pre) c k)"
proof (cases "is_delim c")
  case False
  with step_delim_bad[of k cur ds bs c hk "length pre"] pos(1,3) show ?thesis by (intro step_ok_corrupt) blast
next
  case delim: True
  obtain b h' where el: "on_element hk cur bs (sub (obj k)) = (b, h')" by fastforce
  show ?thesis
  proof (cases "denying k")
    case True
    with dn have "denying_inv hk eqv h0 out pre (obj k)" "cur \<noteq> []" by simp_all
    from denying_delim[OF this(1) True pos(1) this(2) pos(3) delim] show ?thesis .
  next
    case False
    with op have inv: "open_inv hk eqv h0 out pre k cur (PVal ds bs)" by simp
    from el show ?thesis
      using open_delim_allowed[OF inv False pos(2,3) delim] open_delim_denied[OF inv False pos(2,3) delim]
      by (cases b) auto
  qed
qed

lemma loop_inv_step:
  assumes "loop_inv hk eqv h0 out pre k"
  shows "step_ok hk eqv h0 out (pre @ [c]) (parse_byte hk (length pre) c k)"
proof (rule loop_inv_pos[OF assms])
  fix cur pt
  assume l: "at_pos (obj k) cur pt" "partial_ok hk pt"
    "denying k \<Longrightarrow> cur \<noteq> [] \<and> denying_inv hk eqv h0 out pre (obj k)"
    "\<not> denying k \<Longrightarrow> open_inv hk eqv h0 out pre k cur pt"
  show ?thesis
  proof (cases "complete pt")
    case False
    from loop_inv_scan[OF l(1,2) False l(3,4)] show ?thesis .
  next
    case True
    then obtain ds bs where "pt = PVal ds bs" by (cases pt) auto
    with l True loop_inv_delim show ?thesis by blast
  qed
qed

lemma loop_inv_loop:
  "loop_inv hk eqv h0 out pre k \<Longrightarrow>
   step_ok hk eqv h0 out (pre @ data) (parse_loop hk (length pre) data k)"
proof (induction data arbitrary: pre k)
  case Nil
  then show ?case by (simp add: step_ok_def)
next
  case (Cons c cs)
  from loop_inv_step[OF Cons.prems, of c] show ?case
    unfolding step_ok_def
  proof (elim disjE exE conjE)
    assume "corrupted (parse_byte hk (length pre) c k)"
    then show "corrupted (parse_loop hk (length pre) (c # cs) k) \<or>
      (\<exists>ka. parse_loop hk (length pre) (c # cs) k = Continue ka \<and> loop_inv hk eqv h0 out (pre @ c # cs) ka)"
      by (auto simp: corrupted_def)
  next
    fix k' assume k': "parse_byte hk (length pre) c k = Continue k'"
      and inv: "loop_inv hk eqv h0 out (pre @ [c]) k'"
    from Cons.IH[OF inv] k'
    show "corrupted (parse_loop hk (length pre) (c # cs) k) \<or>
      (\<exists>ka. parse_loop hk (length pre) (c # cs) k = Continue ka \<and> loop_inv hk eqv h0 out (pre @ c # cs) ka)"
      by (simp add: step_ok_def)
  qed
qed

text \<open>One datagram: what \<open>Parse\<close> and \<open>Excise\<close> keep extends the stream cleanly.\<close>

lemma Parse_clean:
  assumes pos: "at_pos p cur pt" and cl: "clean hk eqv h0 out cur pt (sub p)"
    and res: "Parse hk p data = (st, p')" and st: "st \<noteq> STREAM_CORRUPTED"
  shows "\<exists>cur' pt'. at_pos p' cur' pt' \<and> ranges_ok 0 (denied_ranges p') (length data) \<and>
           clean hk eqv h0 (out @ cut_ranges (denied_ranges p') 0 data) cur' pt' (sub p') \<and>
           st = (if denied_ranges p' = [] then pstate p' else DENIED_DATA)"
proof -
  have start: "at_pos (obj (start_call p)) cur pt"
    using pos by (cases pt) (auto simp: start_call_def)
  have "open_inv hk eqv h0 out [] (start_call p) cur pt"
    using start cl by (simp add: open_inv_def start_call_def)
  then have "loop_inv hk eqv h0 out [] (start_call p)"
    by (auto simp: loop_inv_def start_call_def)
  from loop_inv_loop[OF this, of data]
  have step: "step_ok hk eqv h0 out data (parse_loop hk 0 data (start_call p))" by simp
  show ?thesis
  proof (cases "parse_loop hk 0 data (start_call p)")
    case (Return q)
    with step res st show ?thesis
      by (auto simp: Parse_def finish_call_def step_ok_def corrupted_def)
  next
    case (Continue k)
    with step have inv: "loop_inv hk eqv h0 out data k" by (simp add: step_ok_def corrupted_def)
    from Continue res st have nd: "\<not> denying k" and p': "p' = obj k"
      and st': "st = (if denied_ranges p' = [] then pstate p' else DENIED_DATA)"
      by (auto simp: Parse_def finish_call_def split: if_splits)
    from inv nd obtain cur' pt' where "open_inv hk eqv h0 out data k cur' pt'"
      by (auto simp: loop_inv_def)
    then have "at_pos p' cur' pt' \<and> ranges_ok 0 (denied_ranges p') (length data) \<and>
        clean hk eqv h0 (out @ cut_ranges (denied_ranges p') 0 data) cur' pt' (sub p')"
      unfolding p' by (simp add: open_inv_def)
    with st' show ?thesis by blast
  qed
qed

end

end
