(* ===== verification/Instr_Filter.thy ===== *)
theory Instr_Filter imports Deny_Filter begin

text \<open>
  The framer on whole instructions. A datagram that holds well-formed instructions is never
  corrupted, and what \<open>Parse\<close> and \<open>Excise\<close> keep of it is exactly the abstract filter
  \<open>spec_filter\<close>: the instructions the policy accepts, spelled as they came.
\<close>

section \<open>One element\<close>

lemma run_digits:
  assumes "at_pos (obj k) cur (PLen [])" and "list_all is_digit ds" and "digits_val ds \<le> limit hk"
  shows "\<exists>k'. parse_loop hk i ds k = Continue k' \<and> at_pos (obj k') cur (PLen ds) \<and> frame_same k k' \<and>
           (if cur = [] \<and> ds \<noteq> [] then starts_at i k' else start_same k k')"
  using assms(2,3)
proof (induction ds rule: rev_induct)
  case Nil
  then show ?case using assms(1) by (simp add: frame_same_def start_same_def)
next
  case (snoc c ds)
  from snoc.prems have dg: "list_all is_digit ds" "is_digit c" by auto
  with snoc.prems digits_val_nonneg[OF dg(1)] digit_val_range[OF dg(2)]
  have le: "digits_val ds \<le> limit hk" by simp
  from snoc.IH[OF dg(1) le] obtain k1 where
    k1: "parse_loop hk i ds k = Continue k1" "at_pos (obj k1) cur (PLen ds)" "frame_same k k1"
      "if cur = [] \<and> ds \<noteq> [] then starts_at i k1 else start_same k k1" by blast
  from step_digit[OF k1(2) dg snoc.prems(2), of "i + length ds"] obtain k2 where
    k2: "parse_byte hk (i + length ds) c k1 = Continue k2" "at_pos (obj k2) cur (PLen (ds @ [c]))"
      "frame_same k1 k2"
      "if cur = [] \<and> ds = [] then starts_at (i + length ds) k2 else start_same k1 k2" by blast
  have "parse_loop hk i (ds @ [c]) k = Continue k2" using k1(1) k2(1) by (simp add: parse_loop_append)
  moreover have "frame_same k k2" using k1(3) k2(3) by (simp add: frame_same_def)
  moreover have "if cur = [] \<and> ds @ [c] \<noteq> [] then starts_at i k2 else start_same k k2"
    using k1(4) k2(4) by (auto simp: starts_at_def start_same_def split: if_splits)
  ultimately show ?case using k2(2) by blast
qed

lemma run_value:
  assumes "at_pos (obj k) cur (PVal ds [])" and "int (length bs) \<le> digits_val ds"
    and "list_all is_ascii (clamp bs)"
  shows "\<exists>k'. parse_loop hk i bs k = Continue k' \<and> at_pos (obj k') cur (PVal ds bs) \<and>
           frame_same k k' \<and> start_same k k'"
  using assms(2,3)
proof (induction bs rule: rev_induct)
  case Nil
  then show ?case using assms(1) by (simp add: frame_same_def start_same_def)
next
  case (snoc c bs)
  from snoc.prems have len: "int (length bs) \<le> digits_val ds" "int (length bs) \<noteq> digits_val ds"
    and asc: "list_all is_ascii (clamp bs)" "length bs < MAX_ELEMENT_SIZE \<longrightarrow> is_ascii c"
    by (auto simp: take_Cons')
  from snoc.IH[OF len(1) asc(1)] obtain k1 where
    k1: "parse_loop hk i bs k = Continue k1" "at_pos (obj k1) cur (PVal ds bs)" "frame_same k k1"
      "start_same k k1" by blast
  from step_value[OF k1(2) len(2) asc(2), of hk "i + length bs"] obtain k2 where
    k2: "parse_byte hk (i + length bs) c k1 = Continue k2" "at_pos (obj k2) cur (PVal ds (bs @ [c]))"
      "frame_same k1 k2" "start_same k1 k2" by blast
  from k1 k2 show ?case by (auto simp: parse_loop_append frame_same_def start_same_def)
qed

lemma run_elem:
  assumes "at_pos (obj k) cur (PLen [])" and ok: "elem_ok hk (ds, bs)"
  shows "\<exists>k'. parse_loop hk i (wire_elem (ds, bs)) k = Continue k' \<and>
           at_pos (obj k') cur (PVal ds bs) \<and> frame_same k k' \<and>
           (if cur = [] then starts_at i k' else start_same k k')"
proof -
  from ok have ds: "ds \<noteq> []" "list_all is_digit ds" "digits_val ds = int (length bs)"
    "digits_val ds \<le> limit hk" and bs: "list_all is_ascii (clamp bs)"
    by (auto simp: elem_ok_def)
  from run_digits[OF assms(1) ds(2,4), of i] ds(1) obtain k1 where
    k1: "parse_loop hk i ds k = Continue k1" "at_pos (obj k1) cur (PLen ds)" "frame_same k k1"
      "if cur = [] then starts_at i k1 else start_same k k1" by auto
  from step_dot[OF k1(2) ds(2,1), of hk "i + length ds"] obtain k2 where
    k2: "parse_byte hk (i + length ds) (CHR ''.'') k1 = Continue k2" "at_pos (obj k2) cur (PVal ds [])"
      "frame_same k1 k2" "start_same k1 k2" by blast
  from run_value[OF k2(2) _ bs, of hk "Suc (i + length ds)"] ds(3) obtain k3 where
    k3: "parse_loop hk (Suc (i + length ds)) bs k2 = Continue k3" "at_pos (obj k3) cur (PVal ds bs)"
      "frame_same k2 k3" "start_same k2 k3" by auto
  from k1 k2 k3 show ?thesis
    by (auto simp: wire_elem_def parse_loop_append frame_same_def start_same_def starts_at_def
        split: if_splits)
qed

section \<open>One instruction\<close>

text \<open>Inside an instruction: accepted so far with the policy's state, or being denied.\<close>

definition run_status ::
  "'h hooks \<Rightarrow> ('h \<Rightarrow> 'h \<Rightarrow> bool) \<Rightarrow> 'h \<Rightarrow> element list \<Rightarrow> 'h call \<Rightarrow> bool" where
  "run_status hk eqv h cur k \<longleftrightarrow>
     (case exec_instr hk h (elems cur) of
        Some h1 \<Rightarrow> \<not> denying k \<and> (if cur = [] then eqv h (sub (obj k)) else sub (obj k) = h1)
      | None \<Rightarrow> denying k \<and> eqv h (sub (obj k)))"

lemma exec_Nil_Some: "exec_instr hk h (elems cur) = None \<Longrightarrow> cur \<noteq> []"
  by auto

context deny_filter
begin

lemma deny_exec:
  assumes "if cur = [] then eqv h h1 else exec_instr hk h (elems cur) = Some h1"
    and "on_element hk cur bs h1 = (False, h2)"
  shows "exec_instr hk h (elems (cur @ [(ds, bs)])) = None"
proof (cases "cur = []")
  case True
  with assms have "on_element hk cur bs h = (False, h2)"
    using begin_eqv[of h h1 "clamp bs"] by (simp add: on_element_def)
  then show ?thesis using exec_instr_snoc[of hk h cur bs] by (simp add: True elems_def)
next
  case False
  with assms show ?thesis using exec_instr_snoc[of hk h cur bs] by simp
qed

lemma delim_status:
  assumes pos: "at_pos (obj k) cur (PVal ds bs)" and ok: "elem_ok hk (ds, bs)" and c: "is_delim c"
    and st: "run_status hk eqv h cur k" and sa: "starts_at i k"
  shows "\<exists>k'. parse_byte hk j c k = Continue k' \<and>
           at_pos (obj k') (after_delim c cur (ds, bs)) (PLen []) \<and> starts_at i k' \<and>
           (if c = CHR '';'' then
              \<not> denying k' \<and>
              (case exec_instr hk h (elems (cur @ [(ds, bs)])) of
                 Some h1 \<Rightarrow> sub (obj k') = h1 \<and> denied_ranges (obj k') = denied_ranges (obj k)
               | None \<Rightarrow> eqv h (sub (obj k')) \<and>
                         denied_ranges (obj k') = denied_ranges (obj k) @ [(i, j - i + 1)])
            else run_status hk eqv h (cur @ [(ds, bs)]) k' \<and>
                 denied_ranges (obj k') = denied_ranges (obj k))"
proof -
  from ok have cmp: "complete (PVal ds bs)" and lim: "int (length bs) \<le> limit hk"
    by (auto simp: elem_ok_def)
  have ex: "exec_instr hk h (elems (cur @ [(ds, bs)])) =
      (case exec_instr hk h (elems cur) of None \<Rightarrow> None
       | Some h' \<Rightarrow> (case on_element hk cur bs h' of (ok, h'') \<Rightarrow> if ok then Some h'' else None))"
    using exec_instr_snoc[of hk h cur bs] by simp
  show ?thesis
  proof (cases "exec_instr hk h (elems cur)")
    case None
    with st have dk: "denying k" and ev: "eqv h (sub (obj k))" by (simp_all add: run_status_def)
    from step_delim_denying[OF pos cmp c dk exec_Nil_Some[OF None], of hk j] None ev sa show ?thesis
      by (fastforce simp: ex run_status_def starts_at_def start_same_def simp del: elems_simps)
  next
    case (Some h1)
    with st have nd: "\<not> denying k" by (simp add: run_status_def)
    from Some st have h: "if cur = [] then eqv h (sub (obj k))
        else exec_instr hk h (elems cur) = Some (sub (obj k))"
      by (auto simp: run_status_def)
    obtain b h2 where el: "on_element hk cur bs (sub (obj k)) = (b, h2)" by fastforce
    show ?thesis
    proof (cases b)
      case True
      with el have el': "on_element hk cur bs (sub (obj k)) = (True, h2)" by simp
      have "exec_instr hk h (elems (cur @ [(ds, bs)])) = Some h2"
        using allow_element[OF h el'] by simp
      with step_delim_allowed[OF pos cmp c lim nd el', of j] sa show ?thesis
        by (fastforce simp: run_status_def starts_at_def start_same_def end_id simp del: elems_simps)
    next
      case False
      with el have el': "on_element hk cur bs (sub (obj k)) = (False, h2)" by simp
      have none: "exec_instr hk h (elems (cur @ [(ds, bs)])) = None" using deny_exec[OF h el', of ds] .
      from sa have "opcode_in_this_call k" by (simp add: starts_at_def)
      from step_delim_denied[OF pos cmp c lim nd el' this, of j] none deny_element[OF h el'] sa
      show ?thesis
        by (fastforce simp: run_status_def starts_at_def start_same_def simp del: elems_simps)
    qed
  qed
qed

lemma run_open:
  assumes pos: "at_pos (obj k) [] (PLen [])" and nd: "\<not> denying k" and ev: "eqv h (sub (obj k))"
    and ok: "list_all (elem_ok hk) es"
  shows "\<exists>k'. parse_loop hk i (wire_open es) k = Continue k' \<and> at_pos (obj k') es (PLen []) \<and>
           run_status hk eqv h es k' \<and> denied_ranges (obj k') = denied_ranges (obj k) \<and>
           (es \<noteq> [] \<longrightarrow> starts_at i k')"
  using ok
proof (induction es rule: rev_induct)
  case Nil
  with pos nd ev show ?case by (simp add: run_status_def)
next
  case (snoc e es)
  obtain ds bs where e: "e = (ds, bs)" by (cases e)
  from snoc.prems e have ok: "list_all (elem_ok hk) es" "elem_ok hk (ds, bs)" by auto
  from snoc.IH[OF ok(1)] obtain k1 where
    k1: "parse_loop hk i (wire_open es) k = Continue k1" "at_pos (obj k1) es (PLen [])"
      "run_status hk eqv h es k1" "denied_ranges (obj k1) = denied_ranges (obj k)"
      "es \<noteq> [] \<longrightarrow> starts_at i k1" by blast
  let ?j = "i + length (wire_open es)"
  from run_elem[OF k1(2) ok(2), of ?j] obtain k2 where
    k2: "parse_loop hk ?j (wire_elem (ds, bs)) k1 = Continue k2" "at_pos (obj k2) es (PVal ds bs)"
      "frame_same k1 k2" "if es = [] then starts_at ?j k2 else start_same k1 k2" by blast
  from k2(4) k1(5) have sa: "starts_at i k2"
    by (auto simp: starts_at_def start_same_def split: if_splits)
  from k1(3) k2(3) have st: "run_status hk eqv h es k2"
    by (simp add: run_status_def frame_same_def split: option.splits)
  from delim_status[OF k2(2) ok(2) _ st sa, of "CHR '',''" "?j + length (wire_elem (ds, bs))"]
  obtain k3 where
    k3: "parse_byte hk (?j + length (wire_elem (ds, bs))) (CHR '','') k2 = Continue k3"
      "at_pos (obj k3) (es @ [(ds, bs)]) (PLen [])" "starts_at i k3"
      "run_status hk eqv h (es @ [(ds, bs)]) k3" "denied_ranges (obj k3) = denied_ranges (obj k2)"
    by (auto simp: is_delim_def after_delim_def)
  have "parse_loop hk i (wire_open (es @ [e])) k = Continue k3"
    using k1(1) k2(1) k3(1) by (simp add: e parse_loop_append add.assoc)
  with k3 k1(4) k2(3) show ?case by (auto simp: e frame_same_def)
qed

lemma run_instr:
  assumes pos: "at_pos (obj k) [] (PLen [])" and nd: "\<not> denying k" and ev: "eqv h (sub (obj k))"
    and ok: "instr_ok hk es"
  shows "\<exists>k'. parse_loop hk i (wire_instr es) k = Continue k' \<and> at_pos (obj k') [] (PLen []) \<and>
           \<not> denying k' \<and>
           (case exec_instr hk h (elems es) of
              Some h1 \<Rightarrow> sub (obj k') = h1 \<and> denied_ranges (obj k') = denied_ranges (obj k)
            | None \<Rightarrow> eqv h (sub (obj k')) \<and>
                      denied_ranges (obj k') = denied_ranges (obj k) @ [(i, length (wire_instr es))])"
proof -
  from ok have "es \<noteq> []" by (simp add: instr_ok_def)
  then obtain cur ds bs where es: "es = cur @ [(ds, bs)]" by (metis prod.exhaust rev_exhaust)
  with ok have oks: "list_all (elem_ok hk) cur" "elem_ok hk (ds, bs)" by (auto simp: instr_ok_def)
  from run_open[OF pos nd ev oks(1), of i] obtain k1 where
    k1: "parse_loop hk i (wire_open cur) k = Continue k1" "at_pos (obj k1) cur (PLen [])"
      "run_status hk eqv h cur k1" "denied_ranges (obj k1) = denied_ranges (obj k)"
      "cur \<noteq> [] \<longrightarrow> starts_at i k1" by blast
  let ?j = "i + length (wire_open cur)"
  from run_elem[OF k1(2) oks(2), of ?j] obtain k2 where
    k2: "parse_loop hk ?j (wire_elem (ds, bs)) k1 = Continue k2" "at_pos (obj k2) cur (PVal ds bs)"
      "frame_same k1 k2" "if cur = [] then starts_at ?j k2 else start_same k1 k2" by blast
  from k2(4) k1(5) have sa: "starts_at i k2"
    by (auto simp: starts_at_def start_same_def split: if_splits)
  from k1(3) k2(3) have st: "run_status hk eqv h cur k2"
    by (simp add: run_status_def frame_same_def split: option.splits)
  let ?e = "?j + length (wire_elem (ds, bs))"
  have len: "?e - i + 1 = length (wire_instr es)" by (simp add: es)
  from delim_status[OF k2(2) oks(2) _ st sa, of "CHR '';''" ?e] obtain k3 where
    k3: "parse_byte hk ?e (CHR '';'') k2 = Continue k3" "at_pos (obj k3) [] (PLen [])" "\<not> denying k3"
      "case exec_instr hk h (elems es) of
         Some h1 \<Rightarrow> sub (obj k3) = h1 \<and> denied_ranges (obj k3) = denied_ranges (obj k2)
       | None \<Rightarrow> eqv h (sub (obj k3)) \<and>
                 denied_ranges (obj k3) = denied_ranges (obj k2) @ [(i, length (wire_instr es))]"
    unfolding len es[symmetric] by (auto simp: is_delim_def after_delim_def)
  have "parse_loop hk i (wire_instr es) k = Continue k3"
    using k1(1) k2(1) k3(1) by (simp add: es parse_loop_append add.assoc)
  moreover have "denied_ranges (obj k2) = denied_ranges (obj k)"
    using k1(4) k2(3) by (simp add: frame_same_def)
  ultimately show ?thesis using k3 by metis
qed

end

section \<open>Many instructions\<close>

lemma spec_filter_length: "length (spec_filter hk h is) \<le> length is"
  by (induction "is" arbitrary: h) (auto split: option.splits intro: le_SucI)

lemma cut_skip:
  assumes "ranges_ok (i + length w) rs n"
  shows "cut_ranges rs i (w @ xs) = w @ cut_ranges rs (i + length w) xs"
proof (cases rs)
  case (Cons r rs')
  obtain s m where r: "r = (s, m)" by (cases r)
  with Cons assms have "i + length w \<le> s" by simp
  then obtain d where "s = i + length w + d" using le_iff_add by blast
  with Cons r show ?thesis by simp
qed simp

context deny_filter
begin

text \<open>What reading whole instructions leaves behind: the position, and the ranges cut out.\<close>

definition ran_through ::
  "'h \<Rightarrow> nat \<Rightarrow> instr list \<Rightarrow> 'h call \<Rightarrow> 'h call \<Rightarrow> (nat \<times> nat) list \<Rightarrow> bool" where
  "ran_through h i is k k' rs \<longleftrightarrow>
     parse_loop hk i (wire is) k = Continue k' \<and> at_pos (obj k') [] (PLen []) \<and>
     \<not> denying k' \<and> denied_ranges (obj k') = denied_ranges (obj k) @ rs \<and>
     ranges_ok i rs (i + length (wire is)) \<and>
     cut_ranges rs i (wire is) = wire (spec_filter hk h is) \<and>
     (rs = [] \<longleftrightarrow> spec_filter hk h is = is) \<and> eqv (spec_state hk h is) (sub (obj k'))"

lemma ran_denied:
  assumes loop: "parse_loop hk i (wire (x # xs)) k = parse_loop hk (i + length (wire_instr x)) (wire xs) k1"
    and r: "ran_through h (i + length (wire_instr x)) xs k1 k' rs" and none: "exec_instr hk h (elems x) = None"
    and dr: "denied_ranges (obj k1) = denied_ranges (obj k) @ [(i, length (wire_instr x))]"
  shows "ran_through h i (x # xs) k k' ((i, length (wire_instr x)) # rs)"
proof -
  have "spec_filter hk h xs \<noteq> x # xs"
    using spec_filter_length[of hk h xs] by (metis length_Cons not_less_eq_eq order_refl)
  with r dr none loop show ?thesis by (simp add: ran_through_def add.assoc)
qed

lemma ran_allowed:
  assumes loop: "parse_loop hk i (wire (x # xs)) k = parse_loop hk (i + length (wire_instr x)) (wire xs) k1"
    and r: "ran_through h1 (i + length (wire_instr x)) xs k1 k' rs" and some: "exec_instr hk h (elems x) = Some h1"
    and dr: "denied_ranges (obj k1) = denied_ranges (obj k)"
  shows "ran_through h i (x # xs) k k' rs"
proof -
  from r have ro: "ranges_ok (i + length (wire_instr x)) rs (i + length (wire_instr x) + length (wire xs))"
    by (simp add: ran_through_def)
  then have "ranges_ok i rs (i + length (wire (x # xs)))" by (cases rs) (auto simp: add.assoc)
  moreover have "cut_ranges rs i (wire (x # xs)) = wire (spec_filter hk h (x # xs))"
    using cut_skip[OF ro] r some by (simp add: ran_through_def)
  ultimately show ?thesis using r dr some loop by (auto simp: ran_through_def)
qed

lemma run_through:
  assumes "at_pos (obj k) [] (PLen [])" and "\<not> denying k" and "eqv h (sub (obj k))"
    and "list_all (instr_ok hk) is"
  shows "\<exists>k' rs. ran_through h i is k k' rs"
  using assms
proof (induction "is" arbitrary: h i k)
  case Nil
  then show ?case by (auto simp: ran_through_def)
next
  case (Cons x xs)
  let ?w = "wire_instr x"
  from Cons.prems have ok: "instr_ok hk x" "list_all (instr_ok hk) xs" by simp_all
  from run_instr[OF Cons.prems(1-3) ok(1), of i] obtain k1 where
    k1: "parse_loop hk i ?w k = Continue k1" "at_pos (obj k1) [] (PLen [])" "\<not> denying k1"
      "case exec_instr hk h (elems x) of
         Some h1 \<Rightarrow> sub (obj k1) = h1 \<and> denied_ranges (obj k1) = denied_ranges (obj k)
       | None \<Rightarrow> eqv h (sub (obj k1)) \<and>
                 denied_ranges (obj k1) = denied_ranges (obj k) @ [(i, length ?w)]" by blast
  have loop: "parse_loop hk i (wire (x # xs)) k = parse_loop hk (i + length ?w) (wire xs) k1"
    by (simp add: parse_loop_append k1(1))
  show ?case
  proof (cases "exec_instr hk h (elems x)")
    case None
    with k1(4) Cons.IH[OF k1(2,3) _ ok(2)] ran_denied[OF loop _ None] show ?thesis by fastforce
  next
    case (Some h1)
    with k1(4) have "sub (obj k1) = h1" "denied_ranges (obj k1) = denied_ranges (obj k)" by simp_all
    with Cons.IH[OF k1(2,3) _ ok(2), of h1] ran_allowed[OF loop _ Some] eqv_refl show ?thesis by blast
  qed
qed

lemma run_instrs:
  assumes "at_pos (obj k) [] (PLen [])" and "\<not> denying k" and "eqv h (sub (obj k))"
    and "list_all (instr_ok hk) is"
  shows "\<exists>k' rs. parse_loop hk i (wire is) k = Continue k' \<and> at_pos (obj k') [] (PLen []) \<and>
           \<not> denying k' \<and> denied_ranges (obj k') = denied_ranges (obj k) @ rs \<and>
           ranges_ok i rs (i + length (wire is)) \<and>
           cut_ranges rs i (wire is) = wire (spec_filter hk h is) \<and>
           (rs = [] \<longleftrightarrow> spec_filter hk h is = is) \<and> eqv (spec_state hk h is) (sub (obj k'))"
  using run_through[OF assms] by (simp only: ran_through_def)

lemma Parse_instrs:
  assumes pos: "at_pos p [] (PLen [])" and ev: "eqv h (sub p)" and ok: "list_all (instr_ok hk) is"
    and res: "Parse hk p (wire is) = (st, p')"
  shows "at_pos p' [] (PLen []) \<and> ranges_ok 0 (denied_ranges p') (length (wire is)) \<and>
         cut_ranges (denied_ranges p') 0 (wire is) = wire (spec_filter hk h is) \<and>
         st = (if denied_ranges p' = [] then READING_LENGTH else DENIED_DATA) \<and>
         (denied_ranges p' = [] \<longleftrightarrow> spec_filter hk h is = is) \<and> eqv (spec_state hk h is) (sub p')"
proof -
  have "at_pos (obj (start_call p)) [] (PLen [])" "\<not> denying (start_call p)"
    "eqv h (sub (obj (start_call p)))"
    using pos ev by (simp_all add: start_call_def)
  from run_instrs[OF this ok, of 0] obtain k rs where
    k: "parse_loop hk 0 (wire is) (start_call p) = Continue k" "at_pos (obj k) [] (PLen [])"
      "\<not> denying k" "denied_ranges (obj k) = rs" "ranges_ok 0 rs (length (wire is))"
      "cut_ranges rs 0 (wire is) = wire (spec_filter hk h is)"
      "rs = [] \<longleftrightarrow> spec_filter hk h is = is" "eqv (spec_state hk h is) (sub (obj k))"
    by (auto simp: start_call_def)
  with res show ?thesis
    by (auto simp: Parse_def finish_call_def split: if_splits)
qed

end

end
