(* ===== verification/Guard_Parser.thy ===== *)
theory Guard_Parser imports Instr_Filter begin

text \<open>
  The guard's parser: \<open>gmguard/include/guard_opcode_parser.h\<close>,
  \<open>gmguard/src/guard_opcode_parser.cpp\<close> and the cap of \<open>shared/include/util/clipboard.h\<close>. The fields of
  the subclass are a record, its two overridden hooks are translated, and the framer's contract is
  interpreted on them. \<open>policy\<close> is the abstract specification: what one whole instruction does to the
  open clipboard stream, or that it is denied.
\<close>

section \<open>\<open>clipboard.h\<close>\<close>

text \<open>\<open>static_cast<uint32_t>(50 * 1.33f)\<close>: the product is 66.5, the cast truncates.\<close>

definition MAX_INPUT_BYTES :: nat where "MAX_INPUT_BYTES = 50"

definition MAX_CLIPBOARD_BYTES :: nat where
  "MAX_CLIPBOARD_BYTES = MAX_INPUT_BYTES * 133 div 100"

lemma MAX_CLIPBOARD_BYTES_66: "MAX_CLIPBOARD_BYTES = 66"
  by (simp add: MAX_CLIPBOARD_BYTES_def MAX_INPUT_BYTES_def)

section \<open>\<open>class GuardOpcodeParser\<close>\<close>

record guard_fields =
  current_opcode :: string
  clipboard_sidx :: int
  current_arg :: nat
  cap_next_arg :: bool

definition new_guard_fields :: guard_fields where
  "new_guard_fields = \<lparr>current_opcode = [], clipboard_sidx = -1, current_arg = 0, cap_next_arg = False\<rparr>"

definition parse_stream_index :: "string \<Rightarrow> int" where
  "parse_stream_index arg =
     (case from_chars_int arg of
        None \<Rightarrow> -1
      | Some (idx, unread) \<Rightarrow> if unread \<noteq> [] then -1 else idx)"

definition IsAllowedOpcode :: "string \<Rightarrow> bool" where
  "IsAllowedOpcode opcode =
     (if length opcode = 3 then opcode = ''key'' \<or> opcode = ''ack'' \<or> opcode = ''end''
      else if length opcode = 4 then
        opcode = ''blob'' \<or> opcode = ''size'' \<or> opcode = ''name'' \<or> opcode = ''argv''
      else if length opcode = 5 then
        opcode = ''audio'' \<or> opcode = ''video'' \<or> opcode = ''image'' \<or> opcode = ''mouse''
      else if length opcode = 6 then opcode = ''select''
      else if length opcode = 7 then opcode = ''connect''
      else if length opcode = 8 then opcode = ''timezone''
      else if length opcode = 9 then opcode = ''clipboard''
      else if length opcode = 10 then opcode = ''disconnect''
      else False)"

definition guard_OnInstructionBegin :: "string \<Rightarrow> guard_fields \<Rightarrow> bool \<times> guard_fields" where
  "guard_OnInstructionBegin instr h =
     (IsAllowedOpcode instr,
      h\<lparr>current_opcode := instr, current_arg := 0, cap_next_arg := False\<rparr>)"

definition guard_OnArgument :: "string \<Rightarrow> guard_fields \<Rightarrow> bool \<times> guard_fields" where
  "guard_OnArgument arg h0 =
     (let h = h0\<lparr>current_arg := current_arg h0 + 1\<rparr> in
      if cap_next_arg h then (length arg \<le> MAX_CLIPBOARD_BYTES, h\<lparr>cap_next_arg := False\<rparr>)
      else if current_arg h = 1 then
        let sidx = parse_stream_index arg in
        if current_opcode h = ''clipboard'' then (True, h\<lparr>clipboard_sidx := sidx\<rparr>)
        else if current_opcode h = ''blob'' then
          if sidx < 0 \<or> sidx \<noteq> clipboard_sidx h then (False, h)
          else (True, h\<lparr>cap_next_arg := True\<rparr>)
        else if current_opcode h = ''end'' \<and> sidx = clipboard_sidx h then
          (True, h\<lparr>clipboard_sidx := -1\<rparr>)
        else (True, h)
      else (True, h))"

definition guard_hooks :: "guard_fields hooks" where
  "guard_hooks =
     base_hooks\<lparr>OnInstructionBegin := guard_OnInstructionBegin, OnArgument := guard_OnArgument\<rparr>"

lemma guard_hooks_sel [simp]:
  "OnInstructionBegin guard_hooks = guard_OnInstructionBegin"
  "OnArgument guard_hooks = guard_OnArgument"
  "OnInstructionEnd guard_hooks = (\<lambda>_ h. h)"
  "Tolerates guard_hooks = False"
  by (simp_all add: guard_hooks_def base_hooks_def)

section \<open>The policy\<close>

definition allowlist :: "string set" where
  "allowlist =
     {''key'', ''ack'', ''end'', ''blob'', ''size'', ''name'', ''argv'', ''audio'', ''video'',
      ''image'', ''mouse'', ''select'', ''connect'', ''timezone'', ''clipboard'', ''disconnect''}"

lemma IsAllowedOpcode_iff: "IsAllowedOpcode opcode \<longleftrightarrow> opcode \<in> allowlist"
proof
  assume "IsAllowedOpcode opcode"
  then show "opcode \<in> allowlist"
    unfolding IsAllowedOpcode_def allowlist_def insert_iff by argo
next
  assume "opcode \<in> allowlist"
  then show "IsAllowedOpcode opcode"
    unfolding allowlist_def by (elim insertE emptyE; hypsubst; simp add: IsAllowedOpcode_def)
qed

text \<open>
  The open stream after an instruction: a \<open>blob\<close> must name the open, non-negative stream and its
  payload (the second argument) is capped; \<open>clipboard\<close> opens a stream, \<open>end\<close> on it closes it.
\<close>

fun policy :: "int \<Rightarrow> string list \<Rightarrow> int option" where
  "policy s [] = Some s"
| "policy s (opcode # args) =
     (if opcode \<notin> allowlist then None
      else case args of
        [] \<Rightarrow> Some s
      | a # rest \<Rightarrow>
          if opcode = ''clipboard'' then Some (parse_stream_index a)
          else if opcode = ''blob'' then
            (if 0 \<le> s \<and> parse_stream_index a = s \<and>
                (case rest of [] \<Rightarrow> True | payload # _ \<Rightarrow> length payload \<le> MAX_CLIPBOARD_BYTES)
             then Some s else None)
          else if opcode = ''end'' \<and> parse_stream_index a = s then Some (-1)
          else Some s)"

fun policies :: "int \<Rightarrow> string list list \<Rightarrow> int option" where
  "policies s [] = Some s"
| "policies s (i # is) = (case policy s i of None \<Rightarrow> None | Some s' \<Rightarrow> policies s' is)"

lemma later_args:
  "current_arg h \<noteq> 0 \<Longrightarrow> \<not> cap_next_arg h \<Longrightarrow>
   map_option clipboard_sidx (exec_args guard_hooks h as) = Some (clipboard_sidx h)"
proof (induction as arbitrary: h)
  case (Cons a as)
  then have "guard_OnArgument a h = (True, h\<lparr>current_arg := current_arg h + 1\<rparr>)"
    by (simp add: guard_OnArgument_def)
  with Cons.IH[of "h\<lparr>current_arg := current_arg h + 1\<rparr>"] Cons.prems show ?case by simp
qed simp

lemma payload_args:
  assumes "cap_next_arg h"
  shows "map_option clipboard_sidx (exec_args guard_hooks h (payload # as)) =
     (if length payload \<le> MAX_CLIPBOARD_BYTES then Some (clipboard_sidx h) else None)"
  using assms later_args[of "h\<lparr>current_arg := current_arg h + 1, cap_next_arg := False\<rparr>" as]
  by (simp add: guard_OnArgument_def Let_def)

lemma first_arg:
  assumes "current_arg h = 0" and "\<not> cap_next_arg h" and "current_opcode h \<in> allowlist"
  shows "map_option clipboard_sidx (exec_args guard_hooks h (a # as)) =
         policy (clipboard_sidx h) (current_opcode h # a # as)"
proof -
  let ?h = "h\<lparr>current_arg := 1\<rparr>"
  have "map_option clipboard_sidx (exec_args guard_hooks (?h\<lparr>clipboard_sidx := x\<rparr>) as) = Some x" for x
    using later_args[of "?h\<lparr>clipboard_sidx := x\<rparr>" as] assms(2) by simp
  moreover have "map_option clipboard_sidx (exec_args guard_hooks ?h as) = Some (clipboard_sidx h)"
    using later_args[of ?h as] assms(2) by simp
  moreover have "map_option clipboard_sidx (exec_args guard_hooks (?h\<lparr>cap_next_arg := True\<rparr>) as) =
      (case as of [] \<Rightarrow> Some (clipboard_sidx h)
       | payload # _ \<Rightarrow> if length payload \<le> MAX_CLIPBOARD_BYTES then Some (clipboard_sidx h) else None)"
    using payload_args[of "?h\<lparr>cap_next_arg := True\<rparr>"] by (cases as) auto
  ultimately show ?thesis
    using assms by (auto simp: guard_OnArgument_def Let_def split: list.splits)
qed

lemma exec_policy:
  "map_option clipboard_sidx (exec_instr guard_hooks h es) = policy (clipboard_sidx h) es"
proof (cases es)
  case (Cons opcode as)
  let ?h = "h\<lparr>current_opcode := opcode, current_arg := 0, cap_next_arg := False\<rparr>"
  show ?thesis
  proof (cases as)
    case Nil
    with Cons show ?thesis by (simp add: guard_OnInstructionBegin_def IsAllowedOpcode_iff)
  next
    case as: (Cons a rest)
    with Cons first_arg[of ?h a rest] show ?thesis
      by (simp add: guard_OnInstructionBegin_def IsAllowedOpcode_iff del: exec_args.simps policy.simps)
        (auto simp del: exec_args.simps)
  qed
qed simp

lemma exec_policies:
  "map_option clipboard_sidx (exec_instrs guard_hooks h is) =
   policies (clipboard_sidx h) (map elems is)"
proof (induction "is" arbitrary: h)
  case (Cons i "is")
  from exec_policy[of h "elems i"] Cons.IH show ?case
    by (auto split: option.splits)
qed simp

section \<open>The framer's contract holds for the guard\<close>

text \<open>Inside an accepted prefix, a \<open>blob\<close> leaves the stream alone, and only a \<open>blob\<close> sets the cap flag.\<close>

lemma guard_prefix:
  assumes "exec_instr guard_hooks h (opcode # as) = Some h1"
  shows "current_opcode h1 = opcode \<and> current_arg h1 = length as \<and>
         (cap_next_arg h1 \<longrightarrow> opcode = ''blob'') \<and>
         (opcode = ''blob'' \<longrightarrow> clipboard_sidx h1 = clipboard_sidx h)"
  using assms
proof (induction as arbitrary: h1 rule: rev_induct)
  case Nil
  then show ?case by (auto simp: guard_OnInstructionBegin_def split: if_splits)
next
  case (snoc a as)
  from snoc.prems obtain h2 where h2: "exec_instr guard_hooks h (opcode # as) = Some h2"
    and a: "guard_OnArgument a h2 = (True, h1)"
    by (auto simp: exec_args_snoc split: prod.splits option.splits if_splits)
  from snoc.IH[OF h2] a show ?case
    by (auto simp: guard_OnArgument_def Let_def split: if_splits)
qed

lemma guard_deny_arg:
  assumes "exec_instr guard_hooks h es = Some h1" and "es \<noteq> []"
    and "guard_OnArgument e h1 = (False, h')"
  shows "clipboard_sidx h = clipboard_sidx h'"
proof -
  from assms(2) obtain opcode as where "es = opcode # as" by (cases es) auto
  with guard_prefix[of h opcode as h1] assms show ?thesis
    by (auto simp: guard_OnArgument_def Let_def split: if_splits)
qed

definition same_stream :: "guard_fields \<Rightarrow> guard_fields \<Rightarrow> bool" where
  "same_stream h h' \<longleftrightarrow> clipboard_sidx h = clipboard_sidx h'"

interpretation guardf: strict_filter guard_hooks same_stream
proof unfold_locales
  show "same_stream h h' \<Longrightarrow> OnInstructionBegin guard_hooks e h = OnInstructionBegin guard_hooks e h'" for h h' e
    by (cases h; cases h') (simp add: same_stream_def guard_OnInstructionBegin_def)
  show "OnInstructionBegin guard_hooks e h = (False, h') \<Longrightarrow> same_stream h h'" for e h h'
    by (auto simp: same_stream_def guard_OnInstructionBegin_def)
  show "exec_instr guard_hooks h es = Some h1 \<Longrightarrow> es \<noteq> [] \<Longrightarrow>
        OnArgument guard_hooks e h1 = (False, h') \<Longrightarrow> same_stream h h'" for h es h1 e h'
    using guard_deny_arg by (simp add: same_stream_def)
qed (auto simp: same_stream_def)

end
