(* ===== verification/Bridge_Message.thy ===== *)
theory Bridge_Message imports Prelude begin

text \<open>
  The bridge's datagram format: \<open>shared/include/network/multiplexer.h\<close> and
  \<open>shared/src/network/multiplexer.cpp\<close>. A \<open>BridgeMessage\<close> is a record; \<open>Serialize\<close> and \<open>TryCast\<close>
  are translated branch for branch. The lemmas show that \<open>TryCast\<close> accepts exactly the serialised
  messages whose payload is within the limit, and recovers the message.
\<close>

unbundle bit_operations_syntax

section \<open>Data\<close>

datatype ChannelAction = NONE | CREATE_CHANNEL | SHUTDOWN_CHANNEL | APPROVAL

fun action_code :: "ChannelAction \<Rightarrow> 8 word" where
  "action_code NONE = 0"
| "action_code CREATE_CHANNEL = 64"
| "action_code SHUTDOWN_CHANNEL = 128"
| "action_code APPROVAL = 192"

record BridgeMessage =
  channel :: channel
  action :: ChannelAction
  payload :: string

abbreviation mk_msg :: "channel \<Rightarrow> ChannelAction \<Rightarrow> string \<Rightarrow> BridgeMessage" where
  "mk_msg ch a p \<equiv> \<lparr>channel = ch, action = a, payload = p\<rparr>"

definition APPROVAL_APPROVE :: char where "APPROVAL_APPROVE = CHR ''A''"
definition APPROVAL_DENY :: char where "APPROVAL_DENY = CHR ''D''"

definition HEADER_SIZE :: nat where "HEADER_SIZE = 3"
definition MAX_PAYLOAD_SIZE :: nat where "MAX_PAYLOAD_SIZE = 1200"
definition MAX_DATAGRAM_SIZE :: nat where "MAX_DATAGRAM_SIZE = HEADER_SIZE + MAX_PAYLOAD_SIZE"

definition ACTION_MASK :: "8 word" where "ACTION_MASK = 0xC0"
definition RESERVED_MASK :: "8 word" where "RESERVED_MASK = 0x3F"

lemmas size_defs = HEADER_SIZE_def MAX_PAYLOAD_SIZE_def MAX_DATAGRAM_SIZE_def

lemma verdict_chars_distinct [simp]: "APPROVAL_APPROVE \<noteq> APPROVAL_DENY" "APPROVAL_DENY \<noteq> APPROVAL_APPROVE"
  by (simp_all add: APPROVAL_APPROVE_def APPROVAL_DENY_def)

section \<open>Serialize\<close>

text \<open>A \<open>push_back(static_cast<char>(\<dots>))\<close> keeps the low byte.\<close>

definition char_of_word :: "'a::len word \<Rightarrow> char" where
  "char_of_word w = char_of (unat w)"

definition Serialize :: "BridgeMessage \<Rightarrow> string" where
  "Serialize m =
     [char_of_word (drop_bit 8 (channel m)),
      char_of_word (channel m AND 0xFF),
      char_of_word (action_code (action m))] @ payload m"

section \<open>TryCast\<close>

text \<open>
  The buffer is \<^const>\<open>None\<close> for \<open>nullptr\<close>, else its first \<open>len\<close> bytes. The out-parameter is the
  result: \<^const>\<open>None\<close> is the return value false, where the message is left as it was and no caller
  reads it.
\<close>

definition u8_of :: "char \<Rightarrow> 8 word" where
  "u8_of c = of_nat (byte_of c)"

definition action_of_flags :: "8 word \<Rightarrow> ChannelAction option" where
  "action_of_flags f =
     (let a = f AND ACTION_MASK in
      if a = action_code NONE then Some NONE
      else if a = action_code CREATE_CHANNEL then Some CREATE_CHANNEL
      else if a = action_code SHUTDOWN_CHANNEL then Some SHUTDOWN_CHANNEL
      else if a = action_code APPROVAL then Some APPROVAL
      else None)"

definition TryCast :: "string option \<Rightarrow> BridgeMessage option" where
  "TryCast buffer =
     (case buffer of
        None \<Rightarrow> None
      | Some b \<Rightarrow>
          if length b < HEADER_SIZE then None
          else
            let ch = push_bit 8 (ucast (u8_of (b ! 0))) OR ucast (u8_of (b ! 1));
                flags = u8_of (b ! 2)
            in if flags AND RESERVED_MASK \<noteq> 0 then None
               else
                 (case action_of_flags flags of
                    None \<Rightarrow> None
                  | Some a \<Rightarrow>
                      let payload_len = length b - HEADER_SIZE
                      in if payload_len > MAX_PAYLOAD_SIZE then None
                         else Some (mk_msg ch a (drop HEADER_SIZE b))))"

section \<open>Bytes and words\<close>

lemma byte_of_less [simp]: "byte_of c < 256"
  by simp

lemma unat_u8_of [simp]: "unat (u8_of c) = byte_of c"
  by (simp add: u8_of_def unat_of_nat)

lemma char_of_u8 [simp]: "char_of_word (u8_of c) = c"
  by (simp add: char_of_word_def)

lemma u8_of_char_of_word [simp]: "u8_of (char_of_word w) = ucast w"
proof -
  have "unat (u8_of (char_of_word w)) = unat (ucast w :: 8 word)"
    by (simp add: u8_of_def char_of_word_def unat_of_nat unsigned_ucast_eq take_bit_eq_mod)
  then show ?thesis by (rule unsigned_word_eqI)
qed

lemma low_byte_mask: "(0xFF :: 16 word) = mask 8"
  by (simp add: mask_eq_exp_minus_1)

lemma join_split_channel [simp]:
  "push_bit 8 (ucast (ucast (drop_bit 8 w) :: 8 word)) OR ucast (ucast (w AND 0xFF) :: 8 word)
   = (w :: 16 word)"
  unfolding low_byte_mask by (rule bit_word_eqI) (auto simp add: bit_simps)

lemma split_join_high [simp]:
  "char_of_word (drop_bit 8 (push_bit 8 (ucast (x :: 8 word)) OR (ucast (y :: 8 word) :: 16 word)))
   = char_of_word x"
proof -
  have "(ucast (drop_bit 8 (push_bit 8 (ucast x) OR (ucast y :: 16 word)) :: 16 word) :: 8 word) = x"
    by (rule bit_word_eqI) (auto simp add: bit_simps dest: bit_imp_le_length)
  then show ?thesis by (metis char_of_u8 u8_of_char_of_word)
qed

lemma split_join_low [simp]:
  "char_of_word ((push_bit 8 (ucast (x :: 8 word)) OR (ucast (y :: 8 word) :: 16 word)) AND 0xFF)
   = char_of_word y"
proof -
  have "(ucast ((push_bit 8 (ucast x) OR (ucast y :: 16 word)) AND mask 8 :: 16 word) :: 8 word) = y"
    by (rule bit_word_eqI) (auto simp add: bit_simps dest: bit_imp_le_length)
  then show ?thesis unfolding low_byte_mask by (metis char_of_u8 u8_of_char_of_word)
qed

section \<open>The flags byte\<close>

lemma action_code_inj: "action_code a = action_code b \<longleftrightarrow> a = b"
  by (cases a; cases b) simp_all

lemma action_of_flags_code [simp]: "action_of_flags (action_code a) = Some a"
  by (cases a) (simp_all add: action_of_flags_def ACTION_MASK_def)

lemma action_code_reserved [simp]: "action_code a AND RESERVED_MASK = 0"
  by (cases a) (simp_all add: RESERVED_MASK_def)

lemma masks_cover: "f AND ACTION_MASK OR f AND RESERVED_MASK = (f :: 8 word)"
proof -
  have "ACTION_MASK OR RESERVED_MASK = (-1 :: 8 word)"
    by (simp add: ACTION_MASK_def RESERVED_MASK_def)
  then show ?thesis by (metis bit.conj_disj_distrib bit.conj_one_right)
qed

lemma action_of_flags_sound:
  assumes "f AND RESERVED_MASK = 0" and "action_of_flags f = Some a"
  shows "action_code a = f"
proof -
  have "f AND ACTION_MASK = f"
    using masks_cover[of f] assms(1) by simp
  with assms(2) show ?thesis
    by (auto simp: action_of_flags_def Let_def split: if_splits)
qed

lemma ucast_action_code [simp]: "ucast (action_code a) = action_code a"
  by simp

section \<open>Serialised messages are read back\<close>

lemma length_Serialize [simp]: "length (Serialize m) = HEADER_SIZE + length (payload m)"
  by (simp add: Serialize_def size_defs)

lemma TryCast_None [simp]: "TryCast None = None"
  by (simp add: TryCast_def)

lemma TryCast_Serialize:
  "TryCast (Some (Serialize m)) = (if length (payload m) \<le> MAX_PAYLOAD_SIZE then Some m else None)"
  by (simp add: TryCast_def) (simp add: Serialize_def HEADER_SIZE_def Let_def)

lemma TryCast_SerializeI [simp]:
  "length (payload m) \<le> MAX_PAYLOAD_SIZE \<Longrightarrow> TryCast (Some (Serialize m)) = Some m"
  by (simp add: TryCast_Serialize)

lemma TryCast_SomeD:
  assumes "TryCast (Some b) = Some m"
  shows "Serialize m = b \<and> length (payload m) \<le> MAX_PAYLOAD_SIZE"
proof -
  from assms have len: "\<not> length b < HEADER_SIZE"
    by (auto simp: TryCast_def split: if_splits)
  then obtain x y z p where b: "b = x # y # z # p"
    by (auto simp: HEADER_SIZE_def not_less Suc_le_length_iff numeral_3_eq_3)
  from assms b obtain a where
      res: "u8_of z AND RESERVED_MASK = 0" and act: "action_of_flags (u8_of z) = Some a"
    and m: "m = mk_msg (push_bit 8 (ucast (u8_of x)) OR ucast (u8_of y)) a p"
    and p: "length p \<le> MAX_PAYLOAD_SIZE"
    by (auto simp: TryCast_def HEADER_SIZE_def Let_def split: if_splits option.splits)
  have "action_code a = u8_of z"
    using action_of_flags_sound[OF res act] .
  with m p b show ?thesis by (simp add: Serialize_def del: drop_bit_or)
qed

lemma TryCast_Some_iff:
  "TryCast (Some b) = Some m \<longleftrightarrow> b = Serialize m \<and> length (payload m) \<le> MAX_PAYLOAD_SIZE"
  using TryCast_SomeD TryCast_SerializeI by metis

section \<open>Properties\<close>

text \<open>
  C34: the bridge format is exact. A buffer is read as a message exactly when it is the serialisation of that
  message and the payload is within the limit: every message sent is read back, and every other buffer
  (short header, reserved bit set, payload too long) is refused.
\<close>

theorem TryCast_exact:
  "TryCast (Some b) = Some m \<longleftrightarrow> b = Serialize m \<and> length (payload m) \<le> MAX_PAYLOAD_SIZE"
  by (rule TryCast_Some_iff)

end
