(* ===== verification/Operator_Input.thy ===== *)
theory Operator_Input imports Prelude begin

text \<open>
  Text that reaches the processes from an operator: the approve/deny toggle of
  \<open>shared/include/util/control_channel.h\<close> and the port arguments of \<open>shared/include/util/netargs.h\<close>,
  with the C library's \<open>isspace\<close>, \<open>tolower\<close> (C locale) and \<open>strtol\<close> they use.
\<close>

section \<open>C library\<close>

definition isspace :: "char \<Rightarrow> bool" where
  "isspace c \<longleftrightarrow> byte_of c = 32 \<or> 9 \<le> byte_of c \<and> byte_of c \<le> 13"

definition tolower :: "char \<Rightarrow> char" where
  "tolower c = (if 65 \<le> byte_of c \<and> byte_of c \<le> 90 then char_of (byte_of c + 32) else c)"

text \<open>
  \<open>strtol(arg, &end, 10)\<close> on a NUL-terminated string: the value, clamped to the range of a 64-bit
  \<open>long\<close>, and what \<open>end\<close> points to. Without a digit \<open>end\<close> is \<open>arg\<close> itself.
\<close>

definition strtol :: "string \<Rightarrow> int \<times> string" where
  "strtol arg =
     (let s = dropWhile isspace arg;
          neg = (s \<noteq> [] \<and> hd s = CHR ''-'');
          body = (if s \<noteq> [] \<and> (hd s = CHR ''-'' \<or> hd s = CHR ''+'') then tl s else s);
          ds = takeWhile is_digit body;
          v = (if neg then - digits_val ds else digits_val ds)
      in if ds = [] then (0, arg)
         else (max (- (2 ^ 63)) (min (2 ^ 63 - 1) v), dropWhile is_digit body))"

section \<open>\<open>ControlChannel::ParseApprovalToggle\<close>\<close>

fun strip_and_lower :: "string \<Rightarrow> string \<Rightarrow> string" where
  "strip_and_lower s [] = s"
| "strip_and_lower s (c # raw) =
     strip_and_lower (if \<not> isspace c then s @ [tolower c] else s) raw"

definition ParseApprovalToggle :: "string \<Rightarrow> bool option" where
  "ParseApprovalToggle raw =
     (let s = strip_and_lower [] raw in
      if s = ''approve'' then Some True else if s = ''deny'' then Some False else None)"

lemma strip_and_lower_eq: "strip_and_lower s raw = s @ map tolower (filter (\<lambda>c. \<not> isspace c) raw)"
  by (induction s raw rule: strip_and_lower.induct) auto

section \<open>\<open>ParsePort\<close>\<close>

definition ParsePort :: "string \<Rightarrow> int option" where
  "ParsePort arg =
     (case strtol arg of (val, rest) \<Rightarrow>
        if rest = arg \<or> rest \<noteq> [] \<or> val < 1 \<or> val > 65535 then None else Some val)"

lemma digit_not_space: "is_digit c \<Longrightarrow> \<not> isspace c"
  by (auto simp: is_digit_def isspace_def)

lemma strtol_digits:
  assumes "list_all is_digit ds" and "ds \<noteq> []" and "digits_val ds < 2 ^ 63"
  shows "strtol ds = (digits_val ds, [])"
proof -
  have all: "takeWhile is_digit ds = ds" "dropWhile is_digit ds = []"
    using assms(1) by (auto simp: list_all_iff takeWhile_eq_all_conv dropWhile_eq_Nil_conv)
  from assms obtain c cs where ds: "ds = c # cs" and c: "is_digit c" by (cases ds) auto
  have "dropWhile isspace ds = ds" using ds digit_not_space[OF c] by simp
  moreover have "hd ds \<noteq> CHR ''-''" "hd ds \<noteq> CHR ''+''" using ds c by (auto simp: is_digit_def)
  ultimately show ?thesis
    using assms(2,3) digits_val_nonneg[OF assms(1)] all by (simp add: strtol_def Let_def del: takeWhile_eq_all_conv dropWhile_eq_Nil_conv)
qed

section \<open>Properties\<close>

lemma strtol_all:
  assumes "list_all isspace ws" and "sg = [] \<or> sg = ''+''" and "list_all is_digit ds" and "ds \<noteq> []"
  shows "strtol (ws @ sg @ ds) = (min (2 ^ 63 - 1) (digits_val ds), [])"
proof -
  from assms(3,4) obtain c cs where ds: "ds = c # cs" "is_digit c" by (cases ds) auto
  have all: "takeWhile is_digit ds = ds" "dropWhile is_digit ds = []"
    using assms(3) by (auto simp: list_all_iff takeWhile_eq_all_conv dropWhile_eq_Nil_conv)
  have "dropWhile isspace (sg @ ds) = sg @ ds"
    using assms(2) ds digit_not_space[OF ds(2)] by (auto simp: isspace_def)
  then have d: "dropWhile isspace (ws @ sg @ ds) = sg @ ds"
    using assms(1) by (induction ws) auto
  have "hd ds \<noteq> CHR ''-''" "hd ds \<noteq> CHR ''+''" using ds by (auto simp: is_digit_def)
  with assms(2,4) all digits_val_nonneg[OF assms(3)] show ?thesis
    by (auto simp: strtol_def d Let_def simp del: takeWhile_eq_all_conv dropWhile_eq_Nil_conv)
qed

lemma strtol_read:
  assumes "strtol arg = (v, [])" and "v > 0"
  obtains ws sg ds where "arg = ws @ sg @ ds" "list_all isspace ws" "sg = [] \<or> sg = ''+''" "ds \<noteq> []"
    "list_all is_digit ds" "v = min (2 ^ 63 - 1) (digits_val ds)"
proof -
  define s where "s = dropWhile isspace arg"
  define neg where "neg \<longleftrightarrow> s \<noteq> [] \<and> hd s = CHR ''-''"
  define body where "body = (if s \<noteq> [] \<and> (hd s = CHR ''-'' \<or> hd s = CHR ''+'') then tl s else s)"
  define ds where "ds = takeWhile is_digit body"
  have r: "(if ds = [] then (0, arg)
      else (max (- (2 ^ 63)) (min (2 ^ 63 - 1) (if neg then - digits_val ds else digits_val ds)),
            dropWhile is_digit body)) = (v, [])"
    using assms(1) unfolding strtol_def Let_def s_def neg_def body_def ds_def .
  from r assms(2) have ne: "ds \<noteq> []" by (auto split: if_splits)
  with r have v: "max (- (2 ^ 63)) (min (2 ^ 63 - 1) (if neg then - digits_val ds else digits_val ds)) = v"
    and rest: "dropWhile is_digit body = []" by auto
  have dg: "list_all is_digit ds" unfolding ds_def list_all_iff by (meson set_takeWhileD)
  from digits_val_nonneg[OF dg] v assms(2) have pos: "\<not> neg" "v = min (2 ^ 63 - 1) (digits_val ds)"
    by (auto split: if_splits)
  have body: "body = ds" using rest unfolding ds_def by (metis append_Nil2 takeWhile_dropWhile_id)
  have ws: "list_all isspace (takeWhile isspace arg)" unfolding list_all_iff by (meson set_takeWhileD)
  define sg where "sg = (if s \<noteq> [] \<and> hd s = CHR ''+'' then ''+'' else [])"
  have "s = sg @ ds" using body pos(1) by (cases s) (auto simp: body_def neg_def sg_def split: if_splits)
  then have "arg = takeWhile isspace arg @ sg @ ds" unfolding s_def by (metis takeWhile_dropWhile_id)
  with ws ne dg pos(2) that show ?thesis by (auto simp: sg_def)
qed

text \<open>
  A port argument is accepted exactly when it is white space, an optional plus sign and decimal digits
  up to its end, of a value between 1 and 65535, which is the result; everything else is refused, a number
  too large for \<open>long\<close> and an empty argument included.
\<close>

theorem ParsePort_exact:
  "ParsePort arg = Some v \<longleftrightarrow> 1 \<le> v \<and> v \<le> 65535 \<and>
     (\<exists>ws sg ds. arg = ws @ sg @ ds \<and> list_all isspace ws \<and> (sg = [] \<or> sg = ''+'') \<and> ds \<noteq> [] \<and>
        list_all is_digit ds \<and> digits_val ds = v)"
proof
  assume p: "ParsePort arg = Some v"
  then have st: "strtol arg = (v, [])" and v: "1 \<le> v" "v \<le> 65535"
    by (auto simp: ParsePort_def split: prod.splits if_splits)
  from st show "1 \<le> v \<and> v \<le> 65535 \<and> (\<exists>ws sg ds. arg = ws @ sg @ ds \<and> list_all isspace ws \<and>
      (sg = [] \<or> sg = ''+'') \<and> ds \<noteq> [] \<and> list_all is_digit ds \<and> digits_val ds = v)"
  proof (rule strtol_read)
    show "v > 0" using v by simp
    fix ws sg ds
    assume "arg = ws @ sg @ ds" "list_all isspace ws" "sg = [] \<or> sg = ''+''" "ds \<noteq> []" "list_all is_digit ds"
      "v = min (2 ^ 63 - 1) (digits_val ds)"
    moreover have "digits_val ds = v" using calculation(6) v by (auto simp: min_def split: if_splits)
    ultimately show ?thesis using v by blast
  qed
next
  assume a: "1 \<le> v \<and> v \<le> 65535 \<and> (\<exists>ws sg ds. arg = ws @ sg @ ds \<and> list_all isspace ws \<and>
    (sg = [] \<or> sg = ''+'') \<and> ds \<noteq> [] \<and> list_all is_digit ds \<and> digits_val ds = v)"
  then obtain ws sg ds where "arg = ws @ sg @ ds" "list_all isspace ws" "sg = [] \<or> sg = ''+''" "ds \<noteq> []"
    "list_all is_digit ds" "digits_val ds = v" by blast
  with strtol_all[of ws sg ds] a show "ParsePort arg = Some v" by (auto simp: ParsePort_def)
qed

end
