(* ===== verification/Udp.thy ===== *)
theory Udp imports Prelude begin

text \<open>
  \<open>shared/src/network/udpreceiver.cpp\<close> and \<open>udpsender.cpp\<close>. The socket calls are parameters: what
  \<open>recvfrom\<close> returned, and the list of results of the successive \<open>sendto\<close> calls.
\<close>

datatype errno = EAGAIN | EWOULDBLOCK | EINTR | OTHER_ERRNO

section \<open>\<open>UDPReceiver::Receive\<close>\<close>

text \<open>
  \<open>recvfrom\<close> gives an error or the next datagram, of which the kernel copies at most \<open>len - 1\<close> bytes
  and discards the rest. The result is the return value and the bytes now in the buffer.
\<close>

definition Receive :: "nat \<Rightarrow> errno + string \<Rightarrow> int \<times> string" where
  "Receive len r =
     (case r of
        Inl e \<Rightarrow> if e = EAGAIN \<or> e = EWOULDBLOCK \<or> e = EINTR then (0, []) else (-1, [])
      | Inr datagram \<Rightarrow> let got = take (len - 1) datagram in (int (length got), got))"

lemma Receive_length:
  assumes "Receive len r = (n, b)" and "n > 0"
  shows "n = int (length b) \<and> length b \<le> len - 1"
  using assms by (auto simp: Receive_def Let_def split: sum.splits if_splits)

section \<open>\<open>UDPSender::Send\<close>\<close>

text \<open>
  The loop, with the results of its \<open>sendto\<close> calls: bytes taken, or an error. The first component is
  the return value, \<^const>\<open>None\<close> while the loop still waits for a call; the second is the slices of
  the buffer handed to the calls that took bytes.
\<close>

fun send_loop :: "string \<Rightarrow> nat \<Rightarrow> (errno + nat) list \<Rightarrow> int option \<times> string list" where
  "send_loop buffer tot rs =
     (if \<not> tot < length buffer then (Some (int tot), [])
      else
        (case rs of
           [] \<Rightarrow> (None, [])
         | Inl e # rs' \<Rightarrow> if e = EINTR then send_loop buffer tot rs' else (Some (-1), [])
         | Inr sent # rs' \<Rightarrow>
             (case send_loop buffer (tot + sent) rs' of
                (rc, chunks) \<Rightarrow> (rc, take sent (drop tot buffer) # chunks))))"

declare send_loop.simps [simp del]

definition udp_Send :: "string \<Rightarrow> (errno + nat) list \<Rightarrow> int option \<times> string list" where
  "udp_Send buffer rs = send_loop buffer 0 rs"

text \<open>A kernel never takes more than it is offered.\<close>

fun takes_ok :: "nat \<Rightarrow> (errno + nat) list \<Rightarrow> bool" where
  "takes_ok left [] = True"
| "takes_ok left (Inl e # rs) = takes_ok left rs"
| "takes_ok left (Inr n # rs) = (n \<le> left \<and> takes_ok (left - n) rs)"

lemma send_loop_unfold [simp]:
  "\<not> tot < length buffer \<Longrightarrow> send_loop buffer tot rs = (Some (int tot), [])"
  "tot < length buffer \<Longrightarrow> send_loop buffer tot [] = (None, [])"
  "tot < length buffer \<Longrightarrow> send_loop buffer tot (Inl e # rs) =
     (if e = EINTR then send_loop buffer tot rs else (Some (-1), []))"
  "tot < length buffer \<Longrightarrow> send_loop buffer tot (Inr n # rs) =
     (case send_loop buffer (tot + n) rs of
        (rc, chunks) \<Rightarrow> (rc, take n (drop tot buffer) # chunks))"
  by (subst send_loop.simps, simp)+

lemma send_loop_chunks:
  assumes "takes_ok (length buffer - tot) rs" and "tot \<le> length buffer"
    and "send_loop buffer tot rs = (rc, chunks)"
  shows "\<exists>n. tot \<le> n \<and> n \<le> length buffer \<and> concat chunks = take (n - tot) (drop tot buffer) \<and>
           (rc = Some (int (length buffer)) \<and> n = length buffer \<or> rc = Some (-1) \<or> rc = None)"
  using assms
proof (induction rs arbitrary: tot rc chunks)
  case Nil
  then show ?case by (cases "tot < length buffer") auto
next
  case (Cons r rs)
  show ?case
  proof (cases "tot < length buffer")
    case False
    with Cons.prems show ?thesis by auto
  next
    case True
    show ?thesis
    proof (cases r)
      case (Inl e)
      with Cons.prems Cons.IH[of tot rc chunks] True show ?thesis
        by (cases "e = EINTR") auto
    next
      case (Inr sent)
      obtain rc' chunks' where rec: "send_loop buffer (tot + sent) rs = (rc', chunks')"
        by fastforce
      have eq: "rc' = rc" "chunks = take sent (drop tot buffer) # chunks'"
        using Cons.prems(3) True Inr rec by simp_all
      from Cons.prems(1) Inr have le: "sent \<le> length buffer - tot"
        and ok: "takes_ok (length buffer - (tot + sent)) rs" by auto
      from le True have "tot + sent \<le> length buffer" by simp
      from Cons.IH[OF ok this rec] obtain n where
        n: "tot + sent \<le> n" "n \<le> length buffer"
          "concat chunks' = take (n - (tot + sent)) (drop (tot + sent) buffer)"
          "rc' = Some (int (length buffer)) \<and> n = length buffer \<or> rc' = Some (-1) \<or> rc' = None" by blast
      have "take (n - tot) (drop tot buffer) =
          take sent (drop tot buffer) @ take (n - (tot + sent)) (drop (tot + sent) buffer)"
        using n(1) take_add[of sent "n - (tot + sent)" "drop tot buffer"] by (simp add: add.commute)
      with n eq show ?thesis by (intro exI[of _ n]) auto
    qed
  qed
qed

text \<open>What the kernel got is a prefix, whatever the calls returned.\<close>

lemma send_loop_prefix: "\<exists>n. concat (snd (send_loop buffer tot rs)) = take n (drop tot buffer)"
proof (induction buffer tot rs rule: send_loop.induct)
  case (1 buffer tot rs)
  show ?case
  proof (cases "tot < length buffer")
    case False
    then show ?thesis by (intro exI[of _ 0]) simp
  next
    case True
    show ?thesis
    proof (cases rs)
      case Nil
      with True show ?thesis by (intro exI[of _ 0]) (simp add: send_loop.simps)
    next
      case (Cons r rs')
      show ?thesis
      proof (cases r)
        case (Inl e)
        with True Cons "1.IH"(1)[of r rs' e] show ?thesis
          by (cases "e = EINTR") (auto simp: send_loop.simps[of buffer tot] intro: exI[of _ 0])
      next
        case (Inr k)
        obtain rc ch where l: "send_loop buffer (tot + k) rs' = (rc, ch)" by fastforce
        with True Cons Inr "1.IH"(2)[of r rs' k] obtain n where
          "concat ch = take n (drop (tot + k) buffer)" by auto
        then have "take k (drop tot buffer) @ concat ch = take (k + n) (drop tot buffer)"
          by (simp add: take_add add.commute)
        with True Cons Inr l show ?thesis by (intro exI[of _ "k + n"]) (simp add: send_loop.simps[of buffer tot])
      qed
    qed
  qed
qed

end
