(* ===== verification/Guard.thy ===== *)
theory Guard imports Guard_Parser Bridge_Message Operator_Input Udp begin

text \<open>
  The guard process: \<open>gmguard/src/main.cpp\<close> and \<open>gmguard/include/approver.h\<close>,
  \<open>gmguard/src/approver.cpp\<close>. The local variables of \<open>main\<close> are a record; every \<open>case\<close> of the receive
  loop's \<open>switch\<close>, the teardown on a global deny and the announcement on stop are definitions that
  return the new state and the datagrams handed to \<open>sender.Send\<close>. The order in which an
  \<open>unordered_set\<close> is traversed is unspecified: it is an argument.
\<close>

section \<open>The approver\<close>

record ApprovalResult =
  verdict_approved :: bool
  verdict_reason :: string

record Approver = approve_flag :: bool

definition new_Approver :: Approver where "new_Approver = \<lparr>approve_flag = True\<rparr>"

definition SetApprove :: "bool \<Rightarrow> Approver \<Rightarrow> Approver" where
  "SetApprove b a = a\<lparr>approve_flag := b\<rparr>"

definition HandleRequest :: "Approver \<Rightarrow> string \<Rightarrow> ApprovalResult" where
  "HandleRequest a request_id =
     (if \<not> approve_flag a
      then \<lparr>verdict_approved = False, verdict_reason = ''operator denied the request''\<rparr>
      else \<lparr>verdict_approved = True, verdict_reason = []\<rparr>)"

section \<open>Request ids\<close>

definition REQUEST_ID_LEN :: nat where "REQUEST_ID_LEN = 12"

definition is_hex :: "char \<Rightarrow> bool" where
  "is_hex c \<longleftrightarrow> (48 \<le> byte_of c \<and> byte_of c \<le> 57) \<or> (97 \<le> byte_of c \<and> byte_of c \<le> 102)"

definition is_valid_request_id :: "string \<Rightarrow> bool" where
  "is_valid_request_id rid = (if length rid \<noteq> REQUEST_ID_LEN then False else list_all is_hex rid)"

section \<open>The state of \<open>main\<close>\<close>

record guard =
  parsers :: "channel \<Rightarrow> guard_fields parser option"
  poisoned :: "channel set"
  approver :: Approver
  approved :: "channel set"
  deny_teardown :: bool

definition new_guard :: guard where
  "new_guard = \<lparr>parsers = Map.empty, poisoned = {}, approver = new_Approver, approved = {},
                deny_teardown = False\<rparr>"

definition shutdown_wire :: "channel \<Rightarrow> string" where
  "shutdown_wire ch = Serialize (mk_msg ch SHUTDOWN_CHANNEL [])"

section \<open>Acting on a global deny\<close>

fun teardown_loop ::
  "channel list \<Rightarrow> (channel \<Rightarrow> guard_fields parser option) \<Rightarrow>
   (channel \<Rightarrow> guard_fields parser option) \<times> string list" where
  "teardown_loop [] ps = (ps, [])"
| "teardown_loop (ch # chs) ps =
     (case teardown_loop chs (ps(ch := None)) of (ps', out) \<Rightarrow> (ps', shutdown_wire ch # out))"

text \<open>\<open>if (deny_teardown.exchange(false)) { for (ch : approved) \<dots>; approved.clear(); }\<close>\<close>

definition act_on_deny :: "channel list \<Rightarrow> guard \<Rightarrow> guard \<times> string list" where
  "act_on_deny order g =
     (if deny_teardown g then
        (case teardown_loop order (parsers g) of
           (ps, out) \<Rightarrow> (g\<lparr>deny_teardown := False, parsers := ps, approved := {}\<rparr>, out))
      else (g\<lparr>deny_teardown := False\<rparr>, []))"

section \<open>The cases of the switch\<close>

definition handle_create :: "string \<Rightarrow> BridgeMessage \<Rightarrow> guard \<Rightarrow> guard \<times> string list" where
  "handle_create buffer m g =
     (let ch = channel m; request_id = payload m in
      if \<not> is_valid_request_id request_id then (g, [])
      else
        let g1 = g\<lparr>parsers := (parsers g)(ch := Some (new_parser new_guard_fields)),
                   poisoned := poisoned g - {ch}, approved := approved g - {ch}\<rparr>;
            verdict = HandleRequest (approver g1) request_id;
            v = (if verdict_approved verdict then APPROVAL_APPROVE else APPROVAL_DENY);
            approval = Serialize (mk_msg ch APPROVAL (v # request_id))
        in if verdict_approved verdict
           then (g1\<lparr>approved := insert ch (approved g1)\<rparr>, [buffer, approval])
           else (g1\<lparr>parsers := (parsers g1)(ch := None)\<rparr>, [buffer, approval, shutdown_wire ch]))"

definition handle_shutdown :: "string \<Rightarrow> BridgeMessage \<Rightarrow> guard \<Rightarrow> guard \<times> string list" where
  "handle_shutdown buffer m g =
     (let ch = channel m in
      (g\<lparr>parsers := (parsers g)(ch := None), poisoned := poisoned g - {ch},
         approved := approved g - {ch}\<rparr>, [buffer]))"

text \<open>\<open>parsers[ch]\<close>: a missing parser is default-constructed.\<close>

definition parser_at ::
  "(channel \<Rightarrow> guard_fields parser option) \<Rightarrow> channel \<Rightarrow> guard_fields parser" where
  "parser_at ps ch = (case ps ch of Some p \<Rightarrow> p | None \<Rightarrow> new_parser new_guard_fields)"

definition handle_payload :: "string \<Rightarrow> BridgeMessage \<Rightarrow> guard \<Rightarrow> guard \<times> string list" where
  "handle_payload buffer m g =
     (let ch = channel m in
      if ch \<in> poisoned g then (g, [])
      else if ch \<notin> approved g then (g, [])
      else
        (case Parse guard_hooks (parser_at (parsers g) ch) (payload m) of
           (state, p) \<Rightarrow>
             if state = STREAM_CORRUPTED then
               (g\<lparr>parsers := (parsers g)(ch := None), approved := approved g - {ch},
                  poisoned := insert ch (poisoned g)\<rparr>, [shutdown_wire ch])
             else if state = DENIED_DATA then
               (case Excise p (payload m) (length (payload m)) of
                  (data, plen, p') \<Rightarrow>
                    let g' = g\<lparr>parsers := (parsers g)(ch := Some p')\<rparr>;
                        rest = take plen data
                    in if rest = [] then (g', [])
                       else (g', [Serialize (m\<lparr>payload := rest\<rparr>)]))
             else (g\<lparr>parsers := (parsers g)(ch := Some p)\<rparr>, [buffer])))"

text \<open>The \<open>switch\<close>: \<open>APPROVAL\<close> has no case of its own and takes the \<open>default\<close> with \<open>NONE\<close>.\<close>

definition handle_datagram :: "string \<Rightarrow> guard \<Rightarrow> guard \<times> string list" where
  "handle_datagram buffer g =
     (case TryCast (Some buffer) of
        None \<Rightarrow> (g, [])
      | Some m \<Rightarrow>
          (case action m of
             CREATE_CHANNEL \<Rightarrow> handle_create buffer m g
           | SHUTDOWN_CHANNEL \<Rightarrow> handle_shutdown buffer m g
           | NONE \<Rightarrow> handle_payload buffer m g
           | APPROVAL \<Rightarrow> handle_payload buffer m g))"

definition guard_receive :: "errno + string \<Rightarrow> guard \<Rightarrow> guard \<times> string list" where
  "guard_receive r g =
     (case Receive (MAX_DATAGRAM_SIZE + 1) r of
        (received, buffer) \<Rightarrow> if received \<le> 0 then (g, []) else handle_datagram buffer g)"

text \<open>After the loop: announce a teardown of what is still approved.\<close>

definition announce_stop :: "channel list \<Rightarrow> guard \<Rightarrow> guard \<times> string list" where
  "announce_stop order g = (g\<lparr>approved := {}\<rparr>, map shutdown_wire order)"

section \<open>Two threads\<close>

text \<open>
  The main loop alternates between the deny check and one receive; the control thread receives a
  toggle, stores the approver's switch, and for a deny then stores the flag. \<open>flag_pending\<close> is the
  moment between the two stores. Steps interleave in any order (each atomic access is one step).
\<close>

datatype main_pc = AtDenyCheck | AtReceive | Stopped

record gsys =
  gst :: guard
  mpc :: main_pc
  flag_pending :: bool

datatype event =
    Toggle "errno + string"
  | FlagDeny
  | DenyCheck "channel list"
  | Recv "errno + string"
  | Stop "channel list"

definition new_gsys :: gsys where
  "new_gsys = \<lparr>gst = new_guard, mpc = AtDenyCheck, flag_pending = False\<rparr>"

definition CONTROL_BUF :: nat where "CONTROL_BUF = 256"

definition control_receive :: "errno + string \<Rightarrow> gsys \<Rightarrow> gsys" where
  "control_receive r s =
     (case Receive CONTROL_BUF r of
        (n, raw) \<Rightarrow>
          if n \<le> 0 then s
          else (case ParseApprovalToggle raw of
                  None \<Rightarrow> s
                | Some mode \<Rightarrow>
                    s\<lparr>gst := (gst s)\<lparr>approver := SetApprove mode (approver (gst s))\<rparr>,
                      flag_pending := \<not> mode\<rparr>))"

definition traverses :: "channel list \<Rightarrow> channel set \<Rightarrow> bool" where
  "traverses order S \<longleftrightarrow> distinct order \<and> set order = S"

fun guard_step :: "event \<Rightarrow> gsys \<Rightarrow> (gsys \<times> string list) option" where
  "guard_step (Toggle r) s = (if flag_pending s then None else Some (control_receive r s, []))"
| "guard_step FlagDeny s =
     (if flag_pending s
      then Some (s\<lparr>gst := (gst s)\<lparr>deny_teardown := True\<rparr>, flag_pending := False\<rparr>, []) else None)"
| "guard_step (DenyCheck order) s =
     (if mpc s = AtDenyCheck \<and> traverses order (approved (gst s))
      then (case act_on_deny order (gst s) of (g, out) \<Rightarrow> Some (s\<lparr>gst := g, mpc := AtReceive\<rparr>, out))
      else None)"
| "guard_step (Recv r) s =
     (if mpc s = AtReceive
      then (case guard_receive r (gst s) of (g, out) \<Rightarrow> Some (s\<lparr>gst := g, mpc := AtDenyCheck\<rparr>, out))
      else None)"
| "guard_step (Stop order) s =
     (if mpc s = AtDenyCheck \<and> traverses order (approved (gst s))
      then (case announce_stop order (gst s) of (g, out) \<Rightarrow> Some (s\<lparr>gst := g, mpc := Stopped\<rparr>, out))
      else None)"

text \<open>The runs of the process: the trace of events with the datagrams each one sent.\<close>

inductive guard_run :: "(event \<times> string list) list \<Rightarrow> gsys \<Rightarrow> bool" where
  run_start: "guard_run [] new_gsys"
| run_step: "guard_run tr s \<Longrightarrow> guard_step e s = Some (s', out) \<Longrightarrow> guard_run (tr @ [(e, out)]) s'"

definition sent :: "(event \<times> string list) list \<Rightarrow> string list" where
  "sent tr = concat (map snd tr)"

lemma sent_simps [simp]: "sent [] = []" "sent (tr @ [(e, out)]) = sent tr @ out"
  by (simp_all add: sent_def)

text \<open>Executing a list of events.\<close>

fun exec_events :: "event list \<Rightarrow> gsys \<Rightarrow> (gsys \<times> (event \<times> string list) list) option" where
  "exec_events [] s = Some (s, [])"
| "exec_events (e # es) s =
     (case guard_step e s of
        None \<Rightarrow> None
      | Some (s', out) \<Rightarrow>
          (case exec_events es s' of None \<Rightarrow> None | Some (s'', tr) \<Rightarrow> Some (s'', (e, out) # tr)))"

lemma exec_events_extends:
  "guard_run tr0 s \<Longrightarrow> exec_events es s = Some (s', tr) \<Longrightarrow> guard_run (tr0 @ tr) s'"
proof (induction es arbitrary: s tr0 tr)
  case (Cons e es)
  from Cons.prems(2) obtain s1 out tr1 where
    st: "guard_step e s = Some (s1, out)" "exec_events es s1 = Some (s', tr1)" "tr = (e, out) # tr1"
    by (auto split: option.splits)
  from Cons.IH[OF run_step[OF Cons.prems(1) st(1)] st(2)] st(3) show ?case by simp
qed simp

lemma exec_events_run: "exec_events es new_gsys = Some (s, tr) \<Longrightarrow> guard_run tr s"
  using exec_events_extends[OF run_start] by fastforce

end
