(* ===== verification/Guard_Policy.thy ===== *)
theory Guard_Policy imports Guard begin

text \<open>
  What the guard promises about the datagrams it sends, over every run of its two threads. A \<open>view\<close> is
  what a channel looks like from the sent datagrams alone: the verdict, the Guacamole bytes since the
  last forwarded \<open>CREATE\<close>, whether it was shut down, and whether bytes were ever sent after a shutdown.
  One invariant per channel ties the view to the guard's state; every handler keeps it.
\<close>

section \<open>A channel seen downstream\<close>

record view =
  verdict :: "bool option"
  bytes :: string
  closed :: bool
  late :: bool

definition new_view :: view where
  "new_view = \<lparr>verdict = None, bytes = [], closed = False, late = False\<rparr>"

definition see :: "channel \<Rightarrow> view \<Rightarrow> string \<Rightarrow> view" where
  "see ch v d =
     (case TryCast (Some d) of
        None \<Rightarrow> v
      | Some m \<Rightarrow>
          if channel m \<noteq> ch then v
          else (case action m of
             CREATE_CHANNEL \<Rightarrow> new_view\<lparr>late := late v\<rparr>
           | SHUTDOWN_CHANNEL \<Rightarrow> v\<lparr>closed := True\<rparr>
           | APPROVAL \<Rightarrow> v\<lparr>verdict := Some (take 1 (payload m) = [APPROVAL_APPROVE])\<rparr>
           | NONE \<Rightarrow> v\<lparr>bytes := bytes v @ payload m,
                        late := late v \<or> closed v \<or> verdict v \<noteq> Some True\<rparr>))"

definition view_of :: "channel \<Rightarrow> string list \<Rightarrow> view" where
  "view_of ch ds = foldl (see ch) new_view ds"

lemma view_of_append: "view_of ch (ds @ es) = foldl (see ch) (view_of ch ds) es"
  by (simp add: view_of_def)

lemma see_Serialize:
  "length (payload m) \<le> MAX_PAYLOAD_SIZE \<Longrightarrow> see ch v (Serialize m) =
     (if channel m \<noteq> ch then v
      else (case action m of
         CREATE_CHANNEL \<Rightarrow> new_view\<lparr>late := late v\<rparr>
       | SHUTDOWN_CHANNEL \<Rightarrow> v\<lparr>closed := True\<rparr>
       | APPROVAL \<Rightarrow> v\<lparr>verdict := Some (take 1 (payload m) = [APPROVAL_APPROVE])\<rparr>
       | NONE \<Rightarrow> v\<lparr>bytes := bytes v @ payload m,
                    late := late v \<or> closed v \<or> verdict v \<noteq> Some True\<rparr>))"
  by (simp add: see_def)

lemma see_shutdown: "see ch v (shutdown_wire c) = (if c = ch then v\<lparr>closed := True\<rparr> else v)"
  by (simp add: shutdown_wire_def see_Serialize)

lemma see_shutdowns:
  "foldl (see ch) v (map shutdown_wire order) = (if ch \<in> set order then v\<lparr>closed := True\<rparr> else v)"
  by (induction order arbitrary: v) (auto simp: see_shutdown)

lemma teardown_loop_eq:
  "teardown_loop order ps =
     ((\<lambda>ch. if ch \<in> set order then None else ps ch), map shutdown_wire order)"
  by (induction order arbitrary: ps) auto

section \<open>The invariants\<close>

definition guard_inv :: "guard \<Rightarrow> bool" where
  "guard_inv g \<longleftrightarrow> dom (parsers g) = approved g \<and> approved g \<inter> poisoned g = {}"

definition session_ok :: "guard \<Rightarrow> channel \<Rightarrow> view \<Rightarrow> bool" where
  "session_ok g ch v \<longleftrightarrow>
     (ch \<in> approved g \<longleftrightarrow> verdict v = Some True \<and> \<not> closed v) \<and>
     (verdict v = Some False \<longrightarrow> closed v) \<and>
     (bytes v \<noteq> [] \<longrightarrow> verdict v = Some True) \<and> \<not> late v"

definition stream_ok :: "guard \<Rightarrow> channel \<Rightarrow> view \<Rightarrow> bool" where
  "stream_ok g ch v \<longleftrightarrow>
     (\<exists>cur pt h. clean guard_hooks same_stream new_guard_fields (bytes v) cur pt h \<and>
        (\<forall>p. parsers g ch = Some p \<longrightarrow> at_pos p cur pt \<and> sub p = h))"

definition chan_inv :: "guard \<Rightarrow> channel \<Rightarrow> view \<Rightarrow> bool" where
  "chan_inv g ch v \<longleftrightarrow> session_ok g ch v \<and> stream_ok g ch v"

text \<open>A handler keeps the invariants, and every datagram it sends is well-formed.\<close>

definition sends_well :: "string list \<Rightarrow> bool" where
  "sends_well out \<longleftrightarrow> list_all (\<lambda>d. TryCast (Some d) \<noteq> None) out"

definition keeps :: "guard \<Rightarrow> (channel \<Rightarrow> view) \<Rightarrow> guard \<times> string list \<Rightarrow> bool" where
  "keeps g v res \<longleftrightarrow>
     (case res of (g', out) \<Rightarrow>
        guard_inv g' \<and> (\<forall>ch. chan_inv g' ch (foldl (see ch) (v ch) out)))"

lemma clean_new [simp]:
  "clean guard_hooks same_stream new_guard_fields [] [] (PLen []) new_guard_fields"
  unfolding clean_def by (intro exI[of _ "[]"] exI[of _ new_guard_fields]) (simp add: same_stream_def)

lemma at_pos_new [simp]: "at_pos (new_parser h) [] (PLen [])"
  by (simp add: new_parser_def)

lemma sub_new [simp]: "sub (new_parser h) = h"
  by (simp add: new_parser_def)

lemma stream_ok_new:
  "bytes v = [] \<Longrightarrow> parsers g ch = Some (new_parser new_guard_fields) \<Longrightarrow> stream_ok g ch v"
  unfolding stream_ok_def
  by (intro exI[of _ "[]"] exI[of _ "PLen []"] exI[of _ new_guard_fields]) (simp add: new_parser_def)

lemma stream_ok_empty: "bytes v = [] \<Longrightarrow> parsers g ch = None \<Longrightarrow> stream_ok g ch v"
  unfolding stream_ok_def using clean_new by (metis option.distinct(1))

lemma stream_ok_drop:
  "stream_ok g ch v \<Longrightarrow> bytes v' = bytes v \<Longrightarrow>
   parsers g' ch = None \<or> parsers g' ch = parsers g ch \<Longrightarrow> stream_ok g' ch v'"
  unfolding stream_ok_def by (metis option.distinct(1))

lemma valid_id_length: "is_valid_request_id rid \<Longrightarrow> length rid = 12"
  by (simp add: is_valid_request_id_def REQUEST_ID_LEN_def split: if_splits)

lemma other_chan:
  assumes "chan_inv g ch v" and "parsers g' ch = parsers g ch" and "ch \<in> approved g' \<longleftrightarrow> ch \<in> approved g"
  shows "chan_inv g' ch v"
  using assms by (auto simp: chan_inv_def session_ok_def stream_ok_def)

section \<open>The handlers keep the invariants\<close>

lemma keeps_deny:
  assumes "guard_inv g" and "\<And>ch. chan_inv g ch (v ch)" and "traverses order (approved g)"
  shows "keeps g v (act_on_deny order g)"
proof (cases "deny_teardown g")
  case False
  with assms show ?thesis
    by (simp add: keeps_def act_on_deny_def guard_inv_def chan_inv_def session_ok_def stream_ok_def)
next
  case True
  let ?g = "g\<lparr>deny_teardown := False, parsers := \<lambda>ch. if ch \<in> set order then None else parsers g ch,
              approved := {}\<rparr>"
  have res: "act_on_deny order g = (?g, map shutdown_wire order)"
    using True by (simp add: act_on_deny_def teardown_loop_eq)
  have "dom (parsers ?g) = dom (parsers g) - set order" by (auto split: if_splits)
  with assms(1,3) have gi: "guard_inv ?g"
    by (simp add: guard_inv_def traverses_def del: dom_eq_empty_conv)
  have "chan_inv ?g ch (foldl (see ch) (v ch) (map shutdown_wire order))" for ch
    unfolding see_shutdowns using assms(2)[of ch] assms(3)
    by (auto simp: chan_inv_def session_ok_def traverses_def intro: stream_ok_drop)
  with gi res show ?thesis by (simp add: keeps_def)
qed

lemma keeps_create:
  assumes gi: "guard_inv g" and ci: "\<And>ch. chan_inv g ch (v ch)" and m: "action m = CREATE_CHANNEL"
  shows "keeps g v (handle_create (Serialize m) m g)"
proof (cases "is_valid_request_id (payload m)")
  case False
  with gi ci show ?thesis by (simp add: keeps_def handle_create_def)
next
  case True
  let ?c = "channel m" and ?ok = "approve_flag (approver g)"
  have small: "length (payload m) \<le> MAX_PAYLOAD_SIZE" "length (x # payload m) \<le> MAX_PAYLOAD_SIZE" for x
    using valid_id_length[OF True] by (simp_all add: size_defs)
  obtain g' out where res: "handle_create (Serialize m) m g = (g', out)" by fastforce
  have g': "parsers g' = (parsers g)(?c := (if ?ok then Some (new_parser new_guard_fields) else None))"
      "approved g' = (if ?ok then insert ?c (approved g) else approved g - {?c})"
      "poisoned g' = poisoned g - {?c}"
    and out: "out = (if ?ok
        then [Serialize m, Serialize (mk_msg ?c APPROVAL (APPROVAL_APPROVE # payload m))]
        else [Serialize m, Serialize (mk_msg ?c APPROVAL (APPROVAL_DENY # payload m)), shutdown_wire ?c])"
    using res True by (auto simp: handle_create_def Let_def HandleRequest_def split: if_splits)
  have inv: "guard_inv g'"
    using gi by (auto simp: guard_inv_def g' split: if_splits)
  have see_c: "foldl (see ?c) (v ?c) out =
      new_view\<lparr>late := late (v ?c), verdict := Some ?ok, closed := \<not> ?ok\<rparr>"
    unfolding out using small by (simp add: see_Serialize see_shutdown m new_view_def)
  have see_o: "foldl (see ch) (v ch) out = v ch" if "ch \<noteq> ?c" for ch
    unfolding out using small that by (simp add: see_Serialize see_shutdown)
  have "stream_ok g' ?c (foldl (see ?c) (v ?c) out)"
    unfolding see_c by (cases ?ok; intro stream_ok_new stream_ok_empty) (simp_all add: g' new_view_def)
  moreover have "session_ok g' ?c (foldl (see ?c) (v ?c) out)"
    unfolding see_c using ci[of ?c] by (simp add: session_ok_def chan_inv_def g' new_view_def)
  ultimately have "chan_inv g' ?c (foldl (see ?c) (v ?c) out)" by (simp add: chan_inv_def)
  moreover have "chan_inv g' ch (v ch)" if "ch \<noteq> ?c" for ch
    using that by (intro other_chan[OF ci]) (simp_all add: g')
  ultimately have "chan_inv g' ch (foldl (see ch) (v ch) out)" for ch
    using see_o by (cases "ch = ?c") simp_all
  with inv show ?thesis by (simp add: keeps_def res)
qed

lemma keeps_shutdown:
  assumes gi: "guard_inv g" and ci: "\<And>ch. chan_inv g ch (v ch)"
    and m: "action m = SHUTDOWN_CHANNEL" and len: "length (payload m) \<le> MAX_PAYLOAD_SIZE"
  shows "keeps g v (handle_shutdown (Serialize m) m g)"
proof -
  let ?c = "channel m"
  let ?g = "g\<lparr>parsers := (parsers g)(?c := None), poisoned := poisoned g - {?c},
             approved := approved g - {?c}\<rparr>"
  have inv: "guard_inv ?g" using gi by (auto simp: guard_inv_def)
  have "chan_inv ?g ch (see ch (v ch) (Serialize m))" for ch
  proof (cases "ch = ?c")
    case True
    with ci[of ch] len m show ?thesis
      by (auto simp: see_Serialize chan_inv_def session_ok_def intro: stream_ok_drop)
  next
    case False
    with other_chan[OF ci[of ch], of ?g] len show ?thesis by (simp add: see_Serialize)
  qed
  with inv show ?thesis by (simp add: keeps_def handle_shutdown_def Let_def)
qed

text \<open>One payload on an approved channel: the heart of the guard.\<close>

lemma at_pos_ranges [simp]: "at_pos (p\<lparr>denied_ranges := rs\<rparr>) cur pt = at_pos p cur pt"
  by (cases pt) auto

lemma payload_forwarded:
  assumes ci: "chan_inv g c v" and ap: "c \<in> approved g"
    and cl: "clean guard_hooks same_stream new_guard_fields (bytes v @ rest) cur pt (sub p)"
    and pos: "at_pos p cur pt" and g': "approved g' = approved g" "parsers g' c = Some p"
    and v': "v' = v\<lparr>bytes := bytes v @ rest\<rparr>"
  shows "chan_inv g' c v'"
proof -
  have "stream_ok g' c v'"
    unfolding stream_ok_def v' using cl pos g'(2)
    by (intro exI[of _ cur] exI[of _ pt] exI[of _ "sub p"]) simp
  moreover have "session_ok g' c v'"
    using ci ap by (simp add: chan_inv_def session_ok_def g' v')
  ultimately show ?thesis by (simp add: chan_inv_def)
qed

lemma payload_parsed:
  assumes gi: "guard_inv g" and ci: "stream_ok g c v" and ap: "c \<in> approved g"
    and res: "Parse guard_hooks (parser_at (parsers g) c) data = (st, p)" and st: "st \<noteq> STREAM_CORRUPTED"
  obtains cur pt where "at_pos p cur pt" "ranges_ok 0 (denied_ranges p) (length data)"
    "clean guard_hooks same_stream new_guard_fields
       (bytes v @ cut_ranges (denied_ranges p) 0 data) cur pt (sub p)"
    "st \<noteq> DENIED_DATA \<Longrightarrow> denied_ranges p = []"
proof -
  from gi ap obtain p0 where p0: "parsers g c = Some p0" by (auto simp: guard_inv_def)
  with ci obtain cur pt where
    "clean guard_hooks same_stream new_guard_fields (bytes v) cur pt (sub p0)" "at_pos p0 cur pt"
    unfolding stream_ok_def by blast
  moreover have "Parse guard_hooks p0 data = (st, p)" using res by (simp add: p0 parser_at_def)
  ultimately have "\<exists>cur' pt'. at_pos p cur' pt' \<and> ranges_ok 0 (denied_ranges p) (length data) \<and>
      clean guard_hooks same_stream new_guard_fields
        (bytes v @ cut_ranges (denied_ranges p) 0 data) cur' pt' (sub p) \<and>
      st = (if denied_ranges p = [] then pstate p else DENIED_DATA)"
    using guardf.Parse_clean st by blast
  then show ?thesis using that by (metis (full_types))
qed

lemma payload_state:
  assumes ap: "channel m \<in> approved g" "channel m \<notin> poisoned g"
    and res: "Parse guard_hooks (parser_at (parsers g) (channel m)) (payload m) = (st, p)"
    and st: "st \<noteq> STREAM_CORRUPTED"
    and rok: "ranges_ok 0 (denied_ranges p) (length (payload m))"
    and nd: "st \<noteq> DENIED_DATA \<Longrightarrow> denied_ranges p = []"
  shows "\<exists>p'. handle_payload (Serialize m) m g =
     (g\<lparr>parsers := (parsers g)(channel m := Some p')\<rparr>,
      let rest = cut_ranges (denied_ranges p) 0 (payload m) in
      if st = DENIED_DATA \<and> rest = [] then [] else [Serialize (m\<lparr>payload := rest\<rparr>)]) \<and>
     p' = p\<lparr>denied_ranges := []\<rparr>"
proof (cases "st = DENIED_DATA")
  case True
  obtain data plen p' where ex: "Excise p (payload m) (length (payload m)) = (data, plen, p')"
    by (metis prod_cases3)
  from Excise_correct[OF rok ex] have "take plen data = cut_ranges (denied_ranges p) 0 (payload m)"
    and "p' = p\<lparr>denied_ranges := []\<rparr>" by simp_all
  with True ap res ex show ?thesis
    by (simp add: handle_payload_def Let_def del: take_eq_Nil take_eq_Nil2)
next
  case False
  with nd have dr: "denied_ranges p = []" by simp
  then have eq: "p\<lparr>denied_ranges := []\<rparr> = p" by (cases p) simp
  with dr False ap res st show ?thesis by (simp add: handle_payload_def Let_def eq)
qed

lemma cut_length: "ranges_ok pos rs (pos + length xs) \<Longrightarrow> length (cut_ranges rs pos xs) \<le> length xs"
proof (induction rs pos xs rule: cut_ranges.induct)
  case (2 s n rs pos xs)
  then have le: "pos \<le> s" and ok: "ranges_ok (s + n) rs (pos + length xs)" by auto
  from ranges_ok_le[OF ok] le have "s + n - pos \<le> length xs" "s + n + (length xs - (s + n - pos)) = pos + length xs"
    by linarith+
  with "2.IH" ok le show ?case by (simp add: add.commute)
qed simp

lemma keeps_corrupted:
  assumes gi: "guard_inv g" and ci: "\<And>ch. chan_inv g ch (v ch)" and ap: "channel m \<in> approved g" "channel m \<notin> poisoned g"
    and res: "Parse guard_hooks (parser_at (parsers g) (channel m)) (payload m) = (STREAM_CORRUPTED, p)"
  shows "keeps g v (handle_payload (Serialize m) m g)"
proof -
  let ?c = "channel m"
  let ?g = "g\<lparr>parsers := (parsers g)(?c := None), approved := approved g - {?c},
             poisoned := insert ?c (poisoned g)\<rparr>"
  have eq: "handle_payload (Serialize m) m g = (?g, [shutdown_wire ?c])"
    using ap res by (simp add: handle_payload_def Let_def)
  have "guard_inv ?g" using gi by (auto simp: guard_inv_def)
  moreover have "chan_inv ?g ch (foldl (see ch) (v ch) [shutdown_wire ?c])" for ch
  proof (cases "ch = ?c")
    case True
    with ci[of ch] show ?thesis
      by (auto simp: see_shutdown chan_inv_def session_ok_def intro: stream_ok_drop)
  next
    case False
    with other_chan[OF ci[of ch], of ?g] show ?thesis by (simp add: see_shutdown)
  qed
  ultimately show ?thesis by (simp add: keeps_def eq)
qed

lemma keeps_parsed:
  assumes gi: "guard_inv g" and ci: "\<And>ch. chan_inv g ch (v ch)" and m: "action m = NONE"
    and len: "length (payload m) \<le> MAX_PAYLOAD_SIZE" and ap: "channel m \<in> approved g" "channel m \<notin> poisoned g"
    and res: "Parse guard_hooks (parser_at (parsers g) (channel m)) (payload m) = (st, p)" and st: "st \<noteq> STREAM_CORRUPTED"
  shows "keeps g v (handle_payload (Serialize m) m g)"
proof -
  let ?c = "channel m"
  obtain cur pt where pos: "at_pos p cur pt" and rok: "ranges_ok 0 (denied_ranges p) (length (payload m))"
    and cl: "clean guard_hooks same_stream new_guard_fields
               (bytes (v ?c) @ cut_ranges (denied_ranges p) 0 (payload m)) cur pt (sub p)"
    and nd: "st \<noteq> DENIED_DATA \<Longrightarrow> denied_ranges p = []"
    using payload_parsed[OF gi _ ap(1) res st] ci[of ?c] unfolding chan_inv_def by blast
  let ?rest = "cut_ranges (denied_ranges p) 0 (payload m)"
  let ?p = "p\<lparr>denied_ranges := []\<rparr>"
  let ?g = "g\<lparr>parsers := (parsers g)(?c := Some ?p)\<rparr>"
  let ?out = "if st = DENIED_DATA \<and> ?rest = [] then [] else [Serialize (m\<lparr>payload := ?rest\<rparr>)]"
  have eq: "handle_payload (Serialize m) m g = (?g, ?out)"
    using payload_state[OF ap res st rok nd] by (auto simp: Let_def)
  have small: "length ?rest \<le> MAX_PAYLOAD_SIZE"
    using cut_length[of 0 "denied_ranges p" "payload m"] rok len by simp
  have inv: "guard_inv ?g" using gi ap by (auto simp: guard_inv_def)
  have see_c: "foldl (see ?c) (v ?c) ?out = (v ?c)\<lparr>bytes := bytes (v ?c) @ ?rest\<rparr>"
    using ci[of ?c] ap(1) m small by (auto simp: see_Serialize chan_inv_def session_ok_def)
  have "chan_inv ?g ?c (foldl (see ?c) (v ?c) ?out)"
    unfolding see_c using cl pos by (intro payload_forwarded[OF ci ap(1)]) auto
  moreover have "chan_inv ?g ch (foldl (see ch) (v ch) ?out)" if "ch \<noteq> ?c" for ch
    using other_chan[OF ci[of ch], of ?g] that small by (simp add: see_Serialize)
  ultimately have "chan_inv ?g ch (foldl (see ch) (v ch) ?out)" for ch by metis
  with inv show ?thesis by (simp add: keeps_def eq)
qed

lemma keeps_payload:
  assumes gi: "guard_inv g" and ci: "\<And>ch. chan_inv g ch (v ch)"
    and m: "action m = NONE" and len: "length (payload m) \<le> MAX_PAYLOAD_SIZE"
  shows "keeps g v (handle_payload (Serialize m) m g)"
proof (cases "channel m \<in> poisoned g \<or> channel m \<notin> approved g")
  case True
  with gi ci show ?thesis by (auto simp: keeps_def handle_payload_def Let_def)
next
  case False
  then have ap: "channel m \<in> approved g" "channel m \<notin> poisoned g" by simp_all
  obtain st p where "Parse guard_hooks (parser_at (parsers g) (channel m)) (payload m) = (st, p)" by fastforce
  with keeps_corrupted[OF gi ci ap] keeps_parsed[OF gi ci m len ap] show ?thesis by (cases "st = STREAM_CORRUPTED") auto
qed
end
