(* ===== verification/Guard_Runs.thy ===== *)
theory Guard_Runs imports Guard_Policy begin

text \<open>
  The guard's invariants over every run of its two threads, and the facts about single handlers that
  the properties rest on. \<open>inert\<close> events are those whose datagram is not an \<open>APPROVAL\<close> frame: no
  honest gmlbroker sends one, and the guard treats it as \<open>NONE\<close>.
\<close>

section \<open>One received datagram\<close>

lemma Receive_pos:
  assumes "Receive (MAX_DATAGRAM_SIZE + 1) r = (n, b)" and "\<not> n \<le> 0"
  shows "n = int (length b) \<and> length b \<le> MAX_DATAGRAM_SIZE"
  using Receive_length[OF assms(1)] assms(2) by simp

lemma keeps_datagram:
  assumes gi: "guard_inv g" and ci: "\<And>ch. chan_inv g ch (v ch)"
    and no: "\<And>m. TryCast (Some b) = Some m \<Longrightarrow> action m \<noteq> APPROVAL"
  shows "keeps g v (handle_datagram b g)"
proof (cases "TryCast (Some b)")
  case None
  with gi ci show ?thesis by (simp add: keeps_def handle_datagram_def)
next
  case (Some m)
  from TryCast_SomeD[OF Some] have b: "b = Serialize m" and len: "length (payload m) \<le> MAX_PAYLOAD_SIZE"
    by simp_all
  from no[OF Some] keeps_create[OF gi ci, of m] keeps_shutdown[OF gi ci _ len] keeps_payload[OF gi ci _ len]
  show ?thesis unfolding b using len by (simp add: handle_datagram_def split: ChannelAction.splits)
qed

definition inert :: "event \<Rightarrow> bool" where
  "inert e =
     (case e of
        Recv r \<Rightarrow>
          (case TryCast (Some (snd (Receive (MAX_DATAGRAM_SIZE + 1) r))) of
             None \<Rightarrow> True | Some m \<Rightarrow> action m \<noteq> APPROVAL)
      | _ \<Rightarrow> True)"

lemma keeps_receive:
  assumes "guard_inv g" and "\<And>ch. chan_inv g ch (v ch)" and "inert (Recv r)"
  shows "keeps g v (guard_receive r g)"
proof -
  obtain n b where rc: "Receive (MAX_DATAGRAM_SIZE + 1) r = (n, b)" by fastforce
  show ?thesis
  proof (cases "n \<le> 0")
    case True
    with rc assms(1,2) show ?thesis by (simp add: guard_receive_def keeps_def)
  next
    case False
    from assms(3) rc have "action m \<noteq> APPROVAL" if "TryCast (Some b) = Some m" for m
      using that by (simp add: inert_def)
    from keeps_datagram[OF assms(1,2) this] False rc show ?thesis by (simp add: guard_receive_def)
  qed
qed

section \<open>Runs\<close>

definition sys_inv :: "gsys \<Rightarrow> (channel \<Rightarrow> view) \<Rightarrow> bool" where
  "sys_inv s v \<longleftrightarrow> (mpc s \<noteq> Stopped \<longrightarrow> guard_inv (gst s)) \<and> (\<forall>ch. chan_inv (gst s) ch (v ch)) \<and>
     (mpc s = Stopped \<longrightarrow> approved (gst s) = {})"

lemma guard_inv_more [simp]:
  "guard_inv (g\<lparr>approver := a\<rparr>) = guard_inv g" "guard_inv (g\<lparr>deny_teardown := d\<rparr>) = guard_inv g"
  by (simp_all add: guard_inv_def)

lemma chan_inv_more [simp]:
  "chan_inv (g\<lparr>approver := a\<rparr>) ch v = chan_inv g ch v"
  "chan_inv (g\<lparr>deny_teardown := d\<rparr>) ch v = chan_inv g ch v"
  by (simp_all add: chan_inv_def session_ok_def stream_ok_def)

lemma control_receive_inv: "sys_inv s v \<Longrightarrow> sys_inv (control_receive r s) v"
  by (auto simp: control_receive_def sys_inv_def split: prod.splits option.splits)

lemma stop_inv:
  assumes "chan_inv g ch v" and "traverses order (approved g)"
  shows "chan_inv (g\<lparr>approved := {}\<rparr>) ch (foldl (see ch) v (map shutdown_wire order))"
  using assms unfolding see_shutdowns
  by (auto simp: chan_inv_def session_ok_def traverses_def stream_ok_def)

lemma guard_step_inv:
  assumes inv: "sys_inv s v" and st: "guard_step e s = Some (s', out)" and "inert e"
  shows "sys_inv s' (\<lambda>ch. foldl (see ch) (v ch) out)"
proof (cases e)
  case (Toggle r)
  with st control_receive_inv[OF inv, of r] show ?thesis by (auto split: if_splits)
next
  case FlagDeny
  with st inv show ?thesis by (auto simp: sys_inv_def split: if_splits)
next
  case (DenyCheck order)
  with st inv keeps_deny[of "gst s" v order] show ?thesis
    by (auto simp: sys_inv_def keeps_def split: if_splits prod.splits)
next
  case (Recv r)
  with st inv keeps_receive[of "gst s" v r] \<open>inert e\<close> show ?thesis
    by (auto simp: sys_inv_def keeps_def split: if_splits prod.splits)
next
  case (Stop order)
  with st have pc: "mpc s = AtDenyCheck" and tr: "traverses order (approved (gst s))"
    and s': "s' = s\<lparr>gst := (gst s)\<lparr>approved := {}\<rparr>, mpc := Stopped\<rparr>" "out = map shutdown_wire order"
    by (auto simp: announce_stop_def split: if_splits)
  from inv have "chan_inv (gst s) ch (v ch)" for ch by (simp add: sys_inv_def)
  from stop_inv[OF this tr] show ?thesis by (simp add: sys_inv_def s')
qed

lemma new_inv: "sys_inv new_gsys (\<lambda>ch. new_view)"
  by (auto simp: sys_inv_def new_gsys_def new_guard_def guard_inv_def chan_inv_def session_ok_def
      new_view_def intro: stream_ok_empty)

lemma guard_run_inv:
  assumes "guard_run tr s" and "\<forall>e\<in>set (map fst tr). inert e"
  shows "sys_inv s (\<lambda>ch. view_of ch (sent tr))"
  using assms
proof (induction rule: guard_run.induct)
  case run_start
  show ?case using new_inv by (simp add: view_of_def)
next
  case (run_step tr s e s' out)
  then have "sys_inv s (\<lambda>ch. view_of ch (sent tr))" "inert e" by auto
  from guard_step_inv[OF this(1) run_step.hyps(2) this(2)] show ?case by (simp add: view_of_append)
qed

section \<open>Every datagram sent is well-formed, inert events or not\<close>

definition parser_inv :: "guard \<Rightarrow> bool" where
  "parser_inv g \<longleftrightarrow> guard_inv g \<and> (\<forall>ch. \<exists>v. stream_ok g ch v)"

definition wf_result :: "guard \<times> string list \<Rightarrow> bool" where
  "wf_result res \<longleftrightarrow> parser_inv (fst res) \<and> sends_well (snd res)"

lemma sends_well_simps [simp]:
  "sends_well []" "sends_well (d # ds) = (TryCast (Some d) \<noteq> None \<and> sends_well ds)"
  "sends_well (ds @ es) = (sends_well ds \<and> sends_well es)"
  by (simp_all add: sends_well_def)

lemma TryCast_shutdown [simp]: "TryCast (Some (shutdown_wire ch)) = Some (mk_msg ch SHUTDOWN_CHANNEL [])"
  by (simp add: shutdown_wire_def)

lemma sends_well_shutdowns [simp]: "sends_well (map shutdown_wire order)"
  by (induction order) auto

lemma stream_ok_upd:
  assumes "\<exists>v. stream_ok g ch v" and "ch = c \<longrightarrow> parsers g' ch = None" "ch \<noteq> c \<longrightarrow> parsers g' ch = parsers g ch"
  shows "\<exists>v. stream_ok g' ch v"
  using assms stream_ok_drop by blast

lemma wf_create:
  assumes "parser_inv g" and "length (payload m) \<le> MAX_PAYLOAD_SIZE"
  shows "wf_result (handle_create (Serialize m) m g)"
proof (cases "is_valid_request_id (payload m)")
  case False
  with assms show ?thesis by (simp add: wf_result_def handle_create_def)
next
  case True
  let ?c = "channel m"
  obtain g' out where res: "handle_create (Serialize m) m g = (g', out)" by fastforce
  have small: "length (x # payload m) \<le> MAX_PAYLOAD_SIZE" for x
    using valid_id_length[OF True] by (simp add: size_defs)
  have g': "parsers g' = (parsers g)(?c := (if approve_flag (approver g) then Some (new_parser new_guard_fields) else None))"
      "approved g' = (if approve_flag (approver g) then insert ?c (approved g) else approved g - {?c})"
      "poisoned g' = poisoned g - {?c}"
    and out: "sends_well out"
    using res True assms(2) small
    by (auto simp: handle_create_def Let_def HandleRequest_def TryCast_Serialize split: if_splits)
  have "guard_inv g'" using assms(1) by (auto simp: parser_inv_def guard_inv_def g' split: if_splits)
  moreover have "\<exists>v. stream_ok g' ch v" for ch
  proof (cases "ch = ?c")
    case True
    then show ?thesis
      using stream_ok_new[of new_view g' ch] stream_ok_empty[of new_view g' ch]
      by (cases "approve_flag (approver g)") (auto simp: g' new_view_def)
  next
    case False
    from assms(1) have "\<exists>v. stream_ok g ch v" by (simp add: parser_inv_def)
    with False show ?thesis by - (rule stream_ok_upd[of g ch ?c], simp_all add: g')
  qed
  ultimately show ?thesis using out by (simp add: wf_result_def parser_inv_def res)
qed

lemma wf_shutdown:
  assumes "parser_inv g" and "length (payload m) \<le> MAX_PAYLOAD_SIZE"
  shows "wf_result (handle_shutdown (Serialize m) m g)"
proof -
  let ?g = "fst (handle_shutdown (Serialize m) m g)"
  have "\<exists>v. stream_ok ?g ch v" for ch
    using assms(1) by - (rule stream_ok_upd[of g ch "channel m"], simp_all add: handle_shutdown_def parser_inv_def Let_def)
  moreover have "guard_inv ?g"
    using assms(1) by (auto simp: parser_inv_def guard_inv_def handle_shutdown_def Let_def)
  ultimately show ?thesis
    using assms(2) by (simp add: wf_result_def parser_inv_def handle_shutdown_def Let_def)
qed

lemma wf_corrupted:
  assumes inv: "parser_inv g" and ap: "channel m \<in> approved g" "channel m \<notin> poisoned g"
    and res: "Parse guard_hooks (parser_at (parsers g) (channel m)) (payload m) = (STREAM_CORRUPTED, p)"
  shows "wf_result (handle_payload (Serialize m) m g)"
proof -
  let ?g = "fst (handle_payload (Serialize m) m g)"
  from inv have gi: "guard_inv g" and st: "\<And>ch. \<exists>v. stream_ok g ch v" by (simp_all add: parser_inv_def)
  have "\<exists>v. stream_ok ?g ch v" for ch
    using st[of ch] ap res by - (rule stream_ok_upd[of g ch "channel m"], simp_all add: handle_payload_def Let_def)
  moreover have "guard_inv ?g"
    using gi ap res by (auto simp: guard_inv_def handle_payload_def Let_def)
  ultimately show ?thesis
    using ap res by (simp add: wf_result_def parser_inv_def handle_payload_def Let_def)
qed

lemma wf_parsed:
  assumes inv: "parser_inv g" and len: "length (payload m) \<le> MAX_PAYLOAD_SIZE"
    and ap: "channel m \<in> approved g" "channel m \<notin> poisoned g"
    and res: "Parse guard_hooks (parser_at (parsers g) (channel m)) (payload m) = (st, p)" "st \<noteq> STREAM_CORRUPTED"
  shows "wf_result (handle_payload (Serialize m) m g)"
proof -
  let ?c = "channel m"
  from inv have gi: "guard_inv g" and st: "\<And>ch. \<exists>v. stream_ok g ch v" by (simp_all add: parser_inv_def)
  from st obtain v where v: "stream_ok g ?c v" by blast
  obtain cur pt where pos: "at_pos p cur pt" and rok: "ranges_ok 0 (denied_ranges p) (length (payload m))"
    and cl: "clean guard_hooks same_stream new_guard_fields
               (bytes v @ cut_ranges (denied_ranges p) 0 (payload m)) cur pt (sub p)"
    and nd: "st \<noteq> DENIED_DATA \<Longrightarrow> denied_ranges p = []"
    using payload_parsed[OF gi v ap(1) res] by blast
  let ?rest = "cut_ranges (denied_ranges p) 0 (payload m)"
  let ?g = "g\<lparr>parsers := (parsers g)(?c := Some (p\<lparr>denied_ranges := []\<rparr>))\<rparr>"
  have eq: "handle_payload (Serialize m) m g =
      (?g, if st = DENIED_DATA \<and> ?rest = [] then [] else [Serialize (m\<lparr>payload := ?rest\<rparr>)])"
    using payload_state[OF ap res rok nd] by (auto simp: Let_def)
  have small: "length ?rest \<le> MAX_PAYLOAD_SIZE"
    using cut_length[of 0 "denied_ranges p" "payload m"] rok len by simp
  have "stream_ok ?g ?c (v\<lparr>bytes := bytes v @ ?rest\<rparr>)"
    unfolding stream_ok_def using cl pos
    by (intro exI[of _ cur] exI[of _ pt] exI[of _ "sub p"]) simp
  moreover have "stream_ok g ch w \<Longrightarrow> stream_ok ?g ch w" if "ch \<noteq> ?c" for ch w
    using that by (auto intro: stream_ok_drop)
  ultimately have "\<exists>v. stream_ok ?g ch v" for ch using st[of ch] by (cases "ch = ?c") blast+
  moreover have "guard_inv ?g" using gi ap by (auto simp: guard_inv_def)
  ultimately show ?thesis using small by (simp add: wf_result_def parser_inv_def eq)
qed

lemma wf_payload:
  assumes inv: "parser_inv g" and len: "length (payload m) \<le> MAX_PAYLOAD_SIZE"
  shows "wf_result (handle_payload (Serialize m) m g)"
proof (cases "channel m \<in> poisoned g \<or> channel m \<notin> approved g")
  case True
  with inv show ?thesis by (auto simp: wf_result_def handle_payload_def Let_def)
next
  case False
  obtain st p where res: "Parse guard_hooks (parser_at (parsers g) (channel m)) (payload m) = (st, p)" by fastforce
  with False wf_corrupted[OF inv] wf_parsed[OF inv len] show ?thesis by (cases "st = STREAM_CORRUPTED") auto
qed

lemma wf_receive: "parser_inv g \<Longrightarrow> wf_result (guard_receive r g)"
proof -
  assume inv: "parser_inv g"
  have "wf_result (handle_datagram b g)" for b
  proof (cases "TryCast (Some b)")
    case None
    with inv show ?thesis by (simp add: handle_datagram_def wf_result_def)
  next
    case (Some m)
    from TryCast_SomeD[OF Some] have b: "b = Serialize m" and len: "length (payload m) \<le> MAX_PAYLOAD_SIZE"
      by simp_all
    from wf_create[OF inv len] wf_shutdown[OF inv len] wf_payload[OF inv len]
    show ?thesis unfolding b using len by (simp add: handle_datagram_def split: ChannelAction.splits)
  qed
  with inv show ?thesis
    by (cases "Receive (MAX_DATAGRAM_SIZE + 1) r") (simp add: guard_receive_def wf_result_def)
qed

lemma wf_deny:
  assumes "parser_inv g" and "traverses order (approved g)"
  shows "wf_result (act_on_deny order g)"
proof -
  obtain g' out where res: "act_on_deny order g = (g', out)" by fastforce
  then have p: "parsers g' ch = None \<or> parsers g' ch = parsers g ch" for ch
    by (auto simp: act_on_deny_def teardown_loop_eq split: if_splits)
  have "\<exists>v. stream_ok g' ch v" for ch
    using assms(1) stream_ok_drop[OF _ refl p] unfolding parser_inv_def by blast
  moreover have "guard_inv g'"
  proof (cases "deny_teardown g")
    case True
    from True res assms(2) have g': "g' = g\<lparr>deny_teardown := False, approved := {},
        parsers := \<lambda>ch. if ch \<in> approved g then None else parsers g ch\<rparr>"
      by (auto simp: act_on_deny_def teardown_loop_eq traverses_def)
    have "dom (parsers g') = dom (parsers g) - approved g" unfolding g' by (auto split: if_splits)
    with assms(1) show ?thesis by (simp add: parser_inv_def guard_inv_def g' del: dom_eq_empty_conv)
  next
    case False
    with res assms(1) show ?thesis by (auto simp: act_on_deny_def parser_inv_def)
  qed
  moreover have "sends_well out"
    using res by (auto simp: act_on_deny_def teardown_loop_eq split: if_splits)
  ultimately show ?thesis by (simp add: res wf_result_def parser_inv_def)
qed

lemma guard_run_wf:
  assumes "guard_run tr s"
  shows "sends_well (sent tr) \<and> (mpc s \<noteq> Stopped \<longrightarrow> parser_inv (gst s))"
  using assms
proof (induction rule: guard_run.induct)
  case run_start
  have "guard_inv new_guard" by (simp add: guard_inv_def new_guard_def)
  moreover have "stream_ok new_guard ch new_view" for ch
    by (intro stream_ok_empty) (simp_all add: new_view_def new_guard_def)
  ultimately show ?case by (auto simp: new_gsys_def parser_inv_def)
next
  case (run_step tr s e s' out)
  have more: "parser_inv (g\<lparr>approver := a\<rparr>) = parser_inv g" "parser_inv (g\<lparr>deny_teardown := d\<rparr>) = parser_inv g" for g a d
    by (simp_all add: parser_inv_def stream_ok_def)
  have ctl: "mpc (control_receive r s) = mpc s" "parser_inv (gst (control_receive r s)) = parser_inv (gst s)" for r
    by (auto simp: control_receive_def more split: prod.splits option.splits)
  have rcv: "parser_inv g \<Longrightarrow> guard_receive r g = (g', o') \<Longrightarrow> parser_inv g' \<and> sends_well o'" for r g g' o'
    by (metis wf_receive wf_result_def fst_conv snd_conv)
  have dny: "parser_inv g \<Longrightarrow> traverses order (approved g) \<Longrightarrow> act_on_deny order g = (g', o') \<Longrightarrow>
      parser_inv g' \<and> sends_well o'" for order g g' o'
    by (metis wf_deny wf_result_def fst_conv snd_conv)
  from run_step show ?case
    by (cases e) (auto simp: more ctl announce_stop_def split: if_splits prod.splits dest: rcv dny)
qed

section \<open>A deny disconnects\<close>

text \<open>Between the deny's two stores and the main loop's next check a live channel may remain; else not.\<close>

definition deny_inv :: "gsys \<Rightarrow> bool" where
  "deny_inv s \<longleftrightarrow>
     (\<not> approve_flag (approver (gst s)) \<and> \<not> flag_pending s \<and> \<not> deny_teardown (gst s)
      \<longrightarrow> approved (gst s) = {})"

lemma handle_datagram_switch:
  "approver (fst (handle_datagram b g)) = approver g \<and>
   deny_teardown (fst (handle_datagram b g)) = deny_teardown g \<and>
   (\<not> approve_flag (approver g) \<longrightarrow> approved (fst (handle_datagram b g)) \<subseteq> approved g)"
  by (auto simp: handle_datagram_def handle_create_def handle_shutdown_def handle_payload_def Let_def
      HandleRequest_def split: option.splits ChannelAction.splits prod.splits)

lemma guard_receive_switch:
  "approver (fst (guard_receive r g)) = approver g \<and>
   deny_teardown (fst (guard_receive r g)) = deny_teardown g \<and>
   (\<not> approve_flag (approver g) \<longrightarrow> approved (fst (guard_receive r g)) \<subseteq> approved g)"
  using handle_datagram_switch by (simp add: guard_receive_def split: prod.splits)

lemma deny_run_inv: "guard_run tr s \<Longrightarrow> deny_inv s"
proof (induction rule: guard_run.induct)
  case run_start
  show ?case by (simp add: deny_inv_def new_gsys_def new_guard_def)
next
  case (run_step tr s e s' out)
  show ?case
  proof (cases e)
    case (Toggle r)
    with run_step show ?thesis
      by (auto simp: deny_inv_def control_receive_def SetApprove_def split: if_splits prod.splits option.splits)
  next
    case FlagDeny
    with run_step show ?thesis by (auto simp: deny_inv_def split: if_splits)
  next
    case (DenyCheck order)
    with run_step show ?thesis
      by (auto simp: deny_inv_def act_on_deny_def split: if_splits prod.splits)
  next
    case (Recv r)
    with run_step show ?thesis
      using guard_receive_switch[of r "gst s"]
      by (auto simp: deny_inv_def split: if_splits prod.splits)
  next
    case (Stop order)
    with run_step show ?thesis by (auto simp: deny_inv_def announce_stop_def split: if_splits)
  qed
qed

end
