(* ===== verification/Chunking.thy ===== *)
theory Chunking imports Guard_Parser begin

text \<open>
  The framer does not depend on where a stream is cut into datagrams, as long as nothing is denied:
  parsing \<open>a @ b\<close> in one call and in two calls gives the same parser, up to the fields that only
  describe the current call (\<open>current_index\<close>, \<open>opcode_start_idx\<close>).
\<close>

definition same_parser :: "'h parser \<Rightarrow> 'h parser \<Rightarrow> bool" where
  "same_parser p q \<longleftrightarrow>
     pstate p = pstate q \<and> current_length p = current_length q \<and> current_read p = current_read q \<and>
     reading_opcode p = reading_opcode q \<and> element_buffer p = element_buffer q \<and>
     denied_ranges p = [] \<and> denied_ranges q = [] \<and> sub p = sub q"

definition quiet :: "'h call \<Rightarrow> bool" where
  "quiet k \<longleftrightarrow> \<not> denying k \<and> denied_ranges (obj k) = []"

definition index_free :: "'h hooks \<Rightarrow> bool" where
  "index_free hk \<longleftrightarrow> (\<forall>i j h. OnInstructionEnd hk i h = OnInstructionEnd hk j h)"

lemma same_parser_refl: "denied_ranges p = [] \<Longrightarrow> same_parser p p"
  by (simp add: same_parser_def)

lemma same_parser_trans: "same_parser p q \<Longrightarrow> same_parser q r \<Longrightarrow> same_parser p r"
  by (simp add: same_parser_def)

section \<open>Noise is remembered until the call ends\<close>

lemma parse_byte_noise:
  assumes "parse_byte hk i c k = Continue k'" and "\<not> quiet k"
  shows "\<not> quiet k'"
  using assms
  by (auto simp: parse_byte_def quiet_def step_length_def first_digit_def step_data_def step_delim_def
      handle_element_def end_instruction_def Let_def split: ParserState.splits if_splits flow.splits)

lemma parse_loop_noise:
  "parse_loop hk i cs k = Continue k' \<Longrightarrow> quiet k' \<Longrightarrow> quiet k"
proof (induction cs arbitrary: i k)
  case (Cons c cs)
  from Cons.prems(1) obtain k1 where k1: "parse_byte hk i c k = Continue k1"
    "parse_loop hk (Suc i) cs k1 = Continue k'" by (auto split: flow.splits)
  from Cons.IH[OF k1(2) Cons.prems(2)] parse_byte_noise[OF k1(1)] show ?case by blast
qed simp

section \<open>One byte, at two indices\<close>

lemma step_length_same:
  assumes "step_length hk i c k = Continue k'" and "same_parser (obj k) (obj l)" and "quiet k" "quiet l"
  shows "\<exists>l'. step_length hk j c l = Continue l' \<and> same_parser (obj k') (obj l') \<and> quiet k' \<and> quiet l'"
proof -
  have eq: "current_length (obj l) = current_length (obj k)" "reading_opcode (obj l) = reading_opcode (obj k)"
    using assms(2) by (simp_all add: same_parser_def)
  note defs = step_length_def first_digit_def same_parser_def quiet_def Let_def eq
  show ?thesis
  proof (cases "is_digit c")
    case True
    with assms show ?thesis
      by (cases "current_length (obj k) = -1"; cases "reading_opcode (obj k)")
        (auto simp: defs split: if_split_asm)
  next
    case False
    with assms show ?thesis
      by (cases "c = CHR ''.''"; cases "current_length (obj k) = -1") (auto simp: defs)
  qed
qed

lemma step_data_same:
  assumes "step_data c k = Continue k'" and "same_parser (obj k) (obj l)" and "quiet k" "quiet l"
  shows "\<exists>l'. step_data c l = Continue l' \<and> same_parser (obj k') (obj l') \<and> quiet k' \<and> quiet l'"
  using assms by (auto simp: step_data_def same_parser_def quiet_def Let_def split: if_splits)

lemma handle_element_same:
  assumes "handle_element hk k = Continue k1" and "\<not> denying k1"
    and "same_parser (obj k) (obj l)" and "quiet k" "quiet l"
  shows "\<exists>l1. handle_element hk l = Continue l1 \<and> same_parser (obj k1) (obj l1) \<and> quiet k1 \<and> quiet l1"
  using assms
  by (auto simp: handle_element_def same_parser_def quiet_def current_element_def Let_def
      split: if_splits prod.splits)

lemma step_delim_same:
  assumes st: "step_delim hk i c k = Continue k'" and "quiet k'" and fr: "index_free hk"
    and same: "same_parser (obj k) (obj l)" "quiet k" "quiet l"
  shows "\<exists>l'. step_delim hk j c l = Continue l' \<and> same_parser (obj k') (obj l') \<and> quiet k' \<and> quiet l'"
proof -
  from st obtain k1 where k1: "handle_element hk k = Continue k1" and c: "c = CHR '','' \<or> c = CHR '';''"
    by (auto simp: step_delim_def split: if_splits flow.splits)
  have "\<not> denying k1"
    using st \<open>quiet k'\<close> k1 c by (auto simp: step_delim_def end_instruction_def Let_def quiet_def)
  from handle_element_same[OF k1 this same] obtain l1 where
    l1: "handle_element hk l = Continue l1" "same_parser (obj k1) (obj l1)" "quiet k1" "quiet l1" by blast
  have "OnInstructionEnd hk (current_index (obj k1)) h = OnInstructionEnd hk (current_index (obj l1)) h" for h
    using fr unfolding index_free_def by blast
  with st c k1 l1 show ?thesis
    by (auto simp: step_delim_def end_instruction_def same_parser_def quiet_def Let_def)
qed

lemma parse_byte_same:
  assumes st: "parse_byte hk i c k = Continue k'" and "quiet k'" and "index_free hk"
    and same: "same_parser (obj k) (obj l)" "quiet k" "quiet l"
  shows "\<exists>l'. parse_byte hk j c l = Continue l' \<and> same_parser (obj k') (obj l') \<and> quiet k' \<and> quiet l'"
proof -
  let ?k = "k\<lparr>obj := (obj k)\<lparr>current_index := i\<rparr>\<rparr>" and ?l = "l\<lparr>obj := (obj l)\<lparr>current_index := j\<rparr>\<rparr>"
  have same': "same_parser (obj ?k) (obj ?l)" "quiet ?k" "quiet ?l"
    using same by (simp_all add: same_parser_def quiet_def)
  have ps: "pstate (obj l) = pstate (obj k)" using same(1) by (simp add: same_parser_def)
  show ?thesis
  proof (cases "pstate (obj k)")
    case READING_LENGTH
    with st ps step_length_same[of hk i c ?k k' ?l j] same' show ?thesis by (simp add: parse_byte_def)
  next
    case READING_DATA
    with st ps step_data_same[of c ?k k' ?l] same' show ?thesis by (simp add: parse_byte_def)
  next
    case EXPECT_DELIM
    with st ps step_delim_same[of hk i c ?k k' ?l j] same' assms(2,3) show ?thesis
      by (simp add: parse_byte_def)
  qed (use st in \<open>simp_all add: parse_byte_def\<close>)
qed

lemma parse_loop_same:
  assumes "parse_loop hk i cs k = Continue k'" and "quiet k'" and "index_free hk"
    and "same_parser (obj k) (obj l)" and "quiet l"
  shows "\<exists>l'. parse_loop hk j cs l = Continue l' \<and> same_parser (obj k') (obj l') \<and> quiet l'"
  using assms
proof (induction cs arbitrary: i j k l)
  case (Cons c cs)
  from Cons.prems(1) obtain k1 where k1: "parse_byte hk i c k = Continue k1"
    "parse_loop hk (Suc i) cs k1 = Continue k'" by (auto split: flow.splits)
  from parse_loop_noise[OF Cons.prems(1,2)] have qk: "quiet k" .
  from parse_loop_noise[OF k1(2) Cons.prems(2)] have "quiet k1" .
  from parse_byte_same[OF k1(1) this Cons.prems(3,4) qk Cons.prems(5), of j] obtain l1 where
    l1: "parse_byte hk j c l = Continue l1" "same_parser (obj k1) (obj l1)" "quiet l1" by blast
  from Cons.IH[OF k1(2) Cons.prems(2,3) l1(2,3), of "Suc j"] l1(1) show ?case by simp
qed simp

section \<open>Two calls\<close>

definition accepted :: "ParserState \<Rightarrow> bool" where
  "accepted st \<longleftrightarrow> st \<noteq> STREAM_CORRUPTED \<and> st \<noteq> DENIED_DATA"

lemma Parse_accepted:
  assumes "Parse hk p data = (st, q)" and "accepted st"
  obtains k where "parse_loop hk 0 data (start_call p) = Continue k" "quiet k" "q = obj k" "st = pstate q"
    | "parse_loop hk 0 data (start_call p) = Return q" "st = pstate q"
  using assms
  by (cases "parse_loop hk 0 data (start_call p)")
    (auto simp: Parse_def finish_call_def accepted_def quiet_def split: if_splits)

lemma step_Return:
  assumes "parse_byte hk i c k = Return p"
  shows "\<not> accepted (pstate p)"
  using assms
  by (auto simp: parse_byte_def step_length_def step_data_def step_delim_def handle_element_def
      Let_def accepted_def split: ParserState.splits if_splits flow.splits)

lemma loop_Return: "parse_loop hk i cs k = Return p \<Longrightarrow> \<not> accepted (pstate p)"
  by (induction cs arbitrary: i k) (auto split: flow.splits dest: step_Return)

lemma Parse_split:
  assumes res: "Parse hk p (a @ b) = (st, q)" and ok: "accepted st" and fr: "index_free hk"
  shows "\<exists>st1 p1 q'. Parse hk p a = (st1, p1) \<and> accepted st1 \<and> Parse hk p1 b = (st, q') \<and> same_parser q q'"
  using res ok
proof (rule Parse_accepted)
  assume "parse_loop hk 0 (a @ b) (start_call p) = Return q" "st = pstate q"
  with loop_Return ok show ?thesis by blast
next
  fix k assume k: "parse_loop hk 0 (a @ b) (start_call p) = Continue k" "quiet k" "q = obj k" "st = pstate q"
  then obtain k1 where k1: "parse_loop hk 0 a (start_call p) = Continue k1"
    "parse_loop hk (length a) b k1 = Continue k"
    by (auto simp: parse_loop_append split: flow.splits)
  from parse_loop_noise[OF k1(2) k(2)] have q1: "quiet k1" .
  have st1: "Parse hk p a = (pstate (obj k1), obj k1)"
    using k1(1) q1 by (simp add: Parse_def finish_call_def quiet_def)
  have same: "same_parser (obj k1) (obj (start_call (obj k1)))" "quiet (start_call (obj k1))"
    using q1 by (simp_all add: start_call_def same_parser_def quiet_def)
  from parse_loop_same[OF k1(2) k(2) fr same, of 0] obtain l where
    l: "parse_loop hk 0 b (start_call (obj k1)) = Continue l" "same_parser (obj k) (obj l)" "quiet l" by blast
  have st2: "Parse hk (obj k1) b = (st, obj l)"
    using l k(3,4) by (simp add: Parse_def finish_call_def quiet_def same_parser_def)
  have "accepted (pstate (obj k1))"
  proof (cases b)
    case Nil
    with k1(2) k(3,4) ok show ?thesis by simp
  next
    case (Cons c cs)
    with k1(2) have "\<exists>k2. parse_byte hk (length a) c k1 = Continue k2" by (auto split: flow.splits)
    then show ?thesis by (auto simp: parse_byte_def accepted_def split: ParserState.splits)
  qed
  with st1 st2 l(2) k(3) show ?thesis by blast
qed

text \<open>Any number of datagrams.\<close>

fun parse_chunks :: "'h hooks \<Rightarrow> 'h parser \<Rightarrow> string list \<Rightarrow> ParserState list \<times> 'h parser" where
  "parse_chunks hk p [] = ([], p)"
| "parse_chunks hk p (d # ds) =
     (case Parse hk p d of (st, p1) \<Rightarrow>
        (case parse_chunks hk p1 ds of (sts, p2) \<Rightarrow> (st # sts, p2)))"

lemma parse_chunks_accepted:
  assumes "Parse hk p (concat ds) = (st, q)" and "accepted st" and "index_free hk"
  shows "list_all accepted (fst (parse_chunks hk p ds))"
  using assms(1,2)
proof (induction ds arbitrary: p st q)
  case (Cons d ds)
  from Cons.prems(1) have "Parse hk p (d @ concat ds) = (st, q)" by simp
  from Parse_split[OF this Cons.prems(2) assms(3)] obtain st1 p1 q' where
    s: "Parse hk p d = (st1, p1)" "accepted st1" "Parse hk p1 (concat ds) = (st, q')" by blast
  from Cons.IH[OF s(3) Cons.prems(2)] s(1,2) show ?case
    by (cases "parse_chunks hk p1 ds") simp
qed simp

end
