(* ===== verification/Guard_Theorems.thy ===== *)
theory Guard_Theorems imports Guard_Runs Chunking begin

text \<open>
  What the guard promises, stated on its runs and on single datagrams. The proofs rest on the
  invariants of \<open>Guard_Runs\<close> and on the framer's contract as interpreted for the guard's parser.
\<close>

section \<open>The abstract filter of one datagram\<close>

fun policy_filter :: "int \<Rightarrow> instr list \<Rightarrow> instr list" where
  "policy_filter s [] = []"
| "policy_filter s (i # is) =
     (case policy s (elems i) of
        None \<Rightarrow> policy_filter s is
      | Some s' \<Rightarrow> i # policy_filter s' is)"

lemma spec_filter_policy: "spec_filter guard_hooks h is = policy_filter (clipboard_sidx h) is"
proof (induction "is" arbitrary: h)
  case (Cons i "is")
  from exec_policy[of h "elems i"] Cons.IH show ?case by (auto split: option.splits)
qed simp

fun policy_state :: "int \<Rightarrow> instr list \<Rightarrow> int" where
  "policy_state s [] = s"
| "policy_state s (i # is) = policy_state (case policy s (elems i) of None \<Rightarrow> s | Some s' \<Rightarrow> s') is"

lemma spec_state_policy: "clipboard_sidx (spec_state guard_hooks h is) = policy_state (clipboard_sidx h) is"
proof (induction "is" arbitrary: h)
  case (Cons i "is")
  from exec_policy[of h "elems i"] Cons.IH show ?case by (auto split: option.splits)
qed simp

lemma policy_filter_append:
  "policy_filter s (is @ js) = policy_filter s is @ policy_filter (policy_state s is) js"
  by (induction "is" arbitrary: s) (auto split: option.splits)

lemma policy_state_append: "policy_state s (is @ js) = policy_state (policy_state s is) js"
  by (induction "is" arbitrary: s) auto

lemma wire_eq_Nil: "wire is = [] \<longleftrightarrow> is = []"
  by (cases "is") (auto simp: wire_instr_def wire_elem_def)

section \<open>Example datagrams\<close>

abbreviation ex_rid :: string where "ex_rid \<equiv> ''0123456789ab''"

abbreviation recv_msg :: "channel \<Rightarrow> ChannelAction \<Rightarrow> string \<Rightarrow> event" where
  "recv_msg ch a p \<equiv> Recv (Inr (Serialize (mk_msg ch a p)))"

lemma guard_receive_msg:
  "length (payload m) \<le> MAX_PAYLOAD_SIZE \<Longrightarrow>
   guard_receive (Inr (Serialize m)) g = handle_datagram (Serialize m) g"
  by (simp add: guard_receive_def Receive_def Let_def size_defs)

lemma handle_msg:
  "length p \<le> MAX_PAYLOAD_SIZE \<Longrightarrow> handle_datagram (Serialize (mk_msg ch a p)) g =
     (case a of
        CREATE_CHANNEL \<Rightarrow> handle_create (Serialize (mk_msg ch a p)) (mk_msg ch a p) g
      | SHUTDOWN_CHANNEL \<Rightarrow> handle_shutdown (Serialize (mk_msg ch a p)) (mk_msg ch a p) g
      | _ \<Rightarrow> handle_payload (Serialize (mk_msg ch a p)) (mk_msg ch a p) g)"
  by (simp add: handle_datagram_def)

lemma exec_events_fst: "exec_events es s = Some (s', tr) \<Longrightarrow> map fst tr = es"
  by (induction es arbitrary: s tr) (auto split: option.splits)

text \<open>A concrete list of events gives a run; \<open>P\<close> is evaluated on it.\<close>

definition ran :: "event list \<Rightarrow> (gsys \<Rightarrow> (event \<times> string list) list \<Rightarrow> bool) \<Rightarrow> bool" where
  "ran es P = (case exec_events es new_gsys of None \<Rightarrow> False | Some (s, tr) \<Rightarrow> P s tr)"

lemma ranE:
  assumes "ran es P"
  obtains s tr where "guard_run tr s" "map fst tr = es" "P s tr"
proof (cases "exec_events es new_gsys")
  case None
  with assms show ?thesis by (simp add: ran_def)
next
  case (Some r)
  obtain s tr where r: "r = (s, tr)" by fastforce
  with Some assms show ?thesis
    by (intro that[of tr s] exec_events_run exec_events_fst[of es new_gsys s]) (simp_all add: ran_def)
qed

definition ex_session :: "event list" where
  "ex_session =
     [DenyCheck [], recv_msg 7 CREATE_CHANNEL ex_rid, DenyCheck [7],
      recv_msg 7 NONE ''4.sync;9.clipboard,1.3,10.text/plain;'', DenyCheck [7],
      recv_msg 7 NONE ''4.blob,1.3,4.aGk=;3.ke'']"

definition ex_bytes :: string where
  "ex_bytes = ''9.clipboard,1.3,10.text/plain;4.blob,1.3,4.aGk=;3.ke''"

definition ex_deny :: "event list" where
  "ex_deny = ex_session @ [Toggle (Inr '' Deny''), FlagDeny, DenyCheck [7]]"

lemma ex_session_runs:
  "ran ex_session (\<lambda>s tr. bytes (view_of 7 (sent tr)) = ex_bytes \<and> 7 \<in> approved (gst s))"
  by code_simp

lemma ex_session_inert: "list_all inert ex_session"
  by code_simp

lemma ex_deny_runs:
  "ran ex_deny (\<lambda>s tr. \<not> approve_flag (approver (gst s)) \<and> \<not> flag_pending s \<and>
     \<not> deny_teardown (gst s) \<and> verdict (view_of 7 (sent tr)) = Some True)"
  by code_simp

lemma ex_deny_inert: "list_all inert ex_deny"
  by code_simp

text \<open>What the invariant of a channel's stream says in terms of the policy.\<close>

lemma stream_policies:
  assumes "stream_ok g ch v"
  shows "\<exists>kept cur pt sidx.
    bytes v = wire kept @ wire_open cur @ wire_partial pt \<and>
    list_all (instr_ok guard_hooks) kept \<and> list_all (elem_ok guard_hooks) cur \<and>
    partial_ok guard_hooks pt \<and> policies (-1) (map elems kept) = Some sidx \<and>
    policy sidx (elems cur) \<noteq> None"
proof -
  from assms obtain cur pt h where "clean guard_hooks same_stream new_guard_fields (bytes v) cur pt h"
    by (auto simp: stream_ok_def)
  then show ?thesis
  proof (rule cleanE)
    fix kept hs
    assume k: "bytes v = wire kept @ wire_open cur @ wire_partial pt"
      "list_all (instr_ok guard_hooks) kept" "list_all (elem_ok guard_hooks) cur"
      "partial_ok guard_hooks pt" "exec_instrs guard_hooks new_guard_fields kept = Some hs"
      "if cur = [] then same_stream hs h else exec_instr guard_hooks hs (elems cur) = Some h"
    have "policies (-1) (map elems kept) = Some (clipboard_sidx hs)"
      using exec_policies[of new_guard_fields kept] k(5) by (simp add: new_guard_fields_def)
    moreover have "policy (clipboard_sidx hs) (elems cur) \<noteq> None"
      using exec_policy[of hs "elems cur"] k(6) by (cases "cur = []") (simp, metis option.simps(9) option.distinct(1))
    ultimately show ?thesis using k by blast
  qed
qed

section \<open>Properties of runs\<close>

text \<open>
  C14: over every run in which gmlbroker's side sends no \<open>APPROVAL\<close> frame, whatever bytes arrive and
  however the two threads interleave, the Guacamole bytes the guard has sent on a channel since its
  \<open>CREATE\<close> are whole well-formed instructions that the policy accepts in that order (allowed opcodes,
  blobs only on the open clipboard stream and within the cap), then one unfinished instruction whose
  closed elements the policy still accepts.
\<close>

theorem guard_stream_policy:
  assumes "guard_run tr s" and "\<forall>e\<in>set (map fst tr). inert e"
  shows "\<exists>kept cur pt sidx.
    bytes (view_of ch (sent tr)) = wire kept @ wire_open cur @ wire_partial pt \<and>
    list_all (instr_ok guard_hooks) kept \<and> list_all (elem_ok guard_hooks) cur \<and>
    partial_ok guard_hooks pt \<and> policies (-1) (map elems kept) = Some sidx \<and>
    policy sidx (elems cur) \<noteq> None"
proof -
  from guard_run_inv[OF assms] have "stream_ok (gst s) ch (view_of ch (sent tr))"
    by (simp add: sys_inv_def chan_inv_def)
  from stream_policies[OF this] show ?thesis .
qed

lemma guard_stream_policy_witness:
  "\<exists>kept cur pt sidx. ex_bytes = wire kept @ wire_open cur @ wire_partial pt \<and>
     policies (-1) (map elems kept) = Some sidx \<and> policy sidx (elems cur) \<noteq> None"
proof (rule ranE[OF ex_session_runs])
  fix s tr
  assume r: "guard_run tr s" "map fst tr = ex_session"
    "bytes (view_of 7 (sent tr)) = ex_bytes \<and> 7 \<in> approved (gst s)"
  then have "\<forall>e\<in>set (map fst tr). inert e" using ex_session_inert by (simp add: list_all_iff)
  from guard_stream_policy[OF r(1) this, of 7] r(3) show ?thesis by metis
qed

text \<open>
  C15: the approval gate. Over the same runs a channel is approved exactly while the last verdict sent
  for it is an approval and no \<open>SHUTDOWN\<close> followed; a denial is always followed by a \<open>SHUTDOWN\<close>;
  Guacamole bytes were sent only under an approval, and never after a \<open>SHUTDOWN\<close>.
\<close>

theorem guard_approval_gate:
  assumes "guard_run tr s" and "\<forall>e\<in>set (map fst tr). inert e"
  shows "let v = view_of ch (sent tr) in
    (ch \<in> approved (gst s) \<longleftrightarrow> verdict v = Some True \<and> \<not> closed v) \<and>
    (verdict v = Some False \<longrightarrow> closed v) \<and>
    (bytes v \<noteq> [] \<longrightarrow> verdict v = Some True) \<and> \<not> late v"
  using guard_run_inv[OF assms] by (simp add: sys_inv_def chan_inv_def session_ok_def Let_def)

lemma guard_approval_gate_witness:
  "\<exists>tr s. guard_run tr s \<and> bytes (view_of 7 (sent tr)) = ex_bytes \<and> \<not> closed (view_of 7 (sent tr)) \<and>
     verdict (view_of 7 (sent tr)) = Some True"
proof (rule ranE[OF ex_session_runs])
  fix s tr
  assume r: "guard_run tr s" "map fst tr = ex_session"
    "bytes (view_of 7 (sent tr)) = ex_bytes \<and> 7 \<in> approved (gst s)"
  then have "\<forall>e\<in>set (map fst tr). inert e" using ex_session_inert by (simp add: list_all_iff)
  from guard_approval_gate[OF r(1) this, of 7] r show ?thesis by (auto simp: Let_def)
qed

text \<open>
  C32: a global deny disconnects. Whatever arrives and however the control thread interleaves with the
  main loop, once the switch is on deny and the flag has been stored and acted on, no channel is
  approved.
\<close>

theorem guard_deny_disconnects:
  assumes "guard_run tr s" and "\<not> approve_flag (approver (gst s))" and "\<not> flag_pending s"
    and "\<not> deny_teardown (gst s)"
  shows "approved (gst s) = {}"
  using deny_run_inv[OF assms(1)] assms(2-4) by (simp add: deny_inv_def)

lemma guard_deny_disconnects_witness:
  "\<exists>tr s. guard_run tr s \<and> map fst tr = ex_deny \<and> approved (gst s) = {}"
proof (rule ranE[OF ex_deny_runs])
  fix s tr
  assume r: "guard_run tr s" "map fst tr = ex_deny"
    "\<not> approve_flag (approver (gst s)) \<and> \<not> flag_pending s \<and>
     \<not> deny_teardown (gst s) \<and> verdict (view_of 7 (sent tr)) = Some True"
  from guard_deny_disconnects[OF r(1)] r show ?thesis by blast
qed

text \<open>
  Acting on the deny flag sends one \<open>SHUTDOWN\<close> for every approved channel, in the set's order,
  forgets their parsers, clears the approvals and takes the flag down.
\<close>

theorem guard_teardown_all:
  assumes "deny_teardown g" and "traverses order (approved g)" and "act_on_deny order g = (g', out)"
  shows "out = map shutdown_wire order \<and> approved g' = {} \<and> \<not> deny_teardown g' \<and>
    (\<forall>ch. parsers g' ch = (if ch \<in> approved g then None else parsers g ch))"
  using assms by (auto simp: act_on_deny_def teardown_loop_eq traverses_def)

definition ex_flagged :: guard where
  "ex_flagged = new_guard\<lparr>approved := {5, 3}, deny_teardown := True\<rparr>"

lemma guard_teardown_all_witness:
  "snd (act_on_deny [3, 5] ex_flagged) = [shutdown_wire 3, shutdown_wire 5]"
proof -
  have "deny_teardown ex_flagged" "traverses [3, 5] (approved ex_flagged)"
    by (simp_all add: ex_flagged_def traverses_def insert_commute)
  from guard_teardown_all[OF this] show ?thesis by (cases "act_on_deny [3, 5] ex_flagged") simp
qed

text \<open>
  Every datagram the guard ever sends is a serialised bridge message within the payload limit,
  whatever it receives (\<open>APPROVAL\<close> frames, truncated or malformed datagrams included).
\<close>

theorem guard_sends_well_formed:
  assumes "guard_run tr s" and "d \<in> set (sent tr)"
  shows "\<exists>m. d = Serialize m \<and> length (payload m) \<le> MAX_PAYLOAD_SIZE"
proof -
  from guard_run_wf[OF assms(1)] assms(2) obtain m where "TryCast (Some d) = Some m"
    by (auto simp: sends_well_def list_all_iff)
  with TryCast_SomeD show ?thesis by metis
qed

lemma guard_sends_well_formed_witness:
  "\<exists>tr s d. guard_run tr s \<and> d \<in> set (sent tr) \<and>
     (\<exists>m. d = Serialize m \<and> length (payload m) \<le> MAX_PAYLOAD_SIZE)"
proof (rule ranE[OF ex_session_runs])
  fix s tr
  assume r: "guard_run tr s" "bytes (view_of 7 (sent tr)) = ex_bytes \<and> 7 \<in> approved (gst s)"
  then have "sent tr \<noteq> []" by (auto simp: view_of_def new_view_def ex_bytes_def)
  then obtain d where "d \<in> set (sent tr)" by (cases "sent tr") auto
  with guard_sends_well_formed[OF r(1) this] r(1) show ?thesis by blast
qed

section \<open>Properties of single datagrams\<close>

text \<open>
  The two hooks of \<open>GuardOpcodeParser\<close>, run over the elements of one instruction from any state,
  accept it exactly when the policy does, and leave the open clipboard stream the policy says.
\<close>

theorem guard_hooks_policy:
  "map_option clipboard_sidx (exec_instr guard_hooks h es) = policy (clipboard_sidx h) es"
  by (rule exec_policy)

lemma instrs_payload:
  assumes ap: "ch \<in> approved g" "ch \<notin> poisoned g" and p: "parsers g ch = Some p" "at_pos p [] (PLen [])"
    and ok: "list_all (instr_ok guard_hooks) is"
  shows "\<exists>p'. handle_payload (Serialize (mk_msg ch NONE (wire is))) (mk_msg ch NONE (wire is)) g =
     (g\<lparr>parsers := (parsers g)(ch := Some p')\<rparr>,
      let kept = policy_filter (clipboard_sidx (sub p)) is in
      if kept = [] \<and> is \<noteq> [] then [] else [Serialize (mk_msg ch NONE (wire kept))]) \<and>
     at_pos p' [] (PLen []) \<and> clipboard_sidx (sub p') = policy_state (clipboard_sidx (sub p)) is"
proof -
  obtain st q where res: "Parse guard_hooks p (wire is) = (st, q)" by fastforce
  from guardf.Parse_instrs[OF p(2) _ ok res, of "sub p"] have
    q: "at_pos q [] (PLen [])" "ranges_ok 0 (denied_ranges q) (length (wire is))"
      "cut_ranges (denied_ranges q) 0 (wire is) = wire (policy_filter (clipboard_sidx (sub p)) is)"
      "st = (if denied_ranges q = [] then READING_LENGTH else DENIED_DATA)"
      "denied_ranges q = [] \<longleftrightarrow> policy_filter (clipboard_sidx (sub p)) is = is"
      "clipboard_sidx (sub q) = policy_state (clipboard_sidx (sub p)) is"
    by (auto simp: same_stream_def spec_filter_policy spec_state_policy)
  let ?m = "mk_msg ch NONE (wire is)"
  have "st \<noteq> STREAM_CORRUPTED" "st \<noteq> DENIED_DATA \<Longrightarrow> denied_ranges q = []"
    using q(4) by (auto split: if_splits)
  with payload_state[of ?m g st q] ap p(1) res q(2) obtain p' where
    h: "handle_payload (Serialize ?m) ?m g = (g\<lparr>parsers := (parsers g)(ch := Some p')\<rparr>,
          let rest = cut_ranges (denied_ranges q) 0 (wire is) in
          if st = DENIED_DATA \<and> rest = [] then [] else [Serialize (?m\<lparr>payload := rest\<rparr>)])"
    and p': "p' = q\<lparr>denied_ranges := []\<rparr>"
    by (auto simp: parser_at_def)
  have "st = DENIED_DATA \<longleftrightarrow> is \<noteq> []" if "wire (policy_filter (clipboard_sidx (sub p)) is) = []"
    using q(4,5) that by (auto simp: wire_eq_Nil split: if_splits)
  with h p' q(1,3,6) show ?thesis
    by (intro exI[of _ p']) (auto simp: Let_def wire_eq_Nil)
qed

text \<open>
  C18: functional correctness of the filter. A \<open>NONE\<close> datagram of whole well-formed instructions on an
  approved channel that stands between instructions is never treated as corrupt: the guard sends one
  datagram with exactly the instructions the policy accepts, spelled as they came (none when all are
  denied), and the channel stays approved and between instructions.
\<close>

theorem guard_filters_instructions:
  assumes "ch \<in> approved g" and "ch \<notin> poisoned g" and "parsers g ch = Some p"
    and "at_pos p [] (PLen [])" and "list_all (instr_ok guard_hooks) is"
    and "length (wire is) \<le> MAX_PAYLOAD_SIZE"
  shows "\<exists>p'. handle_datagram (Serialize (mk_msg ch NONE (wire is))) g =
     (g\<lparr>parsers := (parsers g)(ch := Some p')\<rparr>,
      let kept = policy_filter (clipboard_sidx (sub p)) is in
      if kept = [] \<and> is \<noteq> [] then [] else [Serialize (mk_msg ch NONE (wire kept))]) \<and>
     at_pos p' [] (PLen [])"
  using instrs_payload[OF assms(1-5)] assms(6) by (auto simp add: handle_msg simp del: at_pos.simps)

definition ex_instrs :: "instr list" where
  "ex_instrs = [[(''4'', ''sync''), (''1'', ''9'')], [(''3'', ''key''), (''2'', ''65''), (''1'', ''1'')]]"

definition ex_open :: guard where
  "ex_open = new_guard\<lparr>approved := {7}, parsers := [7 \<mapsto> new_parser new_guard_fields]\<rparr>"

lemma guard_filters_instructions_witness:
  "snd (handle_datagram (Serialize (mk_msg 7 NONE (wire ex_instrs))) ex_open) =
     [Serialize (mk_msg 7 NONE ''3.key,2.65,1.1;'')]"
proof -
  have "list_all (instr_ok guard_hooks) ex_instrs" by code_simp
  moreover have "length (wire ex_instrs) \<le> MAX_PAYLOAD_SIZE" by code_simp
  moreover have "wire (policy_filter (-1) ex_instrs) = ''3.key,2.65,1.1;''" "policy_filter (-1) ex_instrs \<noteq> []"
    by code_simp+
  ultimately show ?thesis
    using guard_filters_instructions[of 7 ex_open "new_parser new_guard_fields" ex_instrs]
    by (auto simp: ex_open_def new_guard_def new_guard_fields_def Let_def simp del: at_pos.simps)
qed

lemma policies_filter: "policies s (map elems is) \<noteq> None \<Longrightarrow> policy_filter s is = is"
  by (induction "is" arbitrary: s) (auto split: option.splits)


definition ex_chunks :: "string list" where
  "ex_chunks = [''3.k'', ''ey,2.6'', ''5,1.1;'']"


definition ex_bypass :: "event list" where
  "ex_bypass =
     [DenyCheck [], recv_msg 7 CREATE_CHANNEL ex_rid, DenyCheck [7],
      recv_msg 7 APPROVAL ''3.key,7.'', DenyCheck [7], recv_msg 7 NONE ''4.sync;'', DenyCheck [7],
      recv_msg 7 APPROVAL '';'']"

lemma ex_bypass_runs:
  "ran ex_bypass (\<lambda>s tr. bytes (view_of 7 (sent tr)) = wire [[(''4'', ''sync'')]] \<and>
     7 \<in> approved (gst s))"
  by code_simp

text \<open>
  The gate has a hole for \<open>APPROVAL\<close> frames. The \<open>default\<close> case runs their payload through the
  channel's parser and forwards it, while a receiver that takes only \<open>NONE\<close> payloads as Guacamole sees
  the other bytes alone. There is a run in which the \<open>NONE\<close> bytes sent on an approved channel are the
  whole instruction \<open>4.sync;\<close>, which the policy denies.
\<close>

theorem guard_approval_frames_bypass:
  "\<exists>tr s is. guard_run tr s \<and> 7 \<in> approved (gst s) \<and>
     bytes (view_of 7 (sent tr)) = wire is \<and> list_all (instr_ok guard_hooks) is \<and>
     policies (-1) (map elems is) = None"
proof (rule ranE[OF ex_bypass_runs])
  fix s tr
  assume r: "guard_run tr s"
    "bytes (view_of 7 (sent tr)) = wire [[(''4'', ''sync'')]] \<and> 7 \<in> approved (gst s)"
  have "list_all (instr_ok guard_hooks) [[(''4'', ''sync'')]]"
    "policies (-1) (map elems [[(''4'', ''sync'')]]) = None" by code_simp+
  with r show ?thesis by blast
qed

end
