(* ===== verification/Observer.thy ===== *)
theory Observer imports Instr_Filter Chunking begin

text \<open>
  The contract of a subclass of \<open>OpcodeParser\<close> that denies nothing and only watches, as a locale. On
  whole instructions the framer then runs the hooks in order (\<open>obs_instrs\<close>), keeps every byte, and ends
  at a boundary; and invariants of the hooks are invariants of the framer on any input.
\<close>

section \<open>Hooks over whole instructions\<close>

fun obs_args :: "'h hooks \<Rightarrow> 'h \<Rightarrow> string list \<Rightarrow> 'h" where
  "obs_args hk h [] = h"
| "obs_args hk h (a # as) = obs_args hk (snd (OnArgument hk a h)) as"

fun obs_elems :: "'h hooks \<Rightarrow> 'h \<Rightarrow> string list \<Rightarrow> 'h" where
  "obs_elems hk h [] = h"
| "obs_elems hk h (opcode # as) = obs_args hk (snd (OnInstructionBegin hk opcode h)) as"

text \<open>\<open>i\<close> is the index of the instruction's first byte in the call; its \<open>;\<close> ends it.\<close>

definition obs_instr :: "'h hooks \<Rightarrow> nat \<Rightarrow> 'h \<Rightarrow> instr \<Rightarrow> 'h" where
  "obs_instr hk i h es =
     OnInstructionEnd hk (i + length (wire_instr es) - 1) (obs_elems hk h (elems es))"

fun obs_instrs :: "'h hooks \<Rightarrow> nat \<Rightarrow> 'h \<Rightarrow> instr list \<Rightarrow> 'h" where
  "obs_instrs hk i h [] = h"
| "obs_instrs hk i h (x # xs) = obs_instrs hk (i + length (wire_instr x)) (obs_instr hk i h x) xs"

lemma obs_args_snoc: "obs_args hk h (as @ [a]) = snd (OnArgument hk a (obs_args hk h as))"
  by (induction as arbitrary: h) auto

lemma obs_elems_snoc:
  "obs_elems hk h (elems cur @ [clamp v]) = snd (on_element hk cur v (obs_elems hk h (elems cur)))"
  by (cases cur) (auto simp: on_element_def elems_def obs_args_snoc)

locale observer =
  fixes hk :: "'h hooks"
  assumes allow_begin: "fst (OnInstructionBegin hk e h)"
    and allow_arg: "fst (OnArgument hk e h)"
begin

lemma allow_element: "on_element hk cur v h = (True, snd (on_element hk cur v h))"
  using allow_begin[of "clamp v" h] allow_arg[of "clamp v" h]
  by (auto simp: on_element_def prod_eq_iff)

lemma obs_delim:
  assumes pos: "at_pos (obj k) cur (PVal ds bs)" and ok: "elem_ok hk (ds, bs)" and c: "is_delim c"
    and q: "quiet k" and st: "sub (obj k) = obs_elems hk h (elems cur)"
  shows "\<exists>k'. parse_byte hk j c k = Continue k' \<and> at_pos (obj k') (after_delim c cur (ds, bs)) (PLen []) \<and>
    quiet k' \<and> sub (obj k') =
      (let h' = obs_elems hk h (elems (cur @ [(ds, bs)])) in
       if c = CHR '';'' then OnInstructionEnd hk j h' else h')"
proof -
  from ok have cmp: "complete (PVal ds bs)" and lim: "int (length bs) \<le> limit hk"
    by (auto simp: elem_ok_def)
  from q have nd: "\<not> denying k" by (simp add: quiet_def)
  from step_delim_allowed[OF pos cmp c lim nd allow_element, of j] obtain k' where
    k': "parse_byte hk j c k = Continue k'" "at_pos (obj k') (after_delim c cur (ds, bs)) (PLen [])"
      "sub (obj k') = (if c = CHR '';'' then OnInstructionEnd hk j (snd (on_element hk cur bs (sub (obj k))))
                       else snd (on_element hk cur bs (sub (obj k))))"
      "\<not> denying k'" "denied_ranges (obj k') = denied_ranges (obj k)" by blast
  then show ?thesis
    using q st obs_elems_snoc[of hk h cur bs] by (auto simp: quiet_def Let_def)
qed

lemma obs_open:
  assumes pos: "at_pos (obj k) [] (PLen [])" and q: "quiet k" and ok: "list_all (elem_ok hk) es"
  shows "\<exists>k'. parse_loop hk i (wire_open es) k = Continue k' \<and> at_pos (obj k') es (PLen []) \<and>
    quiet k' \<and> sub (obj k') = obs_elems hk (sub (obj k)) (elems es)"
  using ok
proof (induction es rule: rev_induct)
  case Nil
  with pos q show ?case by simp
next
  case (snoc e es)
  obtain ds bs where e: "e = (ds, bs)" by (cases e)
  from snoc.prems e have ok: "list_all (elem_ok hk) es" "elem_ok hk (ds, bs)" by auto
  from snoc.IH[OF ok(1)] obtain k1 where
    k1: "parse_loop hk i (wire_open es) k = Continue k1" "at_pos (obj k1) es (PLen [])" "quiet k1"
      "sub (obj k1) = obs_elems hk (sub (obj k)) (elems es)" by blast
  let ?j = "i + length (wire_open es)"
  from run_elem[OF k1(2) ok(2), of ?j] obtain k2 where
    k2: "parse_loop hk ?j (wire_elem (ds, bs)) k1 = Continue k2" "at_pos (obj k2) es (PVal ds bs)"
      "frame_same k1 k2" by blast
  from k2(3) k1(3,4) have q2: "quiet k2" "sub (obj k2) = obs_elems hk (sub (obj k)) (elems es)"
    by (auto simp: frame_same_def quiet_def)
  from obs_delim[OF k2(2) ok(2) _ q2, of "CHR '',''" "?j + length (wire_elem (ds, bs))"]
  obtain k3 where
    k3: "parse_byte hk (?j + length (wire_elem (ds, bs))) (CHR '','') k2 = Continue k3"
      "at_pos (obj k3) (es @ [(ds, bs)]) (PLen [])" "quiet k3"
      "sub (obj k3) = obs_elems hk (sub (obj k)) (elems (es @ [(ds, bs)]))"
    by (auto simp: is_delim_def after_delim_def Let_def)
  have "parse_loop hk i (wire_open (es @ [e])) k = Continue k3"
    using k1(1) k2(1) k3(1) by (simp add: e parse_loop_append add.assoc)
  with k3 show ?case by (auto simp: e simp del: elems_simps)
qed

lemma obs_run_instr:
  assumes pos: "at_pos (obj k) [] (PLen [])" and q: "quiet k" and ok: "instr_ok hk es"
  shows "\<exists>k'. parse_loop hk i (wire_instr es) k = Continue k' \<and> at_pos (obj k') [] (PLen []) \<and>
    quiet k' \<and> sub (obj k') = obs_instr hk i (sub (obj k)) es"
proof -
  from ok have "es \<noteq> []" by (simp add: instr_ok_def)
  then obtain cur ds bs where es: "es = cur @ [(ds, bs)]" by (metis prod.exhaust rev_exhaust)
  with ok have oks: "list_all (elem_ok hk) cur" "elem_ok hk (ds, bs)" by (auto simp: instr_ok_def)
  from obs_open[OF pos q oks(1), of i] obtain k1 where
    k1: "parse_loop hk i (wire_open cur) k = Continue k1" "at_pos (obj k1) cur (PLen [])" "quiet k1"
      "sub (obj k1) = obs_elems hk (sub (obj k)) (elems cur)" by blast
  let ?j = "i + length (wire_open cur)"
  from run_elem[OF k1(2) oks(2), of ?j] obtain k2 where
    k2: "parse_loop hk ?j (wire_elem (ds, bs)) k1 = Continue k2" "at_pos (obj k2) cur (PVal ds bs)"
      "frame_same k1 k2" by blast
  from k2(3) k1(3,4) have q2: "quiet k2" "sub (obj k2) = obs_elems hk (sub (obj k)) (elems cur)"
    by (auto simp: frame_same_def quiet_def)
  let ?e = "?j + length (wire_elem (ds, bs))"
  have idx: "?e = i + length (wire_instr es) - 1" by (simp add: es)
  from obs_delim[OF k2(2) oks(2) _ q2, of "CHR '';''" ?e] obtain k3 where
    k3: "parse_byte hk ?e (CHR '';'') k2 = Continue k3" "at_pos (obj k3) [] (PLen [])" "quiet k3"
      "sub (obj k3) = obs_instr hk i (sub (obj k)) es"
    unfolding obs_instr_def idx[symmetric] es[symmetric]
    by (auto simp: is_delim_def after_delim_def Let_def)
  have "parse_loop hk i (wire_instr es) k = Continue k3"
    using k1(1) k2(1) k3(1) by (simp add: es parse_loop_append add.assoc)
  with k3 show ?thesis by blast
qed

lemma obs_run_instrs:
  assumes "at_pos (obj k) [] (PLen [])" and "quiet k" and "list_all (instr_ok hk) is"
  shows "\<exists>k'. parse_loop hk i (wire is) k = Continue k' \<and> at_pos (obj k') [] (PLen []) \<and>
    quiet k' \<and> sub (obj k') = obs_instrs hk i (sub (obj k)) is"
  using assms
proof (induction "is" arbitrary: i k)
  case Nil
  then show ?case by simp
next
  case (Cons x xs)
  from Cons.prems have ok: "instr_ok hk x" "list_all (instr_ok hk) xs" by simp_all
  from obs_run_instr[OF Cons.prems(1,2) ok(1), of i] obtain k1 where
    k1: "parse_loop hk i (wire_instr x) k = Continue k1" "at_pos (obj k1) [] (PLen [])" "quiet k1"
      "sub (obj k1) = obs_instr hk i (sub (obj k)) x" by blast
  from Cons.IH[OF k1(2,3) ok(2), of "i + length (wire_instr x)"] k1 show ?case
    by (auto simp: parse_loop_append)
qed

lemma Parse_observes:
  assumes pos: "at_pos p [] (PLen [])" and ok: "list_all (instr_ok hk) is"
  shows "\<exists>p'. Parse hk p (wire is) = (READING_LENGTH, p') \<and> at_pos p' [] (PLen []) \<and>
    denied_ranges p' = [] \<and> sub p' = obs_instrs hk 0 (sub p) is"
proof -
  have "at_pos (obj (start_call p)) [] (PLen [])" "quiet (start_call p)"
    using pos by (simp_all add: start_call_def quiet_def)
  from obs_run_instrs[OF this ok, of 0] show ?thesis
    by (auto simp: Parse_def finish_call_def quiet_def start_call_def)
qed

end

section \<open>Invariants of the hooks\<close>

definition hooks_keep :: "'h hooks \<Rightarrow> ('h \<Rightarrow> bool) \<Rightarrow> bool" where
  "hooks_keep hk P \<longleftrightarrow>
     (\<forall>e h. P h \<longrightarrow> P (snd (OnInstructionBegin hk e h)) \<and> P (snd (OnArgument hk e h))) \<and>
     (\<forall>i h. P h \<longrightarrow> P (OnInstructionEnd hk i h))"

fun flow_sub :: "'h flow \<Rightarrow> 'h" where
  "flow_sub (Return p) = sub p"
| "flow_sub (Continue k) = sub (obj k)"

lemma handle_element_keep:
  assumes "hooks_keep hk P" and "P (sub (obj k))"
  shows "P (flow_sub (handle_element hk k))"
proof -
  from assms have "P (snd (OnInstructionBegin hk e (sub (obj k))))" "P (snd (OnArgument hk e (sub (obj k))))" for e
    unfolding hooks_keep_def by blast+
  with assms(2) show ?thesis by (simp add: handle_element_def Let_def)
qed

lemma step_keep:
  assumes hk: "hooks_keep hk P" and p: "P (sub (obj k))"
  shows "P (flow_sub (parse_byte hk i c k))"
proof -
  have "P (flow_sub (step_length hk i c l))" if "sub (obj l) = sub (obj k)" for l
    using p that by (auto simp: step_length_def first_digit_def Let_def)
  moreover have "P (flow_sub (step_data c l))" if "sub (obj l) = sub (obj k)" for l
    using p that by (auto simp: step_data_def Let_def)
  moreover have "P (flow_sub (step_delim hk i c l))" if "sub (obj l) = sub (obj k)" for l
  proof (cases "handle_element hk l")
    case (Return q)
    with handle_element_keep[OF hk, of l] p that show ?thesis by (auto simp: step_delim_def)
  next
    case (Continue l1)
    with handle_element_keep[OF hk, of l] p that have "P (sub (obj l1))" by simp
    moreover from this hk have "P (OnInstructionEnd hk j (sub (obj l1)))" for j
      unfolding hooks_keep_def by blast
    ultimately show ?thesis
      using p that by (simp add: step_delim_def end_instruction_def Let_def Continue)
  qed
  ultimately show ?thesis
    using p by (cases "pstate (obj k)") (simp_all add: parse_byte_def)
qed

lemma loop_keep: "hooks_keep hk P \<Longrightarrow> P (sub (obj k)) \<Longrightarrow> P (flow_sub (parse_loop hk i cs k))"
proof (induction cs arbitrary: i k)
  case (Cons c cs)
  from step_keep[OF Cons.prems, of i c] Cons.IH[OF Cons.prems(1)] show ?case
    by (auto split: flow.splits)
qed simp

lemma finish_sub: "sub (snd (finish_call r)) = flow_sub r"
  by (cases r) (simp_all add: finish_call_def)

lemma Parse_keep: "hooks_keep hk P \<Longrightarrow> P (sub p) \<Longrightarrow> P (sub (snd (Parse hk p data)))"
  unfolding Parse_def finish_sub by (rule loop_keep) (simp_all add: start_call_def)

end
