(* ===== verification/Resync.thy ===== *)
theory Resync imports Observer begin

text \<open>
  The fail-open loop that \<open>SyncFaker::Feed\<close> and \<open>ClipboardAckFaker::Feed\<close> share line for line: parse, and
  when the framer gives up skip the byte that tripped it, reset, and go on behind it. The lemmas: the
  loop ends, never leaves the parser corrupted, and for an observer whose hooks only append to an
  accumulator its result does not depend on how the stream is cut into reads.
\<close>

function resync :: "'h hooks \<Rightarrow> 'h parser \<Rightarrow> string \<Rightarrow> nat \<Rightarrow> 'h parser" where
  "resync hk p data off =
     (if off < length data then
        (case Parse hk p (drop off data) of
           (st, p1) \<Rightarrow>
             if st \<noteq> STREAM_CORRUPTED then p1
             else resync hk (Reset p1) data (off + (current_index p1 + 1)))
      else p)"
  by pat_completeness auto
termination by (relation "measure (\<lambda>(_, _, data, off). length data - off)") auto

declare resync.simps [simp del]

lemma resync_accepted:
  "Parse hk p data = (st, q) \<Longrightarrow> st \<noteq> STREAM_CORRUPTED \<Longrightarrow> data \<noteq> [] \<Longrightarrow> resync hk p data 0 = q"
  by (subst resync.simps) simp

lemma resync_Nil: "resync hk p [] off = p"
  by (subst resync.simps) simp

lemma resync_keep: "hooks_keep hk P \<Longrightarrow> P (sub p) \<Longrightarrow> P (sub (resync hk p data off))"
proof (induction hk p data off rule: resync.induct)
  case (1 hk p data off)
  show ?case
  proof (cases "off < length data")
    case False
    with 1(3) show ?thesis by (subst resync.simps) simp
  next
    case True
    obtain st p1 where r: "Parse hk p (drop off data) = (st, p1)" by fastforce
    have p1: "P (sub p1)" using Parse_keep[OF 1(2,3), of "drop off data"] r by simp
    then have "P (sub (Reset p1))" by (simp add: Reset_def)
    with True r p1 1(1)[OF True r[symmetric] _ 1(2)] show ?thesis
      by (subst resync.simps) (simp split: if_splits)
  qed
qed

section \<open>The parser is usable afterwards\<close>

text \<open>No method of an observer can leave the object in one of the two terminal states.\<close>

definition usable :: "'h parser \<Rightarrow> bool" where
  "usable p \<longleftrightarrow> accepted (pstate p) \<and> denied_ranges p = []"

lemma usable_new [simp]: "usable (new_parser h)"
  by (simp add: usable_def new_parser_def accepted_def)

lemma usable_Reset [simp]: "usable (Reset p)"
  by (simp add: usable_def Reset_def accepted_def)

lemma handle_element_observer:
  assumes "observer hk" and "handle_element hk k = Continue k'" and "\<not> denying k"
  shows "\<not> denying k' \<and> denied_ranges (obj k') = denied_ranges (obj k)"
  using assms(2,3) observer.allow_begin[OF assms(1)] observer.allow_arg[OF assms(1)]
  by (auto simp: handle_element_def Let_def split: if_splits)

lemma step_quiet:
  assumes obs: "observer hk" and q: "quiet k" and st: "parse_byte hk i c k = Continue k'"
  shows "quiet k'"
proof (cases "pstate (obj k)")
  case READING_LENGTH
  with q st show ?thesis
    by (auto simp: parse_byte_def step_length_def first_digit_def quiet_def Let_def split: if_splits)
next
  case READING_DATA
  with q st show ?thesis
    by (auto simp: parse_byte_def step_data_def quiet_def Let_def split: if_splits)
next
  case EXPECT_DELIM
  let ?k = "k\<lparr>obj := (obj k)\<lparr>current_index := i\<rparr>\<rparr>"
  from EXPECT_DELIM st have "step_delim hk i c ?k = Continue k'" by (simp add: parse_byte_def)
  then obtain k1 where k1: "handle_element hk ?k = Continue k1"
    and k': "\<exists>k2. k2 = (if c = CHR '';'' then end_instruction hk i k1 else k1) \<and>
                   k' = k2\<lparr>obj := (obj k2)\<lparr>current_length := -1, pstate := READING_LENGTH\<rparr>\<rparr>"
    by (auto simp: step_delim_def Let_def split: if_splits flow.splits)
  from handle_element_observer[OF obs k1] q have "quiet k1" by (simp add: quiet_def)
  with k' show ?thesis by (auto simp: quiet_def end_instruction_def Let_def)
qed (use st in \<open>simp_all add: parse_byte_def\<close>)

lemma loop_quiet: "observer hk \<Longrightarrow> quiet k \<Longrightarrow> parse_loop hk i cs k = Continue k' \<Longrightarrow> quiet k'"
proof (induction cs arbitrary: i k)
  case (Cons c cs)
  from Cons.prems(3) obtain k1 where "parse_byte hk i c k = Continue k1" "parse_loop hk (Suc i) cs k1 = Continue k'"
    by (auto split: flow.splits)
  with step_quiet[OF Cons.prems(1,2)] Cons.IH[OF Cons.prems(1)] show ?case by blast
qed simp

lemma step_accepted:
  assumes "parse_byte hk i c k = Continue k'"
  shows "accepted (pstate (obj k'))"
  using assms
  by (auto simp: parse_byte_def step_length_def first_digit_def step_data_def step_delim_def accepted_def
      Let_def split: ParserState.splits if_splits flow.splits)

lemma loop_accepted:
  "accepted (pstate (obj k)) \<Longrightarrow> parse_loop hk i cs k = Continue k' \<Longrightarrow> accepted (pstate (obj k'))"
  by (induction cs arbitrary: i k) (auto split: flow.splits dest: step_accepted)

lemma Return_corrupt:
  "parse_byte hk i c k = Return p \<Longrightarrow> pstate p = STREAM_CORRUPTED \<or> \<not> accepted (pstate (obj k))"
  by (auto simp: parse_byte_def step_length_def step_data_def step_delim_def handle_element_def
      Let_def accepted_def split: ParserState.splits if_splits flow.splits)

lemma loop_Return_corrupt:
  "accepted (pstate (obj k)) \<Longrightarrow> parse_loop hk i cs k = Return p \<Longrightarrow> pstate p = STREAM_CORRUPTED"
  by (induction cs arbitrary: i k) (auto split: flow.splits dest: step_accepted Return_corrupt)

lemma Parse_usable:
  assumes obs: "observer hk" and us: "usable p" and res: "Parse hk p data = (st, q)"
  shows "st = STREAM_CORRUPTED \<or> usable q"
proof (cases "parse_loop hk 0 data (start_call p)")
  case (Return r)
  with loop_Return_corrupt[of "start_call p"] us res show ?thesis
    by (auto simp: Parse_def finish_call_def start_call_def usable_def)
next
  case (Continue k)
  have "quiet (start_call p)" by (simp add: start_call_def quiet_def)
  from loop_quiet[OF obs this Continue] have "quiet k" .
  moreover have "accepted (pstate (obj k))"
    using loop_accepted[of "start_call p"] Continue us by (auto simp: start_call_def usable_def)
  ultimately show ?thesis
    using res Continue by (auto simp: Parse_def finish_call_def quiet_def usable_def)
qed

lemma resync_usable: "observer hk \<Longrightarrow> usable p \<Longrightarrow> usable (resync hk p data off)"
proof (induction hk p data off rule: resync.induct)
  case (1 hk p data off)
  show ?case
  proof (cases "off < length data")
    case True
    obtain st p1 where res: "Parse hk p (drop off data) = (st, p1)" by fastforce
    from Parse_usable[OF "1.prems" res] "1.IH"[OF True res[symmetric]] "1.prems" show ?thesis
      by (subst resync.simps) (auto simp: True res)
  next
    case False
    with "1.prems" show ?thesis by (subst resync.simps) simp
  qed
qed

section \<open>Hooks that commute with a change of the subclass's state\<close>

definition map_sub :: "('h \<Rightarrow> 'h) \<Rightarrow> 'h parser \<Rightarrow> 'h parser" where
  "map_sub f p = p\<lparr>sub := f (sub p)\<rparr>"

definition commutes :: "'h hooks \<Rightarrow> ('h \<Rightarrow> 'h) \<Rightarrow> bool" where
  "commutes hk f \<longleftrightarrow>
     (\<forall>e h. OnInstructionBegin hk e (f h) = map_prod id f (OnInstructionBegin hk e h)) \<and>
     (\<forall>e h. OnArgument hk e (f h) = map_prod id f (OnArgument hk e h)) \<and>
     (\<forall>i h. OnInstructionEnd hk i (f h) = f (OnInstructionEnd hk i h))"

definition map_call :: "('h \<Rightarrow> 'h) \<Rightarrow> 'h call \<Rightarrow> 'h call" where
  "map_call f k = k\<lparr>obj := map_sub f (obj k)\<rparr>"

fun map_flow :: "('h \<Rightarrow> 'h) \<Rightarrow> 'h flow \<Rightarrow> 'h flow" where
  "map_flow f (Return p) = Return (map_sub f p)"
| "map_flow f (Continue k) = Continue (map_call f k)"

lemma map_sub_simps [simp]:
  "pstate (map_sub f p) = pstate p" "current_length (map_sub f p) = current_length p"
  "current_read (map_sub f p) = current_read p" "reading_opcode (map_sub f p) = reading_opcode p"
  "element_buffer (map_sub f p) = element_buffer p" "opcode_start_idx (map_sub f p) = opcode_start_idx p"
  "denied_ranges (map_sub f p) = denied_ranges p" "sub (map_sub f p) = f (sub p)"
  "current_index (map_sub f p) = current_index p"
  by (simp_all add: map_sub_def)

lemma map_call_simps [simp]:
  "obj (map_call f k) = map_sub f (obj k)" "denying (map_call f k) = denying k"
  "opcode_in_this_call (map_call f k) = opcode_in_this_call k"
  by (simp_all add: map_call_def)

lemma map_step_length: "step_length hk i c (map_call f k) = map_flow f (step_length hk i c k)"
  by (simp add: step_length_def first_digit_def Let_def map_call_def map_sub_def)

lemma map_step_data: "step_data c (map_call f k) = map_flow f (step_data c k)"
  by (simp add: step_data_def Let_def map_call_def map_sub_def)

lemma map_handle_element:
  "commutes hk f \<Longrightarrow> handle_element hk (map_call f k) = map_flow f (handle_element hk k)"
  by (simp add: handle_element_def Let_def current_element_def commutes_def map_call_def map_sub_def)

lemma map_end_instruction:
  "commutes hk f \<Longrightarrow> end_instruction hk i (map_call f k) = map_call f (end_instruction hk i k)"
  by (simp add: end_instruction_def Let_def commutes_def map_call_def map_sub_def)

lemma map_step_delim:
  "commutes hk f \<Longrightarrow> step_delim hk i c (map_call f k) = map_flow f (step_delim hk i c k)"
proof (cases "handle_element hk k")
  case (Return p)
  assume "commutes hk f"
  with Return map_handle_element[of hk f k] show ?thesis
    by (simp add: step_delim_def map_call_def map_sub_def)
next
  case (Continue k1)
  assume c: "commutes hk f"
  with Continue map_handle_element[of hk f k] map_end_instruction[of hk f i k1] show ?thesis
    by (simp add: step_delim_def Let_def map_call_def map_sub_def)
qed

lemma map_parse_byte:
  assumes "commutes hk f"
  shows "parse_byte hk i c (map_call f k) = map_flow f (parse_byte hk i c k)"
proof -
  let ?k = "k\<lparr>obj := (obj k)\<lparr>current_index := i\<rparr>\<rparr>"
  have eq: "(map_call f k)\<lparr>obj := (obj (map_call f k))\<lparr>current_index := i\<rparr>\<rparr> = map_call f ?k"
    by (simp add: map_call_def map_sub_def)
  show ?thesis unfolding parse_byte_def Let_def eq
    by (cases "pstate (obj k)")
      (simp_all add: map_step_length map_step_data map_step_delim[OF assms] map_sub_def)
qed

lemma map_parse_loop:
  "commutes hk f \<Longrightarrow> parse_loop hk i cs (map_call f k) = map_flow f (parse_loop hk i cs k)"
  by (induction cs arbitrary: i k) (auto simp: map_parse_byte split: flow.splits)

lemma Parse_map_sub:
  assumes "commutes hk f"
  shows "Parse hk (map_sub f p) data = map_prod id (map_sub f) (Parse hk p data)"
proof -
  have "start_call (map_sub f p) = map_call f (start_call p)"
    by (simp add: start_call_def map_call_def map_sub_def)
  moreover have "finish_call (map_flow f r) = map_prod id (map_sub f) (finish_call r)" for r :: "'a flow"
    by (cases r) (simp_all add: finish_call_def map_sub_def)
  ultimately show ?thesis by (simp add: Parse_def map_parse_loop[OF assms])
qed

section \<open>Observers that append to an accumulator\<close>

text \<open>
  \<open>Feed\<close> clears the accumulator, runs the loop and returns what was accumulated. The hooks only append
  to it and never read it, so a stream fed in two reads gives the same bytes as in one.
\<close>

definition feed_acc ::
  "'h hooks \<Rightarrow> ('h \<Rightarrow> string) \<Rightarrow> (string \<Rightarrow> 'h \<Rightarrow> 'h) \<Rightarrow> 'h parser \<Rightarrow> string \<Rightarrow> string \<times> 'h parser" where
  "feed_acc hk acc set_acc p data =
     (let q = resync hk (map_sub (set_acc []) p) data 0 in (acc (sub q), q))"

locale appender = observer hk for hk :: "'h hooks" +
  fixes acc :: "'h \<Rightarrow> string" and set_acc :: "string \<Rightarrow> 'h \<Rightarrow> 'h"
  assumes acc_set: "acc (set_acc x h) = x"
    and set_set: "set_acc x (set_acc y h) = set_acc x h"
    and set_self: "set_acc (acc h) h = h"
    and append_only: "commutes hk (\<lambda>h. set_acc (x @ acc h) h)"
    and no_index: "index_free hk"
begin

lemma feed_split:
  assumes res: "Parse hk (map_sub (set_acc []) p) (a @ b) = (st, q)" and ok: "accepted st"
  shows "fst (feed_acc hk acc set_acc p a) @
           fst (feed_acc hk acc set_acc (snd (feed_acc hk acc set_acc p a)) b) =
         fst (feed_acc hk acc set_acc p (a @ b))"
proof -
  let ?p = "map_sub (set_acc []) p"
  from Parse_split[OF res ok no_index] obtain st1 p1 q' where
    s: "Parse hk ?p a = (st1, p1)" "accepted st1" "Parse hk p1 b = (st, q')" "same_parser q q'" by blast
  let ?e = "acc (sub p1)" and ?c = "map_sub (set_acc []) p1"
  have p1: "map_sub (\<lambda>h. set_acc (?e @ acc h) h) ?c = p1"
    by (simp add: map_sub_def acc_set set_set set_self)
  have a: "a \<noteq> [] \<Longrightarrow> resync hk ?p a 0 = p1" "a = [] \<Longrightarrow> resync hk ?p a 0 = ?p \<and> acc (sub ?p) = []"
    using resync_accepted[OF s(1)] s(2) by (auto simp: accepted_def resync_Nil acc_set)
  have ab: "a @ b \<noteq> [] \<Longrightarrow> resync hk ?p (a @ b) 0 = q"
    using resync_accepted[OF res] ok by (auto simp: accepted_def)
  obtain q2 where b2: "Parse hk ?c b = (st, q2)" and q2: "q' = map_sub (\<lambda>h. set_acc (?e @ acc h) h) q2"
    using Parse_map_sub[OF append_only, of "?e" ?c b] s(3) p1 by (cases "Parse hk ?c b") auto
  have b: "b \<noteq> [] \<Longrightarrow> resync hk ?c b 0 = q2"
    using resync_accepted[OF b2] ok by (auto simp: accepted_def)
  have eq: "acc (sub q) = ?e @ acc (sub q2)"
    using s(4) q2 by (simp add: same_parser_def acc_set)
  show ?thesis
  proof (cases "a = [] \<or> b = []")
    case True
    then show ?thesis
      using a by (auto simp: feed_acc_def Let_def resync_Nil acc_set)
        (simp add: map_sub_def set_set)
  next
    case False
    with a ab b eq show ?thesis by (simp add: feed_acc_def Let_def)
  qed
qed

end

end
