(* ===== verification/Sync_Faker.thy ===== *)
theory Sync_Faker imports Resync begin

text \<open>
  \<open>gcdbroker/include/sync_faker.h\<close> and \<open>gcdbroker/src/sync_faker.cpp\<close>: the broker's stand-in for the
  browser's \<open>sync\<close> acknowledgement. \<open>sync_replies\<close> is the specification: one reply for each \<open>sync\<close> with
  a non-empty timestamp, with the timestamp echoed.
\<close>

section \<open>\<open>class SyncFaker\<close>\<close>

record sync_fields =
  is_sync :: bool
  arg_index :: int
  timestamp :: string
  echoes :: string

definition new_sync_fields :: sync_fields where
  "new_sync_fields = \<lparr>is_sync = False, arg_index = 0, timestamp = [], echoes = []\<rparr>"

definition sync_OnInstructionBegin :: "string \<Rightarrow> sync_fields \<Rightarrow> bool \<times> sync_fields" where
  "sync_OnInstructionBegin instr h =
     (True, h\<lparr>is_sync := (length instr = 4 \<and> instr = ''sync''), arg_index := 0, timestamp := []\<rparr>)"

definition sync_OnArgument :: "string \<Rightarrow> sync_fields \<Rightarrow> bool \<times> sync_fields" where
  "sync_OnArgument arg h0 =
     (let h = h0\<lparr>arg_index := arg_index h0 + 1\<rparr> in
      (True, if is_sync h \<and> arg_index h = 1 then h\<lparr>timestamp := arg\<rparr> else h))"

definition sync_OnInstructionEnd :: "nat \<Rightarrow> sync_fields \<Rightarrow> sync_fields" where
  "sync_OnInstructionEnd i h =
     (if is_sync h \<and> timestamp h \<noteq> []
      then h\<lparr>echoes := echoes h @ ''4.sync,'' @ show_nat (length (timestamp h)) @ ''.'' @ timestamp h @ '';''\<rparr>
      else h)"

definition sync_hooks :: "sync_fields hooks" where
  "sync_hooks =
     \<lparr>OnInstructionBegin = sync_OnInstructionBegin, OnArgument = sync_OnArgument,
      OnInstructionEnd = sync_OnInstructionEnd, Tolerates = True\<rparr>"

definition sync_Feed :: "sync_fields parser \<Rightarrow> string \<Rightarrow> string \<times> sync_fields parser" where
  "sync_Feed p data =
     (let p0 = p\<lparr>sub := (sub p)\<lparr>echoes := []\<rparr>\<rparr>;
          q = resync sync_hooks p0 data 0
      in (echoes (sub q), q))"

lemma sync_hooks_sel [simp]:
  "OnInstructionBegin sync_hooks = sync_OnInstructionBegin" "OnArgument sync_hooks = sync_OnArgument"
  "OnInstructionEnd sync_hooks = sync_OnInstructionEnd" "Tolerates sync_hooks = True"
  by (simp_all add: sync_hooks_def)

interpretation syncs: appender sync_hooks echoes "\<lambda>x h. h\<lparr>echoes := x\<rparr>"
  by unfold_locales
    (simp_all add: sync_OnInstructionBegin_def sync_OnArgument_def sync_OnInstructionEnd_def
      commutes_def index_free_def Let_def)

lemma sync_Feed_acc: "sync_Feed p data = feed_acc sync_hooks echoes (\<lambda>x h. h\<lparr>echoes := x\<rparr>) p data"
  by (simp add: sync_Feed_def feed_acc_def map_sub_def)

section \<open>The specification\<close>

definition sync_instr :: "string \<Rightarrow> instr" where
  "sync_instr ts = [(''4'', ''sync''), (show_nat (length ts), ts)]"

fun sync_reply :: "string list \<Rightarrow> instr list" where
  "sync_reply (opcode # ts # _) = (if opcode = ''sync'' \<and> ts \<noteq> [] then [sync_instr ts] else [])"
| "sync_reply _ = []"

definition sync_replies :: "instr list \<Rightarrow> instr list" where
  "sync_replies is = concat (map (\<lambda>i. sync_reply (elems i)) is)"

lemma wire_sync_instr:
  "wire_instr (sync_instr ts) = ''4.sync,'' @ show_nat (length ts) @ ''.'' @ ts @ '';''"
  by (simp add: sync_instr_def wire_instr_def wire_elem_def wire_open_def)

lemma late_args:
  "arg_index h \<ge> 1 \<Longrightarrow> echoes (obs_args sync_hooks h as) = echoes h \<and>
     is_sync (obs_args sync_hooks h as) = is_sync h \<and> timestamp (obs_args sync_hooks h as) = timestamp h"
proof (induction as arbitrary: h)
  case (Cons a as)
  from Cons.prems have "snd (sync_OnArgument a h) = h\<lparr>arg_index := arg_index h + 1\<rparr>"
    by (simp add: sync_OnArgument_def)
  with Cons.IH[of "h\<lparr>arg_index := arg_index h + 1\<rparr>"] Cons.prems show ?case by simp
qed simp

lemma sync_obs_instr:
  "echoes (obs_instr sync_hooks i h es) =
     echoes h @ wire (sync_reply (elems es)) \<or> es = []"
proof (cases "elems es")
  case (Cons opcode args)
  let ?h = "h\<lparr>is_sync := (opcode = ''sync''), arg_index := 0, timestamp := []\<rparr>"
  have b: "snd (sync_OnInstructionBegin opcode h) = ?h"
    by (cases "opcode = ''sync''") (simp_all add: sync_OnInstructionBegin_def)
  show ?thesis
  proof (cases args)
    case Nil
    with Cons b show ?thesis by (simp add: obs_instr_def sync_OnInstructionEnd_def)
  next
    case args: (Cons ts rest)
    let ?h2 = "?h\<lparr>arg_index := 1, timestamp := (if opcode = ''sync'' then ts else [])\<rparr>"
    define g where "g = obs_args sync_hooks ?h2 rest"
    have "snd (sync_OnArgument ts ?h) = ?h2" by (simp add: sync_OnArgument_def Let_def)
    with Cons args b have eq: "obs_elems sync_hooks h (elems es) = g" by (simp add: g_def)
    have g: "echoes g = echoes h" "is_sync g = (opcode = ''sync'')"
        "timestamp g = (if opcode = ''sync'' then ts else [])"
      using late_args[of ?h2 rest] by (simp_all add: g_def)
    have "echoes (obs_instr sync_hooks i h es) = echoes h @ wire (sync_reply (opcode # ts # rest))"
      using g by (simp add: obs_instr_def eq sync_OnInstructionEnd_def wire_sync_instr)
    then show ?thesis using Cons args by simp
  qed
qed simp

lemma sync_obs_instrs:
  "list_all (\<lambda>i. i \<noteq> []) is \<Longrightarrow>
   echoes (obs_instrs sync_hooks i h is) = echoes h @ wire (sync_replies is)"
proof (induction "is" arbitrary: i h)
  case (Cons x xs)
  with sync_obs_instr[of i h x] show ?case by (simp add: sync_replies_def)
qed (simp add: sync_replies_def)

section \<open>Properties\<close>

lemma sync_Feed_instrs:
  assumes "at_pos p [] (PLen [])" and "list_all (instr_ok sync_hooks) is"
  shows "fst (sync_Feed p (wire is)) = wire (sync_replies is) \<and>
         at_pos (snd (sync_Feed p (wire is))) [] (PLen [])"
proof -
  let ?p = "p\<lparr>sub := (sub p)\<lparr>echoes := []\<rparr>\<rparr>"
  have "at_pos ?p [] (PLen [])" using assms(1) by simp
  from syncs.Parse_observes[OF this assms(2)] obtain q where
    q: "Parse sync_hooks ?p (wire is) = (READING_LENGTH, q)" "at_pos q [] (PLen [])"
      "sub q = obs_instrs sync_hooks 0 ((sub p)\<lparr>echoes := []\<rparr>) is" by auto
  have "list_all (\<lambda>i. i \<noteq> []) is" using assms(2) by (auto simp: list_all_iff instr_ok_def)
  with q(3) have e: "echoes (sub q) = wire (sync_replies is)" by (simp add: sync_obs_instrs)
  show ?thesis
  proof (cases "wire is = []")
    case True
    then show ?thesis
      using e q \<open>at_pos ?p [] (PLen [])\<close>
      by (cases "is") (auto simp: sync_Feed_def Let_def resync_Nil sync_replies_def wire_instr_def wire_elem_def)
  next
    case False
    with resync_accepted[OF q(1)] e q(2) show ?thesis by (simp add: sync_Feed_def Let_def)
  qed
qed

text \<open>
  C36: on whole well-formed instructions the faker returns exactly one \<open>sync\<close> acknowledgement for every
  \<open>sync\<close> guacd sent with a non-empty timestamp, in order, echoing its timestamp, and stands at an
  instruction boundary again. Elements of any size are tolerated.
\<close>

theorem sync_Feed_replies:
  assumes "at_pos p [] (PLen [])" and "list_all (instr_ok sync_hooks) is"
  shows "fst (sync_Feed p (wire is)) = wire (sync_replies is) \<and>
         at_pos (snd (sync_Feed p (wire is))) [] (PLen [])"
  using assms by (rule sync_Feed_instrs)

definition ex_guacd :: "instr list" where
  "ex_guacd = [[(''4'', ''size''), (''1'', ''0'')], [(''4'', ''sync''), (''3'', ''123'')],
               [(''4'', ''sync''), (''1'', ''9'')]]"

lemma sync_Feed_replies_witness:
  "fst (sync_Feed (new_parser new_sync_fields) (wire ex_guacd)) = ''4.sync,3.123;4.sync,1.9;''"
proof -
  have "at_pos (new_parser new_sync_fields) [] (PLen [])" by (simp add: new_parser_def)
  moreover have "list_all (instr_ok sync_hooks) ex_guacd" by code_simp
  moreover have "wire (sync_replies ex_guacd) = ''4.sync,3.123;4.sync,1.9;''" by code_simp
  ultimately show ?thesis using sync_Feed_replies by metis
qed

text \<open>
  No acknowledgement is lost or doubled by the way guacd's output is cut into reads: when the bytes
  parse, feeding \<open>a\<close> and then \<open>b\<close> returns together what feeding \<open>a @ b\<close> returns.
\<close>

theorem sync_Feed_split:
  assumes "Parse sync_hooks (p\<lparr>sub := (sub p)\<lparr>echoes := []\<rparr>\<rparr>) (a @ b) = (st, q)" and "accepted st"
  shows "fst (sync_Feed p a) @ fst (sync_Feed (snd (sync_Feed p a)) b) = fst (sync_Feed p (a @ b))"
  using syncs.feed_split[of p a b st q] assms by (simp add: sync_Feed_acc map_sub_def)

lemma sync_Feed_split_witness:
  "fst (sync_Feed (new_parser new_sync_fields) ''4.sy'') @
   fst (sync_Feed (snd (sync_Feed (new_parser new_sync_fields) ''4.sy'')) ''nc,3.123;4.s'') =
   ''4.sync,3.123;''"
proof -
  let ?p = "new_parser new_sync_fields"
  obtain st q where r: "Parse sync_hooks (?p\<lparr>sub := (sub ?p)\<lparr>echoes := []\<rparr>\<rparr>)
      (''4.sy'' @ ''nc,3.123;4.s'') = (st, q)" by fastforce
  have "accepted (fst (Parse sync_hooks (?p\<lparr>sub := (sub ?p)\<lparr>echoes := []\<rparr>\<rparr>) (''4.sy'' @ ''nc,3.123;4.s'')))"
    by code_simp
  with r have "accepted st" by simp
  moreover have "fst (sync_Feed ?p (''4.sy'' @ ''nc,3.123;4.s'')) = ''4.sync,3.123;''" by code_simp
  ultimately show ?thesis using sync_Feed_split[OF r] by simp
qed

text \<open>
  Fail open. Whatever bytes guacd sends, \<open>Feed\<close> returns and leaves the parser in a state from which
  it goes on parsing; a byte the framer rejects never stops the acknowledgements for good.
\<close>

theorem sync_Feed_recovers:
  assumes "usable p"
  shows "usable (snd (sync_Feed p data))"
proof -
  have "usable (p\<lparr>sub := (sub p)\<lparr>echoes := []\<rparr>\<rparr>)" using assms by (simp add: usable_def)
  from resync_usable[OF syncs.observer_axioms this, of data 0] show ?thesis
    by (simp add: sync_Feed_def Let_def)
qed

lemma sync_Feed_recovers_witness:
  "usable (snd (sync_Feed (new_parser new_sync_fields) ''bad;4.sync''))"
  by (rule sync_Feed_recovers[OF usable_new])

end
