(* ===== verification/Net_Queue.thy ===== *)
theory Net_Queue imports Bridge_Message begin

text \<open>
  \<open>shared/include/network/netqueue.h\<close> and \<open>reader_group.h\<close>. Every method of \<open>NetQueue\<close> is atomic under
  its mutex; \<open>Dequeue\<close> may have to wait, which is a result of its own. \<open>ReaderGroup\<close> counts readers.
  The interface the handlers use is the locale \<open>fifo\<close>.
\<close>

section \<open>\<open>NetQueue\<close>\<close>

record NetQueue =
  queue :: "BridgeMessage list"
  queue_closed :: bool
  high_water :: nat

definition new_NetQueue :: NetQueue where
  "new_NetQueue = \<lparr>queue = [], queue_closed = False, high_water = 0\<rparr>"

definition Enqueue :: "BridgeMessage \<Rightarrow> NetQueue \<Rightarrow> NetQueue" where
  "Enqueue m q =
     (let q1 = q\<lparr>queue := queue q @ [m]\<rparr> in
      if length (queue q1) > high_water q1 then q1\<lparr>high_water := length (queue q1)\<rparr> else q1)"

definition TakeHighWater :: "NetQueue \<Rightarrow> nat \<times> NetQueue" where
  "TakeHighWater q = (high_water q, q\<lparr>high_water := length (queue q)\<rparr>)"

definition CloseQueue :: "NetQueue \<Rightarrow> NetQueue" where
  "CloseQueue q = q\<lparr>queue_closed := True\<rparr>"

text \<open>The outcome of \<open>Dequeue\<close>: still waiting on the condition, \<open>std::nullopt\<close>, or a message.\<close>

datatype dequeued = Waits | Finished | Got BridgeMessage

definition Dequeue :: "NetQueue \<Rightarrow> dequeued \<times> NetQueue" where
  "Dequeue q =
     (if queue q = [] \<and> \<not> queue_closed q then (Waits, q)
      else if queue q = [] then (Finished, q)
      else (Got (hd (queue q)), q\<lparr>queue := tl (queue q)\<rparr>))"

definition Peek :: "NetQueue \<Rightarrow> BridgeMessage option" where
  "Peek q = (if queue q = [] then None else Some (hd (queue q)))"

definition IsEmpty :: "NetQueue \<Rightarrow> bool" where "IsEmpty q = (queue q = [])"

definition QSize :: "NetQueue \<Rightarrow> nat" where "QSize q = length (queue q)"

section \<open>The interface: first in, first out\<close>

locale fifo =
  fixes enq :: "'a \<Rightarrow> 'q \<Rightarrow> 'q" and deq :: "'q \<Rightarrow> 'a option \<times> 'q" and pending :: "'q \<Rightarrow> 'a list"
  assumes enq_pending: "pending (enq x q) = pending q @ [x]"
    and deq_none: "fst (deq q) = None \<Longrightarrow> pending q = [] \<and> pending (snd (deq q)) = []"
    and deq_some: "fst (deq q) = Some x \<Longrightarrow> pending q = x # pending (snd (deq q))"
begin

text \<open>Any interleaving of producers and consumers: \<open>Some x\<close> enqueues, \<open>None\<close> tries to dequeue.\<close>

primrec traffic :: "'a option list \<Rightarrow> 'q \<Rightarrow> 'a list \<times> 'q" where
  "traffic [] q = ([], q)"
| "traffic (e # es) q =
     (case e of
        Some x \<Rightarrow> traffic es (enq x q)
      | None \<Rightarrow> (case deq q of (r, q1) \<Rightarrow>
          (case traffic es q1 of (out, q2) \<Rightarrow> ((case r of None \<Rightarrow> out | Some x \<Rightarrow> x # out), q2))))"

lemma traffic_fifo:
  "pending q @ List.map_filter id es = fst (traffic es q) @ pending (snd (traffic es q))"
proof (induction es arbitrary: q)
  case Nil
  show ?case by (simp add: List.map_filter_def)
next
  case (Cons e es)
  show ?case
  proof (cases e)
    case (Some x)
    with Cons.IH[of "enq x q"] show ?thesis by (simp add: enq_pending List.map_filter_def)
  next
    case None
    obtain r q1 where d: "deq q = (r, q1)" by fastforce
    obtain out q2 where t: "traffic es q1 = (out, q2)" by fastforce
    have "pending q = (case r of None \<Rightarrow> [] | Some x \<Rightarrow> [x]) @ pending q1"
      using deq_none[of q] deq_some[of q] d by (cases r) auto
    with Cons.IH[of q1] None d t show ?thesis
      by (auto simp: List.map_filter_def split: option.splits)
  qed
qed

end

definition deq_message :: "NetQueue \<Rightarrow> BridgeMessage option \<times> NetQueue" where
  "deq_message q = (case Dequeue q of (Got m, q') \<Rightarrow> (Some m, q') | (_, q') \<Rightarrow> (None, q'))"

lemma queue_Enqueue [simp]: "queue (Enqueue m q) = queue q @ [m]"
  by (simp add: Enqueue_def Let_def)

interpretation nq: fifo Enqueue deq_message queue
  by unfold_locales (auto simp: deq_message_def Dequeue_def split: if_splits)

section \<open>\<open>high_water\<close> is the peak\<close>

definition water_ok :: "NetQueue \<Rightarrow> bool" where
  "water_ok q \<longleftrightarrow> length (queue q) \<le> high_water q"

lemma water_ok_ops:
  "water_ok new_NetQueue"
  "water_ok q \<Longrightarrow> water_ok (Enqueue m q)"
  "water_ok q \<Longrightarrow> water_ok (snd (Dequeue q))"
  "water_ok q \<Longrightarrow> water_ok (CloseQueue q)"
  "water_ok (snd (TakeHighWater q))"
  by (auto simp: water_ok_def new_NetQueue_def Enqueue_def Dequeue_def CloseQueue_def TakeHighWater_def
      Let_def)

section \<open>\<open>ReaderGroup\<close>\<close>

text \<open>\<open>WaitAll\<close> returns when the count is zero; its result is whether it does in this state.\<close>

record ReaderGroup = count :: int

definition new_ReaderGroup :: ReaderGroup where "new_ReaderGroup = \<lparr>count = 0\<rparr>"

definition Enter :: "ReaderGroup \<Rightarrow> ReaderGroup" where "Enter g = g\<lparr>count := count g + 1\<rparr>"

definition Leave :: "ReaderGroup \<Rightarrow> ReaderGroup" where "Leave g = g\<lparr>count := count g - 1\<rparr>"

definition WaitAll :: "ReaderGroup \<Rightarrow> bool" where "WaitAll g = (count g = 0)"

text \<open>
  The protocol of the callers: the spawner enters before it launches a reader, each launched reader
  leaves once, as its last act.
\<close>

datatype reader_event = Spawn nat | Exit nat

record group_sys =
  group :: ReaderGroup
  live :: "nat list"

inductive group_step :: "group_sys \<Rightarrow> reader_event \<Rightarrow> group_sys \<Rightarrow> bool" where
  spawn: "group_step s (Spawn i) (s\<lparr>group := Enter (group s), live := i # live s\<rparr>)"
| exit: "i \<in> set (live s) \<Longrightarrow>
         group_step s (Exit i) (s\<lparr>group := Leave (group s), live := remove1 i (live s)\<rparr>)"

inductive_cases spawnE: "group_step s (Spawn i) s'"
inductive_cases exitE: "group_step s (Exit i) s'"

inductive group_reach :: "group_sys \<Rightarrow> bool" where
  "group_reach \<lparr>group = new_ReaderGroup, live = []\<rparr>"
| "group_reach s \<Longrightarrow> group_step s e s' \<Longrightarrow> group_reach s'"

lemma group_count: "group_reach s \<Longrightarrow> count (group s) = int (length (live s))"
proof (induction rule: group_reach.induct)
  case 1
  show ?case by (simp add: new_ReaderGroup_def)
next
  case (2 s e s')
  from 2(2) show ?case
  proof (cases rule: group_step.cases)
    case (spawn i)
    with 2 show ?thesis by (simp add: Enter_def)
  next
    case (exit i)
    then have "int (length (live s) - Suc 0) = int (length (live s)) - 1" by (cases "live s") auto
    with exit 2 show ?thesis by (simp add: Leave_def length_remove1)
  qed
qed

section \<open>Properties\<close>

text \<open>
  \<open>NetQueue\<close> is first in, first out over any interleaving of producers and consumers: what was
  pending before, then everything enqueued, is what was dequeued, then what is still pending.
\<close>

theorem NetQueue_fifo:
  "queue q @ List.map_filter id es = fst (nq.traffic es q) @ queue (snd (nq.traffic es q))"
  by (rule nq.traffic_fifo)

text \<open>
  \<open>Close\<close> loses nothing and ends every consumer: after it, dequeuing gives the pending messages one
  by one and then \<open>std::nullopt\<close>, and never waits.
\<close>

theorem NetQueue_close_drains:
  "fst (nq.traffic (replicate (length (queue q)) None) (CloseQueue q)) = queue q \<and>
   (case nq.traffic (replicate (length (queue q)) None) (CloseQueue q) of
      (_, q') \<Rightarrow> Dequeue q' = (Finished, q'))"
proof -
  have "queue_closed q \<Longrightarrow>
      fst (nq.traffic (replicate (length (queue q)) None) q) = queue q \<and>
      (case nq.traffic (replicate (length (queue q)) None) q of (_, q') \<Rightarrow> Dequeue q' = (Finished, q'))" for q
  proof (induction "queue q" arbitrary: q)
    case Nil
    then show ?case by (simp add: Dequeue_def flip: Nil.hyps)
  next
    case (Cons m ms)
    let ?q = "q\<lparr>queue := ms\<rparr>"
    have "deq_message q = (Some m, ?q)"
      using Cons.hyps(2) by (simp add: deq_message_def Dequeue_def flip: Cons.hyps(2))
    with Cons.hyps(1)[of ?q] Cons.prems show ?case
      by (simp add: split_beta flip: Cons.hyps(2))
  qed
  from this[of "CloseQueue q"] show ?thesis by (simp add: CloseQueue_def)
qed

text \<open>
  Shutdown waits for every reader: in every reachable state of the spawn/exit protocol, \<open>WaitAll\<close>
  returns exactly when no counted reader is live.
\<close>

theorem WaitAll_no_reader:
  assumes "group_reach s"
  shows "WaitAll (group s) \<longleftrightarrow> live s = []"
  using group_count[OF assms] by (simp add: WaitAll_def)

lemma WaitAll_no_reader_witness:
  "\<exists>s. group_reach s \<and> live s = [4] \<and> \<not> WaitAll (group s)"
proof -
  let ?s = "\<lparr>group = Enter new_ReaderGroup, live = [4]\<rparr>"
  have "group_step \<lparr>group = new_ReaderGroup, live = []\<rparr> (Spawn 4) ?s"
    using group_step.spawn[of "\<lparr>group = new_ReaderGroup, live = []\<rparr>" 4] by simp
  from group_reach.intros(2)[OF group_reach.intros(1) this] have "group_reach ?s" .
  with WaitAll_no_reader[OF this] show ?thesis by (intro exI[of _ ?s]) simp
qed

end
