(* ===== verification/Sockets.thy ===== *)
theory Sockets imports Udp Bridge_Message Net_Queue begin

text \<open>
  The sockets of the two brokers and the threads that join them to the queues:
  \<open>shared/src/network/guacd_client.cpp\<close> (\<open>Receive\<close>, \<open>Send\<close>), the data path of
  \<open>shared/src/network/guacamole_server.cpp\<close> (\<open>HasPending\<close>, \<open>WaitReadable\<close>, \<open>Receive\<close>, \<open>Send\<close>), and
  \<open>udp_recv_handler.cpp\<close> and \<open>udp_send_handler.cpp\<close> of both brokers. The results of the system calls
  and of OpenSSL are arguments.
\<close>

section \<open>\<open>GuacdClient\<close>\<close>

definition RECV_TIMEOUT :: int where "RECV_TIMEOUT = -2"

definition guacd_Receive :: "nat \<Rightarrow> errno + string \<Rightarrow> int \<times> string" where
  "guacd_Receive len r =
     (case r of
        Inl e \<Rightarrow> if e = EAGAIN \<or> e = EWOULDBLOCK then (RECV_TIMEOUT, []) else (-1, [])
      | Inr bs \<Rightarrow> let got = take (len - 1) bs in (int (length got), got))"

text \<open>The same loop as \<open>UDPSender::Send\<close>, guarded by the descriptor.\<close>

definition guacd_Send :: "fd \<Rightarrow> string \<Rightarrow> (errno + nat) list \<Rightarrow> int option \<times> string list" where
  "guacd_Send fd buffer rs = (if fd < 0 then (Some (-1), []) else send_loop buffer 0 rs)"

section \<open>\<open>GuacamoleServer\<close>\<close>

definition RETRY :: int where "RETRY = -2"

text \<open>What \<open>SSL_read\<close> and \<open>SSL_get_error\<close> report.\<close>

datatype ssl_read = SslData string | SSL_ERROR_WANT_READ | SSL_ERROR_WANT_WRITE
  | SSL_ERROR_ZERO_RETURN | SSL_ERROR_OTHER

text \<open>\<open>tls\<close> is \<^const>\<open>None\<close> in plaintext mode, else the result on the fd's \<open>SSL\<close> object, if it has one.\<close>

definition server_Receive :: "ssl_read option option \<Rightarrow> nat \<Rightarrow> errno + string \<Rightarrow> int \<times> string" where
  "server_Receive tls len r =
     (case tls of
        Some None \<Rightarrow> (-1, [])
      | Some (Some x) \<Rightarrow>
          (case x of
             SslData bs \<Rightarrow>
               let got = take (len - 1) bs in
               if got \<noteq> [] then (int (length got), got) else (-1, [])
           | SSL_ERROR_WANT_READ \<Rightarrow> (RETRY, [])
           | SSL_ERROR_WANT_WRITE \<Rightarrow> (RETRY, [])
           | SSL_ERROR_ZERO_RETURN \<Rightarrow> (0, [])
           | SSL_ERROR_OTHER \<Rightarrow> (-1, []))
      | None \<Rightarrow>
          (case r of
             Inl e \<Rightarrow> if e = EAGAIN then (0, []) else (-1, [])
           | Inr bs \<Rightarrow> let got = take (len - 1) bs in (int (length got), got)))"

text \<open>\<open>SSL_write\<close> takes everything or fails (partial writes are not enabled).\<close>

definition server_Send ::
  "bool option option \<Rightarrow> fd \<Rightarrow> string \<Rightarrow> (errno + nat) list \<Rightarrow> int option \<times> string list" where
  "server_Send tls fd buffer rs =
     (if fd < 0 then (Some (-1), [])
      else
        (case tls of
           Some ssl \<Rightarrow>
             if buffer = [] then (Some 0, [])
             else (case ssl of
                     None \<Rightarrow> (Some (-1), [])
                   | Some ok \<Rightarrow> if ok then (Some (int (length buffer)), [buffer]) else (Some (-1), []))
         | None \<Rightarrow> send_loop buffer 0 rs))"

definition HasPending :: "nat option option \<Rightarrow> bool" where
  "HasPending tls = (case tls of None \<Rightarrow> False | Some ssl \<Rightarrow> (case ssl of None \<Rightarrow> False | Some n \<Rightarrow> n > 0))"

definition WaitReadable :: "errno + nat \<Rightarrow> int" where
  "WaitReadable r =
     (case r of Inl e \<Rightarrow> if e = EINTR then 0 else -1 | Inr n \<Rightarrow> if n > 0 then 1 else 0)"

section \<open>The handlers between the bridge and the queues\<close>

definition udp_recv_step :: "errno + string \<Rightarrow> NetQueue \<Rightarrow> NetQueue" where
  "udp_recv_step r q =
     (case Receive (MAX_DATAGRAM_SIZE + 1) r of
        (received, buffer) \<Rightarrow>
          if received \<le> 0 then q
          else (case TryCast (Some buffer) of None \<Rightarrow> q | Some m \<Rightarrow> Enqueue m q))"

text \<open>One turn: the datagram sent, or \<^const>\<open>None\<close> when the queue gave no message.\<close>

definition udp_send_step :: "NetQueue \<Rightarrow> string option \<times> NetQueue" where
  "udp_send_step q =
     (case Dequeue q of
        (Got m, q') \<Rightarrow> (Some (Serialize m), q')
      | (_, q') \<Rightarrow> (None, q'))"

fun udp_send_steps :: "nat \<Rightarrow> NetQueue \<Rightarrow> string list \<times> NetQueue" where
  "udp_send_steps 0 q = ([], q)"
| "udp_send_steps (Suc n) q =
     (case udp_send_step q of
        (d, q1) \<Rightarrow> (case udp_send_steps n q1 of (ds, q2) \<Rightarrow>
          ((case d of None \<Rightarrow> ds | Some x \<Rightarrow> x # ds), q2)))"

lemma udp_recv_Serialize:
  "length (payload m) \<le> MAX_PAYLOAD_SIZE \<Longrightarrow> udp_recv_step (Inr (Serialize m)) q = Enqueue m q"
  by (simp add: udp_recv_step_def Receive_def Let_def size_defs)

lemma udp_send_drain: "udp_send_steps (length (queue q)) q = (map Serialize (queue q), q\<lparr>queue := []\<rparr>)"
proof (induction "queue q" arbitrary: q)
  case Nil
  then show ?case by simp
next
  case (Cons m ms)
  from Cons.hyps(2)[symmetric] have s: "udp_send_step q = (Some (Serialize m), q\<lparr>queue := ms\<rparr>)"
    by (simp add: udp_send_step_def Dequeue_def)
  from Cons.hyps(1)[of "q\<lparr>queue := ms\<rparr>"] Cons.hyps(2)[symmetric] s show ?case by simp
qed

lemma recv_all:
  "list_all (\<lambda>m. length (payload m) \<le> MAX_PAYLOAD_SIZE) ms \<Longrightarrow>
   queue (fold udp_recv_step (map (\<lambda>m. Inr (Serialize m)) ms) q) = queue q @ ms"
  by (induction ms arbitrary: q) (simp_all add: udp_recv_Serialize)

text \<open>What a receive call got, and the message it is read as.\<close>

definition arriving :: "errno + string \<Rightarrow> string option" where
  "arriving r = (case r of Inl e \<Rightarrow> None | Inr d \<Rightarrow> Some d)"

definition from_outside :: "string option \<Rightarrow> BridgeMessage \<Rightarrow> bool" where
  "from_outside d m \<longleftrightarrow> (case d of None \<Rightarrow> False | Some b \<Rightarrow> TryCast (Some (take MAX_DATAGRAM_SIZE b)) = Some m)"

lemma udp_recv_new:
  assumes "m \<in> set (queue (udp_recv_step r q))"
  shows "m \<in> set (queue q) \<or> from_outside (arriving r) m"
  using assms
  by (auto simp: udp_recv_step_def Receive_def Let_def arriving_def from_outside_def
      split: sum.splits if_splits option.splits)

lemma from_outside_Serialize:
  "length (payload m') \<le> MAX_PAYLOAD_SIZE \<Longrightarrow> from_outside (Some (Serialize m')) m \<longleftrightarrow> m = m'"
  by (auto simp: from_outside_def size_defs)

section \<open>Properties\<close>

text \<open>
  \<open>UDPSender::Send\<close> hands the kernel a prefix of the buffer, in order and without a gap or a repeat,
  however the calls are cut or interrupted; it returns the length exactly when that prefix is the whole
  buffer, and otherwise -1 (or still waits).
\<close>

theorem udp_Send_prefix:
  assumes "takes_ok (length buffer) rs" and "udp_Send buffer rs = (rc, chunks)"
  shows "\<exists>n \<le> length buffer. concat chunks = take n buffer \<and>
    (rc = Some (int (length buffer)) \<and> n = length buffer \<or> rc = Some (-1) \<or> rc = None)"
  using send_loop_chunks[of buffer 0 rs rc chunks] assms by (auto simp: udp_Send_def)

lemma udp_Send_prefix_witness:
  "\<exists>n \<le> 5. concat (snd (udp_Send ''abcde'' [Inr 2, Inl EINTR, Inr 3])) = take n ''abcde''"
proof -
  have ok: "takes_ok (length ''abcde'') [Inr 2, Inl EINTR, Inr 3]" by simp
  obtain rc chunks where r: "udp_Send ''abcde'' [Inr 2, Inl EINTR, Inr 3] = (rc, chunks)" by fastforce
  from udp_Send_prefix[OF ok r] obtain n where
    "n \<le> length ''abcde''" "concat chunks = take n ''abcde''" by blast
  then show ?thesis by (intro exI[of _ n]) (simp add: r)
qed

text \<open>
  The bridge between two queues. Sending everything queued on one side and receiving each datagram
  on the other appends the same messages in the same order, when every payload is within the limit.
\<close>

theorem bridge_transfers_queue:
  assumes "list_all (\<lambda>m. length (payload m) \<le> MAX_PAYLOAD_SIZE) (queue q)"
  shows "case udp_send_steps (length (queue q)) q of
    (ds, q') \<Rightarrow> queue q' = [] \<and> queue (fold udp_recv_step (map Inr ds) r) = queue r @ queue q"
  using recv_all[OF assms, of r] by (simp add: udp_send_drain comp_def)

lemma bridge_transfers_queue_witness:
  "fst (udp_send_steps 1 (Enqueue (mk_msg 4 NONE ''ab'') new_NetQueue)) \<noteq> [] \<and>
   (case udp_send_steps 1 (Enqueue (mk_msg 4 NONE ''ab'') new_NetQueue) of
      (ds, q') \<Rightarrow> queue (fold udp_recv_step (map Inr ds) new_NetQueue) = [mk_msg 4 NONE ''ab''])"
proof -
  let ?q = "Enqueue (mk_msg 4 NONE ''ab'') new_NetQueue"
  have "list_all (\<lambda>m. length (payload m) \<le> MAX_PAYLOAD_SIZE) (queue ?q)"
    by (simp add: new_NetQueue_def size_defs)
  from bridge_transfers_queue[OF this, of new_NetQueue]
  have "case udp_send_steps 1 ?q of (ds, q') \<Rightarrow>
      queue (fold udp_recv_step (map Inr ds) new_NetQueue) = [mk_msg 4 NONE ''ab'']"
    by (simp add: new_NetQueue_def split: prod.splits)
  moreover have "fst (udp_send_steps 1 ?q) \<noteq> []"
    by (simp add: udp_send_step_def Dequeue_def new_NetQueue_def)
  ultimately show ?thesis by blast
qed

text \<open>
  An oversized datagram is not rejected for its size: the kernel cuts it to the receive buffer, so
  whatever follows the first 1203 bytes is dropped and the rest is queued as a message of full size.
\<close>

theorem oversized_datagram_truncated:
  assumes "length (payload m) > MAX_PAYLOAD_SIZE"
  shows "udp_recv_step (Inr (Serialize m)) q =
         Enqueue (m\<lparr>payload := take MAX_PAYLOAD_SIZE (payload m)\<rparr>) q"
proof -
  let ?m = "m\<lparr>payload := take MAX_PAYLOAD_SIZE (payload m)\<rparr>"
  have cut: "take MAX_DATAGRAM_SIZE (Serialize m) = Serialize ?m"
    by (simp add: Serialize_def size_defs)
  have "TryCast (Some (Serialize ?m)) = Some ?m" by simp
  moreover have "Serialize ?m \<noteq> []" by (simp add: Serialize_def)
  ultimately show ?thesis
    by (simp add: udp_recv_step_def Receive_def Let_def cut del: length_Serialize)
qed

lemma oversized_datagram_truncated_witness:
  "udp_recv_step (Inr (Serialize (mk_msg 4 NONE (replicate 1201 (CHR ''x''))))) new_NetQueue =
   Enqueue (mk_msg 4 NONE (replicate 1200 (CHR ''x''))) new_NetQueue"
  using oversized_datagram_truncated[of "mk_msg 4 NONE (replicate 1201 (CHR ''x''))" new_NetQueue]
  by (simp add: size_defs)

end
