(* ===== verification/Channel_Table.thy ===== *)
theory Channel_Table imports Prelude begin

text \<open>
  \<open>shared/include/network/channeltable.h\<close>: the map from channels to file descriptors that both brokers
  share between their threads. Every method holds the mutex from start to end, so each is one atomic
  operation on the record. The interface the handlers rely on is the locale \<open>fd_map\<close>; \<open>Allocate\<close>'s
  round-robin scan has its own lemmas.
\<close>

record ChannelTable =
  channel_to_fd :: "channel \<Rightarrow> fd option"
  next_channel :: channel

definition new_ChannelTable :: ChannelTable where
  "new_ChannelTable = \<lparr>channel_to_fd = Map.empty, next_channel = 0\<rparr>"

section \<open>Operations\<close>

text \<open>The \<open>for\<close> loop of \<open>Allocate\<close> from index \<open>i\<close>; the cast to \<open>uint16_t\<close> is \<^const>\<open>of_nat\<close>.\<close>

function alloc_scan :: "nat \<Rightarrow> fd \<Rightarrow> ChannelTable \<Rightarrow> channel option \<times> ChannelTable" where
  "alloc_scan i fd t =
     (if i \<le> 0xFFFF then
        let ch = next_channel t + of_nat i in
        if channel_to_fd t ch = None
        then (Some ch, t\<lparr>channel_to_fd := (channel_to_fd t)(ch := Some fd), next_channel := ch + 1\<rparr>)
        else alloc_scan (i + 1) fd t
      else (None, t))"
  by pat_completeness auto
termination by (relation "measure (\<lambda>(i, _, _). 0x10000 - i)") auto

declare alloc_scan.simps [simp del]

definition Allocate :: "fd \<Rightarrow> ChannelTable \<Rightarrow> channel option \<times> ChannelTable" where
  "Allocate fd t = alloc_scan 0 fd t"

definition Insert :: "channel \<Rightarrow> fd \<Rightarrow> ChannelTable \<Rightarrow> bool \<times> ChannelTable" where
  "Insert ch fd t =
     (if channel_to_fd t ch = None
      then (True, t\<lparr>channel_to_fd := (channel_to_fd t)(ch := Some fd)\<rparr>)
      else (False, t))"

definition Get :: "channel \<Rightarrow> ChannelTable \<Rightarrow> fd option" where
  "Get ch t = channel_to_fd t ch"

definition Remove :: "channel \<Rightarrow> ChannelTable \<Rightarrow> fd option \<times> ChannelTable" where
  "Remove ch t =
     (case channel_to_fd t ch of
        None \<Rightarrow> (None, t)
      | Some fd \<Rightarrow> (Some fd, t\<lparr>channel_to_fd := (channel_to_fd t)(ch := None)\<rparr>))"

text \<open>\<open>Fds\<close>, in the traversal order of the map's keys.\<close>

definition Fds :: "channel list \<Rightarrow> ChannelTable \<Rightarrow> fd list" where
  "Fds order t = map (\<lambda>ch. the (channel_to_fd t ch)) order"

section \<open>The scan\<close>

lemma alloc_scan_Some:
  assumes "alloc_scan i fd t = (Some ch, t')"
  shows "\<exists>d. i \<le> d \<and> d \<le> 0xFFFF \<and> ch = next_channel t + of_nat d \<and> channel_to_fd t ch = None \<and>
    (\<forall>j. i \<le> j \<longrightarrow> j < d \<longrightarrow> channel_to_fd t (next_channel t + of_nat j) \<noteq> None) \<and>
    t' = t\<lparr>channel_to_fd := (channel_to_fd t)(ch := Some fd), next_channel := ch + 1\<rparr>"
  using assms
proof (induction i fd t rule: alloc_scan.induct)
  case (1 i fd t)
  show ?case
  proof (cases "i \<le> 0xFFFF \<and> channel_to_fd t (next_channel t + of_nat i) \<noteq> None")
    case True
    with "1.prems" have "alloc_scan (i + 1) fd t = (Some ch, t')"
      by (subst (asm) alloc_scan.simps) (simp add: Let_def)
    with "1.IH"[of "next_channel t + of_nat i"] True obtain d where
      d: "i + 1 \<le> d" "d \<le> 0xFFFF" "ch = next_channel t + of_nat d" "channel_to_fd t ch = None"
        "\<forall>j. i + 1 \<le> j \<longrightarrow> j < d \<longrightarrow> channel_to_fd t (next_channel t + of_nat j) \<noteq> None"
        "t' = t\<lparr>channel_to_fd := (channel_to_fd t)(ch := Some fd), next_channel := ch + 1\<rparr>" by blast
    have "channel_to_fd t (next_channel t + of_nat j) \<noteq> None" if "i \<le> j" "j < d" for j
      using that d(5) True by (cases "j = i") auto
    with d(2-4,6) d(1) show ?thesis by (intro exI[of _ d]) (simp del: fun_upd_apply)
  next
    case False
    with "1.prems" show ?thesis
      by (subst (asm) alloc_scan.simps)
        (auto simp: Let_def simp del: fun_upd_apply split: if_splits intro!: exI[of _ i])
  qed
qed

lemma alloc_scan_None:
  assumes "alloc_scan i fd t = (None, t')"
  shows "t' = t \<and> (\<forall>j. i \<le> j \<longrightarrow> j \<le> 0xFFFF \<longrightarrow> channel_to_fd t (next_channel t + of_nat j) \<noteq> None)"
  using assms
proof (induction i fd t rule: alloc_scan.induct)
  case (1 i fd t)
  show ?case
  proof (cases "i \<le> 0xFFFF")
    case True
    with "1.prems" have full: "channel_to_fd t (next_channel t + of_nat i) \<noteq> None"
      and "alloc_scan (i + 1) fd t = (None, t')"
      by (subst (asm) alloc_scan.simps, simp add: Let_def split: if_splits)+
    with "1.IH"[OF True refl] have IH: "t' = t"
      "\<forall>j. i + 1 \<le> j \<longrightarrow> j \<le> 0xFFFF \<longrightarrow> channel_to_fd t (next_channel t + of_nat j) \<noteq> None" by blast+
    have "channel_to_fd t (next_channel t + of_nat j) \<noteq> None" if "i \<le> j" "j \<le> 0xFFFF" for j
      using that IH(2) full by (cases "j = i") auto
    with IH(1) show ?thesis by blast
  next
    case False
    with "1.prems" show ?thesis by (subst (asm) alloc_scan.simps) auto
  qed
qed

text \<open>Every channel is at one offset from the cursor, so a scan from 0 sees the whole space.\<close>

lemma offset_ex: "\<exists>d. d \<le> 0xFFFF \<and> (ch :: channel) = c + of_nat d"
proof -
  have "unat (ch - c) < 2 ^ LENGTH(16)" by (rule unsigned_less)
  then show ?thesis by (intro exI[of _ "unat (ch - c)"]) simp
qed

lemma unat_channel: "d \<le> 0xFFFF \<Longrightarrow> unat (of_nat d :: channel) = d"
  by (simp add: unat_of_nat)

lemma offset_inj: "d \<le> 0xFFFF \<Longrightarrow> e \<le> 0xFFFF \<Longrightarrow> (of_nat d :: channel) = of_nat e \<Longrightarrow> d = e"
  using unat_channel by metis

lemma Allocate_None: "Allocate fd t = (None, t') \<Longrightarrow> t' = t \<and> dom (channel_to_fd t) = UNIV"
  unfolding Allocate_def
proof -
  assume a: "alloc_scan 0 fd t = (None, t')"
  have "channel_to_fd t ch \<noteq> None" for ch
    using alloc_scan_None[OF a] offset_ex[of ch "next_channel t"] by auto
  then show ?thesis using alloc_scan_None[OF a] by (auto simp: dom_def)
qed

lemma Allocate_Some:
  assumes "Allocate fd t = (Some ch, t')"
  shows "channel_to_fd t ch = None \<and>
    t' = t\<lparr>channel_to_fd := (channel_to_fd t)(ch := Some fd), next_channel := ch + 1\<rparr>"
  using alloc_scan_Some[of 0 fd t ch t'] assms by (auto simp: Allocate_def)

text \<open>Everything between the cursor and the channel handed out is in use.\<close>

lemma Allocate_between:
  assumes "Allocate fd t = (Some (next_channel t + of_nat d), t')" and "d \<le> 0xFFFF" and "j < d"
  shows "channel_to_fd t (next_channel t + of_nat j) \<noteq> None"
proof -
  from alloc_scan_Some[of 0 fd t _ t'] assms(1) obtain e where
    e: "e \<le> 0xFFFF" "next_channel t + of_nat d = next_channel t + (of_nat e :: channel)"
      "\<forall>j. j < e \<longrightarrow> channel_to_fd t (next_channel t + of_nat j) \<noteq> None"
    by (auto simp: Allocate_def)
  from offset_inj[OF assms(2) e(1)] e(2) have "d = e" by simp
  with e(3) assms(3) show ?thesis by blast
qed

section \<open>The interface\<close>

text \<open>
  What the handlers rely on: a partial map whose entries have one remover. \<open>Remove\<close> decides: of any
  number of callers exactly the first is given the descriptor.
\<close>

locale fd_map =
  fixes get :: "channel \<Rightarrow> 't \<Rightarrow> fd option"
    and ins :: "channel \<Rightarrow> fd \<Rightarrow> 't \<Rightarrow> bool \<times> 't"
    and rem :: "channel \<Rightarrow> 't \<Rightarrow> fd option \<times> 't"
  assumes ins_ok: "fst (ins ch fd t) = (get ch t = None)"
    and ins_get: "get ch (snd (ins ch' fd t)) = (if ch = ch' \<and> get ch t = None then Some fd else get ch t)"
    and rem_ret: "fst (rem ch t) = get ch t"
    and rem_get: "get ch (snd (rem ch' t)) = (if ch = ch' then None else get ch t)"
begin

text \<open>A sequence of removals of any channels: what the callers got back for \<open>ch\<close>.\<close>

primrec removals :: "channel list \<Rightarrow> 't \<Rightarrow> (channel \<times> fd option) list \<times> 't" where
  "removals [] t = ([], t)"
| "removals (c # cs) t =
     (case rem c t of (r, t1) \<Rightarrow> (case removals cs t1 of (rs, t2) \<Rightarrow> ((c, r) # rs, t2)))"

lemma rem_rem: "fst (rem ch (snd (rem ch t))) = None"
  by (simp add: rem_ret rem_get)

lemma get_removals: "get ch (snd (removals cs t)) = (if ch \<in> set cs then None else get ch t)"
proof (induction cs arbitrary: t)
  case (Cons c cs)
  obtain r t1 where r: "rem c t = (r, t1)" by fastforce
  have "get ch t1 = (if ch = c then None else get ch t)" using rem_get[of ch c t] r by simp
  with Cons.IH[of t1] r show ?case by (cases "removals cs t1") auto
qed simp

lemma one_remover:
  "length (filter (\<lambda>(c, r). c = ch \<and> r \<noteq> None) (fst (removals cs t))) =
     (if ch \<in> set cs \<and> get ch t \<noteq> None then 1 else 0)"
proof (induction cs arbitrary: t)
  case (Cons c cs)
  obtain r t1 where r: "rem c t = (r, t1)" by fastforce
  obtain rs t2 where rs: "removals cs t1 = (rs, t2)" by fastforce
  have "r = get c t" "get ch t1 = (if ch = c then None else get ch t)"
    using rem_ret[of c t] rem_get[of ch c t] r by simp_all
  with Cons.IH[of t1] r rs show ?case by (auto split: if_splits)
qed simp

end

interpretation table: fd_map Get Insert Remove
  by unfold_locales (auto simp: Get_def Insert_def Remove_def split: option.splits)

section \<open>Properties\<close>

text \<open>
  \<open>Allocate\<close> always ends with the first free channel at or after the cursor: it was free, it is
  bound to the descriptor, no other channel changes, the cursor stands behind it; it fails, and changes
  nothing, exactly when all 65536 channels are bound.
\<close>

theorem Allocate_first_free:
  "case Allocate fd t of
     (Some ch, t') \<Rightarrow>
       Get ch t = None \<and> Get ch t' = Some fd \<and> (\<forall>c. c \<noteq> ch \<longrightarrow> Get c t' = Get c t) \<and>
       next_channel t' = ch + 1 \<and>
       (\<exists>d \<le> 0xFFFF. ch = next_channel t + of_nat d \<and>
          (\<forall>j < d. Get (next_channel t + of_nat j) t \<noteq> None))
   | (None, t') \<Rightarrow> t' = t \<and> (\<forall>c. Get c t \<noteq> None)"
proof (cases "Allocate fd t")
  case (Pair r t')
  show ?thesis
  proof (cases r)
    case None
    with Pair Allocate_None[of fd t t'] show ?thesis by (auto simp: Get_def dom_def)
  next
    case (Some ch)
    with Pair have a: "Allocate fd t = (Some ch, t')" by simp
    from alloc_scan_Some[of 0 fd t ch t'] a Pair Some Allocate_Some[OF a] show ?thesis
      by (auto simp: Get_def Allocate_def)
  qed
qed

lemma Allocate_first_free_witness:
  "fst (Allocate 9 (new_ChannelTable\<lparr>channel_to_fd := [0xFFFF \<mapsto> 3], next_channel := 0xFFFF\<rparr>)) = Some 0"
proof -
  let ?t = "new_ChannelTable\<lparr>channel_to_fd := [0xFFFF \<mapsto> 3], next_channel := 0xFFFF\<rparr>"
  have "Get 0 ?t = None" by (simp add: Get_def new_ChannelTable_def)
  moreover have "\<forall>c. Get c ?t \<noteq> None" if "Allocate 9 ?t = (None, t')" for t'
    using Allocate_first_free[where fd = 9 and t = ?t] unfolding that by simp
  ultimately have "Allocate 9 ?t \<noteq> (None, t')" for t' by blast
  then show ?thesis
    by (simp add: Allocate_def new_ChannelTable_def alloc_scan.simps[of 0] alloc_scan.simps[of "Suc 0"])
qed

text \<open>
  A freed channel is not reused until the cursor wraps. While no other channel is handed out, a
  channel that \<open>Allocate\<close> gives a second time is the only free one left.
\<close>

theorem Allocate_delays_reuse:
  assumes "Allocate fd t = (Some ch, t1)" and "next_channel t2 = next_channel t1"
    and "Allocate fd' t2 = (Some ch, t3)" and "c \<noteq> ch"
  shows "Get c t2 \<noteq> None"
proof -
  have cur: "next_channel t2 = ch + 1" using Allocate_Some[OF assms(1)] assms(2) by simp
  obtain j where j: "j \<le> 0xFFFF" "c = next_channel t2 + of_nat j"
    using offset_ex[of c "next_channel t2"] by blast
  have last: "ch = next_channel t2 + of_nat 0xFFFF" by (simp add: cur)
  with j assms(4) have "j < 0xFFFF" by (cases "j = 0xFFFF") auto
  with Allocate_between[of fd' t2 "0xFFFF" t3 j] assms(3) last j(2) show ?thesis
    by (simp add: Get_def)
qed

definition ex_full_but_5 :: ChannelTable where
  "ex_full_but_5 = \<lparr>channel_to_fd = (\<lambda>c. if c = 5 then None else Some 1), next_channel = 6\<rparr>"

lemma ex_Allocate_5: "\<exists>t'. Allocate fd ex_full_but_5 = (Some 5, t') \<and> next_channel t' = 6"
proof (cases "Allocate fd ex_full_but_5")
  case (Pair r t')
  have "5 \<notin> dom (channel_to_fd ex_full_but_5)" by (simp add: ex_full_but_5_def dom_def)
  with Pair Allocate_None[of fd ex_full_but_5 t'] have "r \<noteq> None" by auto
  with Pair Allocate_Some[of fd ex_full_but_5 _ t'] show ?thesis
    by (auto simp: ex_full_but_5_def split: if_splits)
qed

lemma Allocate_delays_reuse_witness: "Get 6 ex_full_but_5 \<noteq> None"
proof -
  from ex_Allocate_5[of 2] obtain t1 where
    t1: "Allocate 2 ex_full_but_5 = (Some 5, t1)" "next_channel t1 = 6" by blast
  then have "next_channel ex_full_but_5 = next_channel t1" by (simp add: ex_full_but_5_def)
  from Allocate_delays_reuse[OF t1(1) this t1(1), of 6] show ?thesis by simp
qed

text \<open>
  \<open>Remove\<close> decides. Of any sequence of removals by any threads, exactly one is given the descriptor
  bound to a channel, and none when it is not bound; the channel is unbound afterwards.
\<close>

theorem Remove_one_winner:
  "length (filter (\<lambda>(c, r). c = ch \<and> r \<noteq> None) (fst (table.removals cs t))) =
     (if ch \<in> set cs \<and> Get ch t \<noteq> None then 1 else 0) \<and>
   (ch \<in> set cs \<longrightarrow> Get ch (snd (table.removals cs t)) = None)"
  using table.one_remover table.get_removals by simp

lemma Remove_one_winner_witness:
  "Get 3 (snd (table.removals [3, 4, 3] (new_ChannelTable\<lparr>channel_to_fd := [3 \<mapsto> 9]\<rparr>))) = None"
  using Remove_one_winner[of 3 "[3, 4, 3]" "new_ChannelTable\<lparr>channel_to_fd := [3 \<mapsto> 9]\<rparr>"] by simp

end
