(* ===== verification/Gcd_Broker.thy ===== *)
theory Gcd_Broker imports Sync_Faker Sockets Channel_Table Operator_Input begin

text \<open>
  \<open>gcdbroker\<close>: \<open>nethandlers/guacd_send_handler.cpp\<close>, \<open>nethandlers/guacd_read_handler.cpp\<close> and the threads
  and shutdown order of \<open>main.cpp\<close>. The state is what the threads share (table, queues, reader group)
  with the reader threads; a step is one iteration of a thread, or one of the calls that end a reader.
\<close>

section \<open>\<open>keepalive_interval\<close>\<close>

text \<open>\<open>std::atoi\<close>: the \<open>long\<close> of \<open>strtol\<close> converted to a 32-bit \<open>int\<close>.\<close>

definition atoi :: "string \<Rightarrow> int" where
  "atoi s = signed_take_bit 31 (fst (strtol s))"

definition keepalive_interval :: "string option \<Rightarrow> int" where
  "keepalive_interval env =
     (let v = (case env of None \<Rightarrow> 0 | Some e \<Rightarrow> atoi e) in if v > 0 then v else 3000)"

lemma keepalive_interval_pos: "keepalive_interval env > 0"
  by (simp add: keepalive_interval_def Let_def)

section \<open>A reader thread\<close>

text \<open>
  Where the thread is: in its loop, past the loop, past \<open>table.Remove\<close>, past \<open>Close\<close>, or gone (the
  sentinel has left the group).
\<close>

datatype reader_pc = Reading | LoopLeft | Unbound | FdClosed | Gone

record reader =
  rd_channel :: channel
  rd_fd :: fd
  rd_faker :: "sync_fields parser"
  last_ack :: string
  last_sent :: int
  keepalive :: int
  rd_pc :: reader_pc

definition new_reader :: "string option \<Rightarrow> int \<Rightarrow> channel \<Rightarrow> fd \<Rightarrow> reader" where
  "new_reader env now ch fd =
     \<lparr>rd_channel = ch, rd_fd = fd, rd_faker = new_parser new_sync_fields, last_ack = [],
      last_sent = now, keepalive = keepalive_interval env, rd_pc = Reading\<rparr>"

text \<open>The time-based keepalive at the end of an iteration; messages for \<open>recv_queue\<close> are returned.\<close>

definition keepalive_check :: "int \<Rightarrow> reader \<Rightarrow> reader \<times> BridgeMessage list" where
  "keepalive_check now r =
     (if last_ack r \<noteq> [] \<and> now - last_sent r \<ge> keepalive r
      then (r\<lparr>last_sent := now\<rparr>, [mk_msg (rd_channel r) NONE (last_ack r)])
      else (r, []))"

text \<open>One iteration: the reader, its messages for \<open>recv_queue\<close>, its messages for \<open>send_queue\<close>.\<close>

definition reader_iteration ::
  "errno + string \<Rightarrow> int \<Rightarrow> reader \<Rightarrow> reader \<times> BridgeMessage list \<times> BridgeMessage list" where
  "reader_iteration got now r =
     (case guacd_Receive (MAX_PAYLOAD_SIZE + 1) got of
        (received, buffer) \<Rightarrow>
          if received > 0 then
            let msg = mk_msg (rd_channel r) NONE buffer in
            (case sync_Feed (rd_faker r) buffer of
               (ack, p) \<Rightarrow>
                 let r1 = r\<lparr>rd_faker := p\<rparr> in
                 if ack \<noteq> []
                 then (r1\<lparr>last_ack := ack, last_sent := now\<rparr>, [mk_msg (rd_channel r) NONE ack], [msg])
                 else (case keepalive_check now r1 of (r2, ka) \<Rightarrow> (r2, ka, [msg])))
          else if received \<noteq> RECV_TIMEOUT then (r\<lparr>rd_pc := LoopLeft\<rparr>, [], [])
          else (case keepalive_check now r of (r2, ka) \<Rightarrow> (r2, ka, [])))"

section \<open>The process\<close>

datatype main_pc = Serving | RecvClosed | FdsShut | ReadersLeft | SendClosed

record gcd =
  tbl :: ChannelTable
  recv_queue :: NetQueue
  send_queue :: NetQueue
  readers :: ReaderGroup
  threads :: "reader list"
  env_keepalive :: "string option"
  running :: bool
  udp_recv_done :: bool
  guacd_send_done :: bool
  gcd_main :: main_pc

definition new_gcd :: "string option \<Rightarrow> gcd" where
  "new_gcd env =
     \<lparr>tbl = new_ChannelTable, recv_queue = new_NetQueue, send_queue = new_NetQueue,
      readers = new_ReaderGroup, threads = [], env_keepalive = env, running = True,
      udp_recv_done = False, guacd_send_done = False, gcd_main = Serving\<rparr>"

definition enqueue_all :: "BridgeMessage list \<Rightarrow> NetQueue \<Rightarrow> NetQueue" where
  "enqueue_all ms q = fold Enqueue ms q"

lemma queue_enqueue_all [simp]: "queue (enqueue_all ms q) = queue q @ ms"
  by (induction ms arbitrary: q) (simp_all add: enqueue_all_def)

text \<open>What a step does that is visible: messages taken and sent, and calls on sockets.\<close>

datatype obs = Dequeued BridgeMessage | Connected fd | SentTo fd string | ShutFd fd | ClosedFd fd
  | Datagram string

section \<open>\<open>GuacdSendHandler\<close>\<close>

definition handle_verdict :: "int \<Rightarrow> int \<Rightarrow> BridgeMessage \<Rightarrow> gcd \<Rightarrow> gcd \<times> obs list" where
  "handle_verdict cfd now msg s =
     (let verdict = (if payload msg = [] then APPROVAL_DENY else hd (payload msg)) in
      if verdict = APPROVAL_APPROVE then
        (case (if cfd \<ge> 0 then Insert (channel msg) cfd (tbl s) else (False, tbl s)) of
           (True, t) \<Rightarrow>
             (s\<lparr>tbl := t, readers := Enter (readers s),
                threads := threads s @ [new_reader (env_keepalive s) now (channel msg) cfd],
                send_queue := Enqueue msg (send_queue s)\<rparr>, [Connected cfd])
         | (False, _) \<Rightarrow>
             (s\<lparr>send_queue := Enqueue (msg\<lparr>payload := APPROVAL_DENY # tl (payload msg)\<rparr>) (send_queue s)\<rparr>,
              if cfd \<ge> 0 then [Connected cfd, ClosedFd cfd] else []))
      else (s\<lparr>send_queue := Enqueue msg (send_queue s)\<rparr>, []))"

definition handle_teardown :: "BridgeMessage \<Rightarrow> gcd \<Rightarrow> gcd \<times> obs list" where
  "handle_teardown msg s =
     (case Remove (channel msg) (tbl s) of
        (r, t) \<Rightarrow>
          (s\<lparr>tbl := t, send_queue := Enqueue (mk_msg (channel msg) SHUTDOWN_CHANNEL []) (send_queue s)\<rparr>,
           case r of None \<Rightarrow> [] | Some fd \<Rightarrow> [ShutFd fd]))"

text \<open>\<^const>\<open>None\<close>: the write still waits for the kernel.\<close>

definition handle_data :: "(errno + nat) list \<Rightarrow> BridgeMessage \<Rightarrow> gcd \<Rightarrow> (gcd \<times> obs list) option" where
  "handle_data rs msg s =
     (case Get (channel msg) (tbl s) of
        None \<Rightarrow> Some (s, [])
      | Some fd \<Rightarrow>
          (case guacd_Send fd (payload msg) rs of
             (None, _) \<Rightarrow> None
           | (Some rc, chunks) \<Rightarrow>
               if rc < 0 then
                 (case Remove (channel msg) (tbl s) of
                    (dead, t) \<Rightarrow>
                      Some (s\<lparr>tbl := t\<rparr>,
                        SentTo fd (concat chunks) # (case dead of None \<Rightarrow> [] | Some d \<Rightarrow> [ShutFd d])))
               else Some (s, [SentTo fd (concat chunks)])))"

definition handle_message ::
  "int \<Rightarrow> int \<Rightarrow> (errno + nat) list \<Rightarrow> BridgeMessage \<Rightarrow> gcd \<Rightarrow> (gcd \<times> obs list) option" where
  "handle_message cfd now rs msg s =
     (case action msg of
        CREATE_CHANNEL \<Rightarrow> Some (s, [])
      | APPROVAL \<Rightarrow> Some (handle_verdict cfd now msg s)
      | SHUTDOWN_CHANNEL \<Rightarrow> Some (handle_teardown msg s)
      | NONE \<Rightarrow> handle_data rs msg s)"

section \<open>Steps\<close>

text \<open>
  One constructor per thread and point of its loop. \<open>Handle\<close> carries what \<open>Connect\<close> would return, the
  time, and the results of the \<open>send\<close> calls; \<open>Read i\<close> is an iteration of the \<open>i\<close>-th reader started.
\<close>

datatype gcd_event =
    Interrupt
  | UdpRecv "errno + string" | UdpRecvEnd
  | Handle int int "(errno + nat) list" | HandleEnd
  | UdpSend
  | Read nat "errno + string" int | StopReading nat | Unbind nat | CloseFd nat | LeaveGroup nat
  | JoinRecv | ShutdownFds "channel list" | WaitReaders | CloseSend

definition fd_open :: "reader \<Rightarrow> bool" where
  "fd_open r \<longleftrightarrow> rd_pc r \<in> {Reading, LoopLeft, Unbound}"

definition open_fds :: "gcd \<Rightarrow> fd list" where
  "open_fds s = map rd_fd (filter fd_open (threads s))"

text \<open>The keys of the table: every entry belongs to a reader that was started.\<close>

definition bound :: "gcd \<Rightarrow> channel list" where
  "bound s = filter (\<lambda>ch. Get ch (tbl s) \<noteq> None) (map rd_channel (threads s))"

definition at_pc :: "nat \<Rightarrow> reader_pc \<Rightarrow> gcd \<Rightarrow> bool" where
  "at_pc i pc s \<longleftrightarrow> i < length (threads s) \<and> rd_pc (threads s ! i) = pc"

definition set_pc :: "nat \<Rightarrow> reader_pc \<Rightarrow> gcd \<Rightarrow> gcd" where
  "set_pc i pc s = s\<lparr>threads := (threads s)[i := (threads s ! i)\<lparr>rd_pc := pc\<rparr>]\<rparr>"

text \<open>After the loop: \<open>table.Remove\<close>, and the announcement if it gave the entry.\<close>

definition reader_unbind :: "nat \<Rightarrow> gcd \<Rightarrow> gcd" where
  "reader_unbind i s =
     (let ch = rd_channel (threads s ! i) in
      case Remove ch (tbl s) of
        (r, t) \<Rightarrow>
          set_pc i Unbound
            (if r = None then s\<lparr>tbl := t\<rparr>
             else s\<lparr>tbl := t, send_queue := Enqueue (mk_msg ch SHUTDOWN_CHANNEL []) (send_queue s)\<rparr>))"

definition reader_read :: "nat \<Rightarrow> errno + string \<Rightarrow> int \<Rightarrow> gcd \<Rightarrow> gcd" where
  "reader_read i got now s =
     (case reader_iteration got now (threads s ! i) of
        (r, rq, sq) \<Rightarrow>
          s\<lparr>threads := (threads s)[i := r], recv_queue := enqueue_all rq (recv_queue s),
            send_queue := enqueue_all sq (send_queue s)\<rparr>)"

text \<open>The kernel hands out a descriptor no open connection has: the guard of \<open>Handle\<close>.\<close>

fun gcd_step :: "gcd_event \<Rightarrow> gcd \<Rightarrow> (gcd \<times> obs list) option" where
  "gcd_step Interrupt s = Some (s\<lparr>running := False\<rparr>, [])"
| "gcd_step (UdpRecv r) s =
     (if udp_recv_done s then None else Some (s\<lparr>recv_queue := udp_recv_step r (recv_queue s)\<rparr>, []))"
| "gcd_step UdpRecvEnd s = (if running s then None else Some (s\<lparr>udp_recv_done := True\<rparr>, []))"
| "gcd_step (Handle cfd now rs) s =
     (if guacd_send_done s \<or> cfd \<in> set (open_fds s) then None
      else
        (case Dequeue (recv_queue s) of
           (Got m, q) \<Rightarrow>
             (case handle_message cfd now rs m (s\<lparr>recv_queue := q\<rparr>) of
                None \<Rightarrow> None
              | Some (s', os) \<Rightarrow> Some (s', Dequeued m # os))
         | (_, _) \<Rightarrow> None))"
| "gcd_step HandleEnd s =
     (if \<not> running s \<or> fst (Dequeue (recv_queue s)) = Finished
      then Some (s\<lparr>guacd_send_done := True\<rparr>, []) else None)"
| "gcd_step UdpSend s =
     (case udp_send_step (send_queue s) of
        (None, _) \<Rightarrow> None
      | (Some d, q) \<Rightarrow> Some (s\<lparr>send_queue := q\<rparr>, [Datagram d]))"
| "gcd_step (Read i got now) s =
     (if at_pc i Reading s then Some (reader_read i got now s, []) else None)"
| "gcd_step (StopReading i) s =
     (if at_pc i Reading s \<and> \<not> running s then Some (set_pc i LoopLeft s, []) else None)"
| "gcd_step (Unbind i) s = (if at_pc i LoopLeft s then Some (reader_unbind i s, []) else None)"
| "gcd_step (CloseFd i) s =
     (if at_pc i Unbound s then Some (set_pc i FdClosed s, [ClosedFd (rd_fd (threads s ! i))]) else None)"
| "gcd_step (LeaveGroup i) s =
     (if at_pc i FdClosed s
      then Some ((set_pc i Gone s)\<lparr>readers := Leave (readers s)\<rparr>, []) else None)"
| "gcd_step JoinRecv s =
     (if gcd_main s = Serving \<and> udp_recv_done s
      then Some (s\<lparr>recv_queue := CloseQueue (recv_queue s), gcd_main := RecvClosed\<rparr>, []) else None)"
| "gcd_step (ShutdownFds order) s =
     (if gcd_main s = RecvClosed \<and> guacd_send_done s \<and> distinct order \<and> set order = set (bound s)
      then Some (s\<lparr>gcd_main := FdsShut\<rparr>, map ShutFd (Fds order (tbl s))) else None)"
| "gcd_step WaitReaders s =
     (if gcd_main s = FdsShut \<and> WaitAll (readers s)
      then Some (s\<lparr>gcd_main := ReadersLeft\<rparr>, []) else None)"
| "gcd_step CloseSend s =
     (if gcd_main s = ReadersLeft
      then Some (s\<lparr>send_queue := CloseQueue (send_queue s), gcd_main := SendClosed\<rparr>, []) else None)"

inductive gcd_run :: "obs list \<Rightarrow> gcd \<Rightarrow> bool" where
  gcd_start: "gcd_run [] (new_gcd env)"
| gcd_next: "gcd_run tr s \<Longrightarrow> gcd_step e s = Some (s', os) \<Longrightarrow> gcd_run (tr @ os) s'"

fun gcd_exec :: "gcd_event list \<Rightarrow> gcd \<Rightarrow> (gcd \<times> obs list) option" where
  "gcd_exec [] s = Some (s, [])"
| "gcd_exec (e # es) s =
     (case gcd_step e s of
        None \<Rightarrow> None
      | Some (s', os) \<Rightarrow>
          (case gcd_exec es s' of None \<Rightarrow> None | Some (s'', tr) \<Rightarrow> Some (s'', os @ tr)))"

lemma gcd_exec_extends:
  "gcd_run tr0 s \<Longrightarrow> gcd_exec es s = Some (s', tr) \<Longrightarrow> gcd_run (tr0 @ tr) s'"
proof (induction es arbitrary: s tr0 tr)
  case (Cons e es)
  from Cons.prems(2) obtain s1 os tr1 where
    st: "gcd_step e s = Some (s1, os)" "gcd_exec es s1 = Some (s', tr1)" "tr = os @ tr1"
    by (auto split: option.splits)
  from Cons.IH[OF gcd_next[OF Cons.prems(1) st(1)] st(2)] st(3) show ?case by simp
qed simp

lemma gcd_exec_run: "gcd_exec es (new_gcd env) = Some (s, tr) \<Longrightarrow> gcd_run tr s"
  using gcd_exec_extends[OF gcd_start] by fastforce

end
