(* ===== verification/Gcd_Theorems.thy ===== *)
theory Gcd_Theorems imports Gcd_Broker begin

text \<open>
  What holds in every run of \<open>gcdbroker\<close>, whatever the network and guacd do and however the threads
  interleave: the table only binds channels to open connections of live readers, descriptors are used
  and closed by their owners only, guacd gets bytes only on connections dialed for an approval, and the
  shutdown waits for every reader.
\<close>

section \<open>Threads in a list\<close>

lemma length_filter_update:
  assumes "i < length xs"
  shows "int (length (filter P (xs[i := x]))) =
    int (length (filter P xs)) - (if P (xs ! i) then 1 else 0) + (if P x then 1 else 0)"
proof -
  have s: "xs[i := x] = take i xs @ x # drop (Suc i) xs" by (rule upd_conv_take_nth_drop[OF assms])
  have t: "xs = take i xs @ xs ! i # drop (Suc i) xs" by (rule id_take_nth_drop[OF assms])
  have "length (filter P xs) = length (filter P (take i xs @ xs ! i # drop (Suc i) xs))"
    using t by simp
  then show ?thesis unfolding s by simp
qed

definition live_pc :: "reader_pc \<Rightarrow> bool" where "live_pc pc \<longleftrightarrow> pc = Reading \<or> pc = LoopLeft"

definition binds :: "gcd \<Rightarrow> bool" where
  "binds s \<longleftrightarrow> (\<forall>ch fd. Get ch (tbl s) = Some fd \<longrightarrow>
     (\<exists>i < length (threads s). rd_channel (threads s ! i) = ch \<and> rd_fd (threads s ! i) = fd \<and>
        live_pc (rd_pc (threads s ! i))))"

definition fds_distinct :: "gcd \<Rightarrow> bool" where
  "fds_distinct s \<longleftrightarrow> (\<forall>i < length (threads s). \<forall>j < length (threads s).
     i \<noteq> j \<longrightarrow> fd_open (threads s ! i) \<longrightarrow> fd_open (threads s ! j) \<longrightarrow>
     rd_fd (threads s ! i) \<noteq> rd_fd (threads s ! j))"

definition counted :: "gcd \<Rightarrow> bool" where
  "counted s \<longleftrightarrow> count (readers s) = int (length (filter (\<lambda>r. rd_pc r \<noteq> Gone) (threads s)))"

definition main_ok :: "gcd \<Rightarrow> bool" where
  "main_ok s \<longleftrightarrow> (gcd_main s \<notin> {Serving, RecvClosed} \<longrightarrow> guacd_send_done s) \<and>
     (gcd_main s \<in> {ReadersLeft, SendClosed} \<longrightarrow> (\<forall>r\<in>set (threads s). rd_pc r = Gone))"

definition gcd_inv :: "gcd \<Rightarrow> bool" where
  "gcd_inv s \<longleftrightarrow> binds s \<and> fds_distinct s \<and> counted s \<and> main_ok s"

lemmas gcd_inv_defs = gcd_inv_def binds_def fds_distinct_def counted_def main_ok_def

lemma gcd_inv_new: "gcd_inv (new_gcd env)"
  by (simp add: gcd_inv_defs new_gcd_def new_ChannelTable_def new_ReaderGroup_def Get_def)

text \<open>A step of reader \<open>i\<close> that keeps its channel and descriptor.\<close>

definition moved :: "nat \<Rightarrow> reader \<Rightarrow> gcd \<Rightarrow> gcd \<Rightarrow> bool" where
  "moved i r s s' \<longleftrightarrow> i < length (threads s) \<and> threads s' = (threads s)[i := r] \<and>
     rd_channel r = rd_channel (threads s ! i) \<and> rd_fd r = rd_fd (threads s ! i) \<and>
     (fd_open r \<longrightarrow> fd_open (threads s ! i)) \<and> rd_pc (threads s ! i) \<noteq> Gone \<and>
     gcd_main s' = gcd_main s \<and> guacd_send_done s' = guacd_send_done s"

lemma moved_distinct: "moved i r s s' \<Longrightarrow> fds_distinct s \<Longrightarrow> fds_distinct s'"
  by (auto simp: moved_def fds_distinct_def nth_list_update)

lemma moved_main: "moved i r s s' \<Longrightarrow> main_ok s \<Longrightarrow> main_ok s'"
  by (auto simp: moved_def main_ok_def)

lemma moved_counted:
  assumes "moved i r s s'" and "counted s" and "readers s' = (if rd_pc r = Gone then Leave (readers s) else readers s)"
  shows "counted s'"
  using assms length_filter_update[of i "threads s" "\<lambda>r. rd_pc r \<noteq> Gone" r]
  by (auto simp: moved_def counted_def Leave_def)

lemma moved_binds:
  assumes "moved i r s s'" and "binds s"
    and "\<And>ch. Get ch (tbl s') \<noteq> None \<Longrightarrow> Get ch (tbl s') = Get ch (tbl s)"
    and "live_pc (rd_pc r) \<or> Get (rd_channel r) (tbl s') = None \<or> \<not> live_pc (rd_pc (threads s ! i))"
  shows "binds s'"
  unfolding binds_def
proof (intro allI impI)
  fix ch fd
  assume g: "Get ch (tbl s') = Some fd"
  with assms(3)[of ch] have "Get ch (tbl s) = Some fd" by simp
  with assms(2) obtain j where
    j: "j < length (threads s)" "rd_channel (threads s ! j) = ch" "rd_fd (threads s ! j) = fd"
      "live_pc (rd_pc (threads s ! j))" unfolding binds_def by blast
  show "\<exists>j < length (threads s'). rd_channel (threads s' ! j) = ch \<and> rd_fd (threads s' ! j) = fd \<and>
      live_pc (rd_pc (threads s' ! j))"
    using j g assms(1,4) by (intro exI[of _ j]) (auto simp: moved_def nth_list_update)
qed

lemma moved_inv:
  assumes "gcd_inv s" and "moved i r s s'"
    and "readers s' = (if rd_pc r = Gone then Leave (readers s) else readers s)"
    and "\<And>ch. Get ch (tbl s') \<noteq> None \<Longrightarrow> Get ch (tbl s') = Get ch (tbl s)"
    and "live_pc (rd_pc r) \<or> Get (rd_channel r) (tbl s') = None \<or> \<not> live_pc (rd_pc (threads s ! i))"
  shows "gcd_inv s'"
  using assms moved_distinct moved_main moved_counted moved_binds by (simp add: gcd_inv_def)

text \<open>A step that starts no reader and moves none.\<close>

lemma still_inv:
  assumes "gcd_inv s" and "threads s' = threads s" and "readers s' = readers s"
    and "\<And>ch. Get ch (tbl s') \<noteq> None \<Longrightarrow> Get ch (tbl s') = Get ch (tbl s)"
    and "main_ok s'"
  shows "gcd_inv s'"
  using assms unfolding gcd_inv_def binds_def fds_distinct_def counted_def
  by (metis option.distinct(1))

section \<open>Each step keeps the invariant\<close>

lemma iteration_keeps:
  assumes "reader_iteration got now r = (r', rq, sq)"
  shows "rd_channel r' = rd_channel r \<and> rd_fd r' = rd_fd r \<and> (rd_pc r' = rd_pc r \<or> rd_pc r' = LoopLeft)"
  using assms
  by (auto simp: reader_iteration_def keepalive_check_def Let_def split: prod.splits if_splits)

lemma Remove_get: "Remove ch t = (r, t') \<Longrightarrow> Get c t' = (if c = ch then None else Get c t)"
  using table.rem_get[of c ch t] by simp

lemma Remove_ret: "Remove ch t = (r, t') \<Longrightarrow> r = Get ch t"
  using table.rem_ret[of ch t] by simp

lemma read_inv: "gcd_inv s \<Longrightarrow> at_pc i Reading s \<Longrightarrow> gcd_inv (reader_read i got now s)"
proof -
  assume a: "gcd_inv s" "at_pc i Reading s"
  obtain r rq sq where r: "reader_iteration got now (threads s ! i) = (r, rq, sq)"
    by (metis prod_cases3)
  from iteration_keeps[OF r] a(2) show ?thesis
    by (intro moved_inv[OF a(1), of i r])
      (auto simp: reader_read_def r moved_def at_pc_def live_pc_def fd_open_def)
qed

lemma unbind_inv: "gcd_inv s \<Longrightarrow> at_pc i LoopLeft s \<Longrightarrow> gcd_inv (reader_unbind i s)"
proof -
  assume a: "gcd_inv s" "at_pc i LoopLeft s"
  obtain r t where r: "Remove (rd_channel (threads s ! i)) (tbl s) = (r, t)" by fastforce
  from Remove_get[OF r] a(2) show ?thesis
    by (intro moved_inv[OF a(1), of i "(threads s ! i)\<lparr>rd_pc := Unbound\<rparr>"])
      (auto simp: reader_unbind_def r Let_def set_pc_def moved_def at_pc_def fd_open_def split: if_splits)
qed

lemma set_pc_inv:
  assumes "gcd_inv s" and "at_pc i pc s" and "(pc, pc') \<in> {(Reading, LoopLeft), (Unbound, FdClosed)}"
  shows "gcd_inv (set_pc i pc' s)"
  using assms(2,3)
  by (intro moved_inv[OF assms(1), of i "(threads s ! i)\<lparr>rd_pc := pc'\<rparr>"])
    (auto simp: set_pc_def moved_def at_pc_def fd_open_def live_pc_def)

lemma leave_inv:
  assumes "gcd_inv s" and "at_pc i FdClosed s"
  shows "gcd_inv ((set_pc i Gone s)\<lparr>readers := Leave (readers s)\<rparr>)"
  using assms(2)
  by (intro moved_inv[OF assms(1), of i "(threads s ! i)\<lparr>rd_pc := Gone\<rparr>"])
    (auto simp: set_pc_def moved_def at_pc_def fd_open_def live_pc_def)

lemma open_fds_iff: "fd \<in> set (open_fds s) \<longleftrightarrow> (\<exists>i < length (threads s). fd_open (threads s ! i) \<and> rd_fd (threads s ! i) = fd)"
  by (auto simp: open_fds_def in_set_conv_nth)

lemma spawn_inv:
  assumes "gcd_inv s" and "\<not> guacd_send_done s" and "cfd \<notin> set (open_fds s)"
    and "Insert ch cfd (tbl s) = (True, t)"
  shows "gcd_inv (s\<lparr>tbl := t, readers := Enter (readers s),
    threads := threads s @ [new_reader env now ch cfd], send_queue := sq\<rparr>)" (is "gcd_inv ?s")
proof -
  let ?r = "new_reader env now ch cfd"
  have r: "rd_channel ?r = ch" "rd_fd ?r = cfd" "rd_pc ?r = Reading" by (simp_all add: new_reader_def)
  have nth: "\<And>i. i < length (threads ?s) \<Longrightarrow> threads ?s ! i = (if i < length (threads s) then threads s ! i else ?r)"
    by (simp add: nth_append)
  have get: "Get c t = (if c = ch then Some cfd else Get c (tbl s))" for c
    using table.ins_get[of c ch cfd "tbl s"] table.ins_ok[of ch cfd "tbl s"] assms(4) by (auto split: if_splits)
  have "binds ?s"
    unfolding binds_def
  proof (intro allI impI)
    fix c fd
    assume g: "Get c (tbl ?s) = Some fd"
    show "\<exists>i < length (threads ?s). rd_channel (threads ?s ! i) = c \<and> rd_fd (threads ?s ! i) = fd \<and>
        live_pc (rd_pc (threads ?s ! i))"
    proof (cases "c = ch")
      case True
      with g get r show ?thesis by (intro exI[of _ "length (threads s)"]) (simp add: live_pc_def)
    next
      case False
      with g get[of c] assms(1) obtain i where "i < length (threads s)"
        "rd_channel (threads s ! i) = c" "rd_fd (threads s ! i) = fd" "live_pc (rd_pc (threads s ! i))"
        unfolding gcd_inv_def binds_def by auto
      then show ?thesis by (intro exI[of _ i]) (simp add: nth_append)
    qed
  qed
  moreover have "fds_distinct ?s"
    using assms(1,3) r unfolding gcd_inv_def fds_distinct_def open_fds_iff
    by (auto simp: nth_append less_Suc_eq)
  moreover have "counted ?s" using assms(1) r by (simp add: gcd_inv_def counted_def Enter_def)
  moreover have "main_ok ?s" using assms(1,2) r by (auto simp: gcd_inv_def main_ok_def)
  ultimately show ?thesis by (simp add: gcd_inv_def)
qed

lemma main_still: "gcd_inv s \<Longrightarrow> threads s' = threads s \<Longrightarrow> gcd_main s' = gcd_main s \<Longrightarrow>
    guacd_send_done s' = guacd_send_done s \<Longrightarrow> main_ok s'"
  by (simp add: gcd_inv_def main_ok_def)

lemma verdict_inv:
  assumes "gcd_inv s" and "\<not> guacd_send_done s" and "cfd \<notin> set (open_fds s)"
    and "handle_verdict cfd now m s = (s', os)"
  shows "gcd_inv s'"
proof -
  have still: "gcd_inv (s\<lparr>send_queue := q\<rparr>)" for q
    by (rule still_inv[OF assms(1)]) (auto intro: main_still[OF assms(1)])
  show ?thesis
    using assms(4) still spawn_inv[OF assms(1-3)]
    by (auto simp: handle_verdict_def Let_def split: if_splits prod.splits bool.splits)
qed

lemma teardown_inv:
  assumes "gcd_inv s" and "handle_teardown m s = (s', os)"
  shows "gcd_inv s'"
proof -
  obtain r t where r: "Remove (channel m) (tbl s) = (r, t)" by fastforce
  have "gcd_inv (s\<lparr>tbl := t, send_queue := q\<rparr>)" for q
    by (rule still_inv[OF assms(1)]) (auto intro: main_still[OF assms(1)] simp: Remove_get[OF r])
  with assms(2) r show ?thesis by (auto simp: handle_teardown_def)
qed

lemma data_inv:
  assumes "gcd_inv s" and "handle_data rs m s = Some (s', os)"
  shows "gcd_inv s'"
proof -
  obtain r t where r: "Remove (channel m) (tbl s) = (r, t)" by fastforce
  have "gcd_inv (s\<lparr>tbl := t\<rparr>)"
    by (rule still_inv[OF assms(1)]) (auto intro: main_still[OF assms(1)] simp: Remove_get[OF r])
  with assms r show ?thesis
    by (auto simp: handle_data_def split: option.splits prod.splits if_splits)
qed

lemma queue_inv: "gcd_inv s \<Longrightarrow> gcd_inv (s\<lparr>recv_queue := q\<rparr>)"
  by (rule still_inv) (auto intro: main_still)

lemma message_inv:
  assumes "gcd_inv s" and "\<not> guacd_send_done s" and "cfd \<notin> set (open_fds s)"
    and "handle_message cfd now rs m s = Some (s', os)"
  shows "gcd_inv s'"
proof (cases "action m")
  case NONE
  with assms(4) data_inv[OF assms(1)] show ?thesis by (simp add: handle_message_def)
next
  case CREATE_CHANNEL
  with assms show ?thesis by (simp add: handle_message_def)
next
  case SHUTDOWN_CHANNEL
  with assms(4) show ?thesis by (intro teardown_inv[OF assms(1)]) (simp add: handle_message_def)
next
  case APPROVAL
  with assms(4) show ?thesis by (intro verdict_inv[OF assms(1-3)]) (simp add: handle_message_def)
qed

lemma handleE:
  assumes "gcd_step (Handle cfd now rs) s = Some (s', os)"
  obtains m q os' where "\<not> guacd_send_done s" "cfd \<notin> set (open_fds s)"
    "Dequeue (recv_queue s) = (Got m, q)" "os = Dequeued m # os'"
    "handle_message cfd now rs m (s\<lparr>recv_queue := q\<rparr>) = Some (s', os')"
  using assms by (auto split: if_splits prod.splits dequeued.splits option.splits)

lemma main_inv:
  assumes "gcd_inv s" and "gcd_step e s = Some (s', os)"
    and "e = Interrupt \<or> e = UdpRecvEnd \<or> e = HandleEnd \<or> e = UdpSend \<or> (\<exists>r. e = UdpRecv r) \<or>
      e = JoinRecv \<or> (\<exists>ord. e = ShutdownFds ord) \<or> e = CloseSend"
  shows "gcd_inv s'"
proof (rule still_inv[OF assms(1)])
  show "threads s' = threads s" "readers s' = readers s" "\<And>ch. Get ch (tbl s') = Get ch (tbl s)"
    using assms(2,3) by (auto split: if_splits prod.splits option.splits)
  show "main_ok s'"
    using assms by (auto simp: gcd_inv_def main_ok_def split: if_splits prod.splits option.splits)
qed

lemma wait_inv:
  assumes "gcd_inv s" and "gcd_main s = FdsShut" and "WaitAll (readers s)"
  shows "gcd_inv (s\<lparr>gcd_main := ReadersLeft\<rparr>)"
proof (rule still_inv[OF assms(1)])
  have "length (filter (\<lambda>r. rd_pc r \<noteq> Gone) (threads s)) = 0"
    using assms by (simp add: gcd_inv_def counted_def WaitAll_def)
  then have "\<forall>r\<in>set (threads s). rd_pc r = Gone" by (auto simp: filter_empty_conv)
  with assms(1,2) show "main_ok (s\<lparr>gcd_main := ReadersLeft\<rparr>)" by (simp add: gcd_inv_def main_ok_def)
qed simp_all

lemma step_inv:
  assumes "gcd_inv s" and "gcd_step e s = Some (s', os)"
  shows "gcd_inv s'"
proof (cases e)
  case (Handle cfd now rs)
  with assms(2) obtain m q os' where h: "\<not> guacd_send_done s" "cfd \<notin> set (open_fds s)"
    "handle_message cfd now rs m (s\<lparr>recv_queue := q\<rparr>) = Some (s', os')"
    using handleE by metis
  from message_inv[OF queue_inv[OF assms(1)], of q cfd now rs m s' os'] h show ?thesis
    by (simp add: open_fds_def)
next
  case (Read i got now)
  with assms read_inv show ?thesis by (auto split: if_splits)
next
  case (StopReading i)
  with assms set_pc_inv[OF assms(1), of i Reading LoopLeft] show ?thesis by (auto split: if_splits)
next
  case (Unbind i)
  with assms unbind_inv show ?thesis by (auto split: if_splits)
next
  case (CloseFd i)
  with assms set_pc_inv[OF assms(1), of i Unbound FdClosed] show ?thesis by (auto split: if_splits)
next
  case (LeaveGroup i)
  with assms leave_inv show ?thesis by (auto split: if_splits)
next
  case WaitReaders
  with assms wait_inv show ?thesis by (auto split: if_splits)
qed (use main_inv[OF assms] in auto)

lemma run_inv: "gcd_run tr s \<Longrightarrow> gcd_inv s"
  by (induction rule: gcd_run.induct) (auto intro: gcd_inv_new step_inv)

lemma bound_iff:
  assumes "gcd_inv s"
  shows "ch \<in> set (bound s) \<longleftrightarrow> Get ch (tbl s) \<noteq> None"
proof
  assume "Get ch (tbl s) \<noteq> None"
  with assms obtain i where "i < length (threads s)" "rd_channel (threads s ! i) = ch"
    unfolding gcd_inv_def binds_def by blast
  with \<open>Get ch (tbl s) \<noteq> None\<close> show "ch \<in> set (bound s)" by (auto simp: bound_def)
qed (auto simp: bound_def)

section \<open>What a run shows\<close>

text \<open>
  The specification of the gate: an approval for \<open>ch\<close> was taken from the queue, answered by dialing \<open>fd\<close>,
  and no \<open>SHUTDOWN\<close> for \<open>ch\<close> was taken since.
\<close>

definition ends :: "channel \<Rightarrow> obs \<Rightarrow> bool" where
  "ends ch x = (case x of Dequeued m \<Rightarrow> channel m = ch \<and> action m = SHUTDOWN_CHANNEL | _ \<Rightarrow> False)"

definition opened :: "obs list \<Rightarrow> channel \<Rightarrow> fd \<Rightarrow> bool" where
  "opened tr ch fd \<longleftrightarrow> (\<exists>a pl b.
     tr = a @ [Dequeued (mk_msg ch APPROVAL (APPROVAL_APPROVE # pl)), Connected fd] @ b \<and>
     list_all (\<lambda>x. \<not> ends ch x) b)"

lemma opened_append: "opened tr ch fd \<Longrightarrow> list_all (\<lambda>x. \<not> ends ch x) os \<Longrightarrow> opened (tr @ os) ch fd"
  unfolding opened_def
proof (elim exE conjE)
  fix a pl b
  assume "tr = a @ [Dequeued (mk_msg ch APPROVAL (APPROVAL_APPROVE # pl)), Connected fd] @ b"
    "list_all (\<lambda>x. \<not> ends ch x) b" "list_all (\<lambda>x. \<not> ends ch x) os"
  then show "\<exists>a pl b'. tr @ os = a @ [Dequeued (mk_msg ch APPROVAL (APPROVAL_APPROVE # pl)), Connected fd] @ b' \<and>
      list_all (\<lambda>x. \<not> ends ch x) b'"
    by (intro exI[of _ a] exI[of _ pl] exI[of _ "b @ os"]) simp
qed

lemma opened_now: "opened (tr @ [Dequeued (mk_msg ch APPROVAL (APPROVAL_APPROVE # pl)), Connected fd]) ch fd"
  unfolding opened_def by (intro exI[of _ tr] exI[of _ pl] exI[of _ "[]"]) simp

lemma msg_eqI: "channel m = ch \<Longrightarrow> action m = a \<Longrightarrow> payload m = p \<Longrightarrow> m = mk_msg ch a p"
  by simp

lemma verdict_table:
  assumes "handle_verdict cfd now m s = (s', os)" and "Get ch (tbl s') = Some fd"
  shows "Get ch (tbl s) = Some fd \<and> list_all (\<lambda>x. \<not> ends ch x) os \<or>
    (\<exists>pl. payload m = APPROVAL_APPROVE # pl \<and> channel m = ch \<and> os = [Connected fd])"
proof (cases "tbl s' = tbl s")
  case True
  with assms show ?thesis
    by (auto simp: handle_verdict_def Let_def ends_def split: if_splits prod.splits bool.splits)
next
  case False
  with assms(1) obtain t where i: "Insert (channel m) cfd (tbl s) = (True, t)" "tbl s' = t"
    "os = [Connected cfd]" "payload m \<noteq> []" "hd (payload m) = APPROVAL_APPROVE"
    by (auto simp: handle_verdict_def Let_def split: if_splits prod.splits bool.splits)
  then have p: "payload m = APPROVAL_APPROVE # tl (payload m)" by (cases "payload m") auto
  from assms(2) i(1,2) table.ins_get[of ch "channel m" cfd "tbl s"]
  have "ch = channel m \<and> cfd = fd \<or> Get ch (tbl s) = Some fd" by (auto split: if_splits)
  with i(3) p show ?thesis by (auto simp: ends_def)
qed

lemma message_table:
  assumes "handle_message cfd now rs m s = Some (s', os)" and "Get ch (tbl s') = Some fd"
  shows "Get ch (tbl s) = Some fd \<and> list_all (\<lambda>x. \<not> ends ch x) (Dequeued m # os) \<or>
    (\<exists>pl. m = mk_msg ch APPROVAL (APPROVAL_APPROVE # pl) \<and> os = [Connected fd])"
proof (cases "action m")
  case APPROVAL
  with assms(1) have "handle_verdict cfd now m s = (s', os)" by (simp add: handle_message_def)
  from verdict_table[OF this assms(2)] show ?thesis
  proof (elim disjE exE conjE)
    fix pl
    assume "payload m = APPROVAL_APPROVE # pl" "channel m = ch" "os = [Connected fd]"
    with msg_eqI[OF _ APPROVAL] show ?thesis by blast
  qed (use APPROVAL in \<open>simp add: ends_def\<close>)
next
  case SHUTDOWN_CHANNEL
  obtain r t where "Remove (channel m) (tbl s) = (r, t)" by fastforce
  with assms SHUTDOWN_CHANNEL Remove_get[OF this, of ch] show ?thesis
    by (auto simp: handle_message_def handle_teardown_def ends_def split: if_splits option.splits)
next
  case NONE
  obtain r t where r: "Remove (channel m) (tbl s) = (r, t)" by fastforce
  with assms NONE Remove_get[OF this, of ch] show ?thesis
    by (auto simp: handle_message_def handle_data_def ends_def split: if_splits option.splits prod.splits)
next
  case CREATE_CHANNEL
  with assms show ?thesis by (simp add: handle_message_def ends_def)
qed

lemma other_table:
  assumes "gcd_step e s = Some (s', os)" and "\<nexists>cfd now rs. e = Handle cfd now rs"
  shows "(Get ch (tbl s') = Some fd \<longrightarrow> Get ch (tbl s) = Some fd) \<and>
    list_all (\<lambda>x. \<not> ends ch x \<and> (\<forall>fd bs. x \<noteq> SentTo fd bs)) os"
proof (cases e)
  case (Unbind i)
  obtain r t where "Remove (rd_channel (threads s ! i)) (tbl s) = (r, t)" by fastforce
  with assms Unbind Remove_get[OF this, of ch] show ?thesis
    by (auto simp: reader_unbind_def set_pc_def Let_def split: if_splits)
qed (use assms in \<open>auto simp: set_pc_def reader_read_def ends_def list_all_iff split: if_splits prod.splits option.splits\<close>)

lemma message_sent:
  assumes "handle_message cfd now rs m s = Some (s', os)" and "SentTo fd bs \<in> set os"
  shows "\<exists>n rest. os = SentTo fd bs # rest \<and> (\<forall>fd' bs'. SentTo fd' bs' \<notin> set rest) \<and> action m = NONE \<and>
    Get (channel m) (tbl s) = Some fd \<and> bs = take n (payload m)"
proof (cases "action m")
  case NONE
  with assms have d: "handle_data rs m s = Some (s', os)" by (simp add: handle_message_def)
  then obtain fd' where g: "Get (channel m) (tbl s) = Some fd'"
    using assms(2) by (auto simp: handle_data_def split: option.splits)
  obtain n where "concat (snd (guacd_Send fd' (payload m) rs)) = take n (payload m)"
  proof (cases "fd' < 0")
    case True
    then show ?thesis by (intro that[of 0]) (simp add: guacd_Send_def)
  next
    case False
    with send_loop_prefix[of "payload m" 0 rs] that show ?thesis by (auto simp: guacd_Send_def)
  qed
  with d g assms(2) NONE show ?thesis
    by (auto simp: handle_data_def split: option.splits prod.splits if_splits)
next
  case APPROVAL
  with assms show ?thesis
    by (auto simp: handle_message_def handle_verdict_def Let_def split: if_splits prod.splits bool.splits)
qed (use assms in \<open>auto simp: handle_message_def handle_teardown_def split: prod.splits option.splits\<close>)

text \<open>Every write in a trace is right after the message it forwards, on a connection opened before.\<close>

definition sends_ok :: "obs list \<Rightarrow> bool" where
  "sends_ok tr \<longleftrightarrow> (\<forall>pre fd bs post. tr = pre @ SentTo fd bs # post \<longrightarrow>
     (\<exists>front m n. pre = front @ [Dequeued m] \<and> action m = NONE \<and> bs = take n (payload m) \<and>
        opened front (channel m) fd))"

lemma sends_ok_quiet:
  assumes "sends_ok tr" and "\<forall>fd bs. SentTo fd bs \<notin> set os"
  shows "sends_ok (tr @ os)"
  unfolding sends_ok_def
proof (intro allI impI)
  fix pre fd bs post
  assume "tr @ os = pre @ SentTo fd bs # post"
  moreover from assms(2) have "SentTo fd bs \<notin> set os" by blast
  ultimately obtain post' where "tr = pre @ SentTo fd bs # post'"
    by (fastforce simp: append_eq_append_conv2 append_eq_Cons_conv)
  with assms(1) show "\<exists>front m n. pre = front @ [Dequeued m] \<and> action m = NONE \<and> bs = take n (payload m) \<and>
        opened front (channel m) fd" unfolding sends_ok_def by blast
qed

lemma sends_ok_forward:
  assumes "sends_ok tr" and "opened tr (channel m) fd" and "action m = NONE" and "bs = take n (payload m)"
  shows "sends_ok (tr @ [Dequeued m, SentTo fd bs])"
  unfolding sends_ok_def
proof (intro allI impI)
  fix pre fd' bs' post
  assume e: "tr @ [Dequeued m, SentTo fd bs] = pre @ SentTo fd' bs' # post"
  show "\<exists>front m n. pre = front @ [Dequeued m] \<and> action m = NONE \<and> bs' = take n (payload m) \<and>
        opened front (channel m) fd'"
  proof (cases post rule: rev_cases)
    case Nil
    with e have "pre = tr @ [Dequeued m]" "fd' = fd" "bs' = bs" by auto
    with assms show ?thesis by blast
  next
    case (snoc ys y)
    with e have "tr @ [Dequeued m] = pre @ SentTo fd' bs' # ys" by simp
    with sends_ok_quiet[OF assms(1), of "[Dequeued m]"] show ?thesis unfolding sends_ok_def by auto
  qed
qed

definition gate_inv :: "obs list \<Rightarrow> gcd \<Rightarrow> bool" where
  "gate_inv tr s \<longleftrightarrow> sends_ok tr \<and> (\<forall>ch fd. Get ch (tbl s) = Some fd \<longrightarrow> opened tr ch fd)"

lemma gate_step:
  assumes "gate_inv tr s" and "gcd_step e s = Some (s', os)"
  shows "gate_inv (tr @ os) s'"
proof (cases "\<exists>cfd now rs. e = Handle cfd now rs")
  case False
  from other_table[OF assms(2)] False
  have o: "Get ch (tbl s') = Some fd \<Longrightarrow> Get ch (tbl s) = Some fd \<and> list_all (\<lambda>x. \<not> ends ch x) os"
    and q: "\<forall>fd bs. SentTo fd bs \<notin> set os" for ch fd unfolding list_all_iff by blast+
  with assms(1) show ?thesis
    by (auto simp: gate_inv_def intro: sends_ok_quiet opened_append dest: o)
next
  case True
  then obtain cfd now rs m q os' where h: "os = Dequeued m # os'"
    "handle_message cfd now rs m (s\<lparr>recv_queue := q\<rparr>) = Some (s', os')"
    using assms(2) handleE by metis
  have "opened (tr @ os) ch fd" if "Get ch (tbl s') = Some fd" for ch fd
    using message_table[OF h(2) that] assms(1) h(1) opened_now
    by (auto simp: gate_inv_def intro: opened_append)
  moreover have "sends_ok (tr @ os)"
  proof (cases "\<exists>fd bs. SentTo fd bs \<in> set os'")
    case False
    with h(1) assms(1) show ?thesis by (auto simp: gate_inv_def intro: sends_ok_quiet)
  next
    case True
    then obtain fd bs where "SentTo fd bs \<in> set os'" by blast
    from message_sent[OF h(2) this] obtain n rest where
      r: "os' = SentTo fd bs # rest" "\<forall>fd' bs'. SentTo fd' bs' \<notin> set rest" "action m = NONE"
        "Get (channel m) (tbl s) = Some fd" "bs = take n (payload m)" by auto
    with assms(1) have "opened tr (channel m) fd" by (auto simp: gate_inv_def)
    with sends_ok_forward[OF _ this r(3,5)] assms(1)
    have "sends_ok (tr @ [Dequeued m, SentTo fd bs])" by (simp add: gate_inv_def)
    from sends_ok_quiet[OF this r(2)] h(1) r(1) show ?thesis by simp
  qed
  ultimately show ?thesis by (simp add: gate_inv_def)
qed

lemma run_gate: "gcd_run tr s \<Longrightarrow> gate_inv tr s"
proof (induction rule: gcd_run.induct)
  case (gcd_start env)
  show ?case by (simp add: gate_inv_def sends_ok_def new_gcd_def new_ChannelTable_def Get_def)
next
  case (gcd_next tr s e s' os)
  from gate_step[OF gcd_next(3,2)] show ?case .
qed

section \<open>The size of what is sent\<close>

definition fits :: "BridgeMessage \<Rightarrow> bool" where
  "fits m \<longleftrightarrow> length (payload m) \<le> MAX_PAYLOAD_SIZE"

definition sized :: "obs list \<Rightarrow> gcd \<Rightarrow> bool" where
  "sized tr s \<longleftrightarrow> (\<forall>m\<in>set (queue (send_queue s)). fits m) \<and>
     (\<forall>m\<in>set (queue (recv_queue s)). action m = APPROVAL \<longrightarrow> fits m) \<and>
     (\<forall>d. Datagram d \<in> set tr \<longrightarrow> (\<exists>m. TryCast (Some d) = Some m))"

lemma guacd_Receive_data:
  assumes "guacd_Receive len r = (n, b)" and "n > 0"
  shows "length b \<le> len - 1 \<and> b \<noteq> [] \<and> (\<exists>bs. r = Inr bs \<and> b = take (len - 1) bs)"
  using assms by (auto simp: guacd_Receive_def Let_def RECV_TIMEOUT_def split: sum.splits if_splits)

text \<open>What one iteration puts on the queues.\<close>

lemma iteration_out:
  assumes "reader_iteration got now r = (r', rq, sq)"
  shows "(sq = [] \<or> (\<exists>bs b. got = Inr bs \<and> b = take MAX_PAYLOAD_SIZE bs \<and> b \<noteq> [] \<and> sq = [mk_msg (rd_channel r) NONE b])) \<and>
    (rq = [] \<or> rq = [mk_msg (rd_channel r) NONE (last_ack r')] \<and> last_ack r' \<noteq> [] \<and> last_sent r' = now)"
proof -
  obtain received buffer where g: "guacd_Receive (MAX_PAYLOAD_SIZE + 1) got = (received, buffer)" by fastforce
  from guacd_Receive_data[OF g] assms g show ?thesis
    by (auto simp: reader_iteration_def keepalive_check_def Let_def split: prod.splits if_splits)
qed

lemma read_sized: "sized tr s \<Longrightarrow> sized tr (reader_read i got now s)"
proof -
  assume a: "sized tr s"
  obtain r rq sq where r: "reader_iteration got now (threads s ! i) = (r, rq, sq)" by (metis prod_cases3)
  from iteration_out[OF r] have "\<forall>m\<in>set sq. fits m" "\<forall>m\<in>set rq. action m = NONE"
    by (auto simp: fits_def)
  with a show ?thesis by (auto simp: sized_def reader_read_def r)
qed

lemma message_sized:
  assumes "handle_message cfd now rs m s = Some (s', os)" and "action m = APPROVAL \<Longrightarrow> fits m"
    and "\<forall>m\<in>set (queue (send_queue s)). fits m"
  shows "(\<forall>m\<in>set (queue (send_queue s')). fits m) \<and> recv_queue s' = recv_queue s \<and> (\<forall>d. Datagram d \<notin> set os)"
proof (cases "action m")
  case APPROVAL
  with assms(2) have "fits m" by simp
  then have f: "fits m" "payload m \<noteq> [] \<Longrightarrow> fits (m\<lparr>payload := APPROVAL_DENY # tl (payload m)\<rparr>)"
    by (cases "payload m"; simp add: fits_def)+
  from assms APPROVAL show ?thesis
    by (auto simp: handle_message_def handle_verdict_def Let_def f split: if_splits prod.splits bool.splits)
next
  case SHUTDOWN_CHANNEL
  with assms show ?thesis
    by (auto simp: handle_message_def handle_teardown_def fits_def split: prod.splits option.splits)
next
  case NONE
  with assms show ?thesis
    by (auto simp: handle_message_def handle_data_def split: prod.splits option.splits if_splits)
next
  case CREATE_CHANNEL
  with assms show ?thesis by (simp add: handle_message_def)
qed

lemma recv_sized:
  "udp_recv_step r q = q \<or> (\<exists>m. fits m \<and> udp_recv_step r q = Enqueue m q)"
  by (auto simp: udp_recv_step_def fits_def TryCast_Some_iff split: prod.splits option.splits)

lemma step_sized:
  assumes "sized tr s" and "gcd_step e s = Some (s', os)"
  shows "sized (tr @ os) s'"
proof (cases e)
  case (UdpRecv r)
  with recv_sized[of r "recv_queue s"] assms show ?thesis by (auto simp: sized_def split: if_splits)
next
  case (Handle cfd now rs)
  with assms(2) obtain m q os' where h: "Dequeue (recv_queue s) = (Got m, q)" "os = Dequeued m # os'"
    "handle_message cfd now rs m (s\<lparr>recv_queue := q\<rparr>) = Some (s', os')"
    using handleE by metis
  have q: "queue (recv_queue s) = m # queue q" using h(1) by (auto simp: Dequeue_def split: if_splits)
  with assms(1) have "action m = APPROVAL \<Longrightarrow> fits m" by (auto simp: sized_def)
  from message_sized[OF h(3) this] assms(1) h(2) q show ?thesis by (auto simp: sized_def)
next
  case UdpSend
  with assms(2) obtain m q where u: "Dequeue (send_queue s) = (Got m, q)" "os = [Datagram (Serialize m)]"
    "s' = s\<lparr>send_queue := q\<rparr>"
    by (auto simp: udp_send_step_def split: prod.splits option.splits dequeued.splits)
  have q: "queue (send_queue s) = m # queue q" using u(1) by (auto simp: Dequeue_def split: if_splits)
  with assms(1) have "TryCast (Some (Serialize m)) = Some m" by (auto simp: sized_def fits_def)
  with u q assms(1) show ?thesis by (auto simp: sized_def)
next
  case (Read i got now)
  with read_sized[OF assms(1)] assms(2) show ?thesis by (auto split: if_splits)
next
  case (Unbind i)
  with assms show ?thesis
    by (auto simp: sized_def reader_unbind_def set_pc_def Let_def fits_def split: if_splits prod.splits)
qed (use assms in \<open>auto simp: sized_def set_pc_def CloseQueue_def split: if_splits\<close>)

lemma run_sized: "gcd_run tr s \<Longrightarrow> sized tr s"
proof (induction rule: gcd_run.induct)
  case (gcd_start env)
  show ?case by (simp add: sized_def new_gcd_def new_NetQueue_def)
next
  case (gcd_next tr s e s' os)
  from step_sized[OF gcd_next(3,2)] show ?case .
qed

section \<open>Use of descriptors\<close>

lemma bound_open: "gcd_inv s \<Longrightarrow> Get ch (tbl s) = Some fd \<Longrightarrow> fd \<in> set (open_fds s)"
  unfolding gcd_inv_def binds_def open_fds_iff fd_open_def live_pc_def by blast

lemma open_distinct: "gcd_inv s \<Longrightarrow> distinct (open_fds s)"
proof -
  assume "gcd_inv s"
  then have d: "fds_distinct s" by (simp add: gcd_inv_def)
  have "distinct (map rd_fd (filter fd_open xs))"
    if "\<forall>i < length xs. \<forall>j < length xs. i \<noteq> j \<longrightarrow> fd_open (xs ! i) \<longrightarrow> fd_open (xs ! j) \<longrightarrow>
      rd_fd (xs ! i) \<noteq> rd_fd (xs ! j)" for xs
    using that
  proof (induction xs)
    case (Cons x xs)
    from Cons.prems have "\<forall>i < length xs. \<forall>j < length xs. i \<noteq> j \<longrightarrow> fd_open (xs ! i) \<longrightarrow> fd_open (xs ! j) \<longrightarrow>
        rd_fd (xs ! i) \<noteq> rd_fd (xs ! j)" by fastforce
    moreover have "rd_fd x \<noteq> rd_fd (xs ! j)" if "fd_open x" "j < length xs" "fd_open (xs ! j)" for j
      using Cons.prems[rule_format, of 0 "Suc j"] that by simp
    ultimately show ?case using Cons.IH by (auto simp: in_set_conv_nth)
  qed simp
  with d show ?thesis by (simp add: fds_distinct_def open_fds_def)
qed

lemma message_uses:
  assumes "handle_message cfd now rs m s = Some (s', os)" and "SentTo fd bs \<in> set os \<or> ShutFd fd \<in> set os"
  shows "Get (channel m) (tbl s) = Some fd"
proof -
  obtain r t where r: "Remove (channel m) (tbl s) = (r, t)" by fastforce
  from assms show ?thesis
    by (cases "action m")
      (auto simp: handle_message_def handle_verdict_def handle_teardown_def handle_data_def r Let_def
        Remove_ret[OF r] split: if_splits prod.splits bool.splits option.splits)
qed

lemma step_uses:
  assumes "gcd_inv s" and "gcd_step e s = Some (s', os)" and "SentTo fd bs \<in> set os \<or> ShutFd fd \<in> set os"
  shows "fd \<in> set (open_fds s)"
proof (cases e)
  case (Handle cfd now rs)
  with assms(2) obtain m q os' where h: "os = Dequeued m # os'"
    "handle_message cfd now rs m (s\<lparr>recv_queue := q\<rparr>) = Some (s', os')" using handleE by metis
  with message_uses[OF h(2), of fd bs] assms(3) bound_open[OF assms(1)] show ?thesis by auto
next
  case (ShutdownFds order)
  with assms(2,3) obtain ch where "ch \<in> set (bound s)" "fd = the (Get ch (tbl s))"
    by (auto simp: Fds_def Get_def split: if_splits)
  with bound_iff[OF assms(1), of ch] bound_open[OF assms(1), of ch fd] show ?thesis by auto
qed (use assms in \<open>auto split: if_splits prod.splits option.splits\<close>)

lemma step_closes:
  assumes "gcd_inv s" and "gcd_step e s = Some (s', os)" and "ClosedFd fd \<in> set os"
  shows "fd \<notin> set (open_fds s') \<and> (fd \<in> set (open_fds s) \<or> Connected fd \<in> set os)"
proof (cases e)
  case (Handle cfd now rs)
  with assms(2) obtain m q os' where h: "cfd \<notin> set (open_fds s)" "os = Dequeued m # os'"
    "handle_message cfd now rs m (s\<lparr>recv_queue := q\<rparr>) = Some (s', os')" using handleE by metis
  with assms(3) show ?thesis
    by (cases "action m")
      (auto simp: handle_message_def handle_verdict_def handle_teardown_def handle_data_def Let_def
        open_fds_def split: if_splits prod.splits bool.splits option.splits)
next
  case (CloseFd i)
  with assms(2,3) have i: "at_pc i Unbound s" "s' = set_pc i FdClosed s" "fd = rd_fd (threads s ! i)"
    by (auto split: if_splits)
  then have "fd \<in> set (open_fds s)" by (auto simp: open_fds_iff at_pc_def fd_open_def)
  moreover have "fd \<notin> set (open_fds s')"
    using assms(1) i unfolding open_fds_iff gcd_inv_def fds_distinct_def
    by (auto simp: set_pc_def at_pc_def nth_list_update fd_open_def)
  ultimately show ?thesis by simp
qed (use assms in \<open>auto split: if_splits prod.splits option.splits\<close>)

section \<open>Timing of an iteration, cases of a verdict\<close>

lemma check_timing:
  assumes "keepalive_check now r = (r', ka)" and "keepalive r > 0"
  shows "(last_ack r' \<noteq> [] \<longrightarrow> now - last_sent r' < keepalive r') \<and> (ka = [] \<longrightarrow> last_sent r' = last_sent r)"
  using assms by (auto simp: keepalive_check_def split: if_splits)

lemma iteration_timing:
  assumes "reader_iteration got now r = (r', rq, sq)" and "keepalive r > 0"
  shows "(rd_pc r' \<noteq> LoopLeft \<longrightarrow> last_ack r' \<noteq> [] \<longrightarrow> now - last_sent r' < keepalive r') \<and>
    (rq = [] \<longrightarrow> last_sent r' = last_sent r)"
proof -
  obtain received buffer where g: "guacd_Receive (MAX_PAYLOAD_SIZE + 1) got = (received, buffer)" by fastforce
  obtain ack p where f: "sync_Feed (rd_faker r) buffer = (ack, p)" by fastforce
  consider (data) "received > 0" | (timeout) "received = RECV_TIMEOUT"
    | (left) "\<not> received > 0" "received \<noteq> RECV_TIMEOUT" by linarith
  then show ?thesis
  proof cases
    case data
    with assms g f check_timing[of now "r\<lparr>rd_faker := p\<rparr>"] show ?thesis
      by (auto simp: reader_iteration_def Let_def split: prod.splits if_splits)
  next
    case timeout
    with assms g check_timing[of now r] show ?thesis
      by (auto simp: reader_iteration_def RECV_TIMEOUT_def split: prod.splits)
  next
    case left
    with assms g show ?thesis by (auto simp: reader_iteration_def)
  qed
qed

lemma verdict_kept:
  assumes "handle_verdict cfd now m s = (s', os)" and "threads s' = threads s"
  shows "\<exists>m'. s' = s\<lparr>send_queue := Enqueue m' (send_queue s)\<rparr> \<and> channel m' = channel m \<and> action m' = action m \<and>
    tl (payload m') = tl (payload m) \<and> \<not> (payload m' \<noteq> [] \<and> hd (payload m') = APPROVAL_APPROVE) \<and>
    (Connected cfd \<in> set os \<longrightarrow> ClosedFd cfd \<in> set os)"
proof (cases "payload m \<noteq> [] \<and> hd (payload m) = APPROVAL_APPROVE")
  case True
  let ?m = "m\<lparr>payload := APPROVAL_DENY # tl (payload m)\<rparr>"
  from True assms have "s' = s\<lparr>send_queue := Enqueue ?m (send_queue s)\<rparr>"
    "os = (if cfd \<ge> 0 then [Connected cfd, ClosedFd cfd] else [])"
    by (auto simp: handle_verdict_def split: if_splits prod.splits bool.splits)
  then show ?thesis by (intro exI[of _ ?m]) simp
next
  case False
  with assms(1) have "s' = s\<lparr>send_queue := Enqueue m (send_queue s)\<rparr>" "os = []"
    by (auto simp: handle_verdict_def split: if_splits)
  with False show ?thesis by (intro exI[of _ m]) simp
qed

section \<open>Example sessions\<close>

definition gcd_ran :: "gcd_event list \<Rightarrow> (gcd \<Rightarrow> obs list \<Rightarrow> bool) \<Rightarrow> bool" where
  "gcd_ran es P = (case gcd_exec es (new_gcd None) of None \<Rightarrow> False | Some (s, tr) \<Rightarrow> P s tr)"

lemma gcd_ranE:
  assumes "gcd_ran es P"
  obtains s tr where "gcd_run tr s" "P s tr"
proof -
  from assms obtain s tr where "gcd_exec es (new_gcd None) = Some (s, tr)" "P s tr"
    by (auto simp: gcd_ran_def split: option.splits)
  with gcd_exec_run show ?thesis by (intro that)
qed

definition datagram :: "channel \<Rightarrow> ChannelAction \<Rightarrow> string \<Rightarrow> gcd_event" where
  "datagram ch a p = UdpRecv (Inr (Serialize (mk_msg ch a p)))"

text \<open>A session on channel 5: dialed on descriptor 9, bytes each way, and the shutdown of the process.\<close>

definition ex_dial :: "gcd_event list" where
  "ex_dial = [datagram 5 CREATE_CHANNEL ''ab'', datagram 5 APPROVAL ''Aab'', datagram 5 NONE ''3.nop;'',
     Handle (-1) 0 [], Handle 9 0 [], Handle (-1) 0 [Inr 6], Read 0 (Inr ''4.sync,1.7;'') 5, UdpSend]"

definition ex_stop :: "gcd_event list" where
  "ex_stop = [Interrupt, UdpRecvEnd, HandleEnd, JoinRecv, ShutdownFds [5], Read 0 (Inr []) 6, Unbind 0,
     CloseFd 0, LeaveGroup 0, WaitReaders, CloseSend]"

lemma ex_dial_ran:
  "gcd_ran ex_dial (\<lambda>s tr. last tr = Datagram (Serialize (mk_msg 5 APPROVAL ''Aab'')) \<and>
     butlast tr = (butlast (butlast tr)) @ [SentTo 9 ''3.nop;''] \<and> open_fds s = [9])"
  by code_simp

lemma ex_stop_ran: "gcd_ran (ex_dial @ ex_stop) (\<lambda>s tr. gcd_main s = SendClosed)"
  by code_simp

section \<open>Properties\<close>

text \<open>
  C17: no Guacamole reaches guacd before an approval. In every run of gcdbroker, each write to a guacd
  connection forwards (a prefix of) the payload of the \<open>NONE\<close> message just taken from the queue, on the
  connection that was dialed for an \<open>APPROVAL\<close> with verdict \<open>A\<close> on that message's own channel, with no
  \<open>SHUTDOWN\<close> of the channel in between.
\<close>

theorem gcd_gate:
  assumes "gcd_run (pre @ SentTo fd bs # post) s"
  shows "\<exists>front m n. pre = front @ [Dequeued m] \<and> action m = NONE \<and> bs = take n (payload m) \<and>
    opened front (channel m) fd"
  using run_gate[OF assms] by (auto simp: gate_inv_def sends_ok_def)

lemma gcd_gate_witness:
  "\<exists>s pre post. gcd_run (pre @ SentTo 9 ''3.nop;'' # post) s \<and> (\<exists>front m. pre = front @ [Dequeued m] \<and>
     opened front (channel m) 9)"
proof (rule gcd_ranE[OF ex_dial_ran])
  fix s tr
  assume r: "gcd_run tr s" "last tr = Datagram (Serialize (mk_msg 5 APPROVAL ''Aab'')) \<and>
     butlast tr = (butlast (butlast tr)) @ [SentTo 9 ''3.nop;''] \<and> open_fds s = [9]"
  then have "tr \<noteq> []" by auto
  then have "tr = butlast (butlast tr) @ SentTo 9 ''3.nop;'' # [last tr]"
    using r(2) append_butlast_last_id[of tr] by (metis append_Cons append_Nil append_assoc)
  with r(1) have g: "gcd_run (butlast (butlast tr) @ SentTo 9 ''3.nop;'' # [last tr]) s" by simp
  from gcd_gate[OF g] g show ?thesis by blast
qed





text \<open>
  C33: every datagram gcdbroker puts on the bridge is one the other side accepts: in every run it parses
  as a message (its payload is within the limit), whatever guacd and the bridge sent.
\<close>

theorem gcd_datagrams_parse:
  assumes "gcd_run tr s" and "Datagram d \<in> set tr"
  shows "\<exists>m. TryCast (Some d) = Some m \<and> Serialize m = d"
  using run_sized[OF assms(1)] assms(2) TryCast_SomeD unfolding sized_def by blast

lemma gcd_datagrams_parse_witness:
  "\<exists>m. TryCast (Some (Serialize (mk_msg 5 APPROVAL ''Aab''))) = Some m"
proof (rule gcd_ranE[OF ex_dial_ran])
  fix s tr
  assume r: "gcd_run tr s" "last tr = Datagram (Serialize (mk_msg 5 APPROVAL ''Aab'')) \<and>
     butlast tr = (butlast (butlast tr)) @ [SentTo 9 ''3.nop;''] \<and> open_fds s = [9]"
  then have "tr \<noteq> []" by auto
  with r(2) last_in_set[of tr] have "Datagram (Serialize (mk_msg 5 APPROVAL ''Aab'')) \<in> set tr" by simp
  from gcd_datagrams_parse[OF r(1) this] show ?thesis by blast
qed

text \<open>
  The keepalive. After every iteration that stays in the loop, either guacd has never sent a sync, or
  a sync message was queued for it less than the keepalive interval ago: when the interval had elapsed,
  the last acknowledgement is queued again in this very iteration. What goes out is the bytes received
  (at most a payload), tagged with the reader's own channel.
\<close>

theorem reader_keepalive:
  assumes "reader_iteration got now r = (r', rq, sq)" and "keepalive r > 0" and "rd_pc r = Reading"
  shows "(rd_pc r' = Reading \<longrightarrow> last_ack r' \<noteq> [] \<longrightarrow> now - last_sent r' < keepalive r') \<and>
    (rq = [] \<and> last_sent r' = last_sent r \<or>
     rq = [mk_msg (rd_channel r) NONE (last_ack r')] \<and> last_ack r' \<noteq> [] \<and> last_sent r' = now) \<and>
    (sq = [] \<or> (\<exists>bs. got = Inr bs \<and> sq = [mk_msg (rd_channel r) NONE (take MAX_PAYLOAD_SIZE bs)]))"
proof (intro conjI)
  show "rd_pc r' = Reading \<longrightarrow> last_ack r' \<noteq> [] \<longrightarrow> now - last_sent r' < keepalive r'"
    using iteration_timing[OF assms(1,2)] by auto
  show "rq = [] \<and> last_sent r' = last_sent r \<or>
     rq = [mk_msg (rd_channel r) NONE (last_ack r')] \<and> last_ack r' \<noteq> [] \<and> last_sent r' = now"
    using iteration_timing[OF assms(1,2)] iteration_out[OF assms(1)] by blast
  show "sq = [] \<or> (\<exists>bs. got = Inr bs \<and> sq = [mk_msg (rd_channel r) NONE (take MAX_PAYLOAD_SIZE bs)])"
    using iteration_out[OF assms(1)] by blast
qed

lemma reader_keepalive_witness:
  "case reader_iteration (Inl EAGAIN) 3000 ((new_reader None 0 5 9)\<lparr>last_ack := ''4.sync,1.7;''\<rparr>) of
     (r', rq, sq) \<Rightarrow> last_sent r' = 3000 \<and> rq = [mk_msg 5 NONE ''4.sync,1.7;'']"
proof -
  let ?r = "(new_reader None 0 5 9)\<lparr>last_ack := ''4.sync,1.7;''\<rparr>"
  obtain r' rq sq where i: "reader_iteration (Inl EAGAIN) 3000 ?r = (r', rq, sq)" by (metis prod_cases3)
  have k: "keepalive ?r > 0" "rd_pc ?r = Reading" "rd_channel ?r = 5"
    by (simp_all add: new_reader_def keepalive_interval_pos)
  have c: "case reader_iteration (Inl EAGAIN) 3000 ?r of
      (r', rq, sq) \<Rightarrow> rq \<noteq> [] \<and> last_ack r' = ''4.sync,1.7;''"
    by code_simp
  from reader_keepalive[OF i k(1,2)] c i k(3) show ?thesis by auto
qed

text \<open>
  Every verdict goes back to gmlbroker, once and truthfully: handling an \<open>APPROVAL\<close> queues one
  \<open>APPROVAL\<close> for the same channel with the same request id; its verdict is \<open>A\<close> exactly when a connection
  was dialed for it and bound to a channel that had none, with a reader started on it, and otherwise the
  table and the readers are as before.
\<close>

theorem verdict_relayed:
  assumes "handle_verdict cfd now m s = (s', os)" and "action m = APPROVAL"
  shows "\<exists>m'. queue (send_queue s') = queue (send_queue s) @ [m'] \<and> channel m' = channel m \<and>
    action m' = APPROVAL \<and> tl (payload m') = tl (payload m) \<and>
    (if payload m' \<noteq> [] \<and> hd (payload m') = APPROVAL_APPROVE
     then m' = m \<and> cfd \<ge> 0 \<and> Get (channel m) (tbl s) = None \<and> Get (channel m) (tbl s') = Some cfd \<and>
       threads s' = threads s @ [new_reader (env_keepalive s) now (channel m) cfd]
     else tbl s' = tbl s \<and> threads s' = threads s \<and> (Connected cfd \<in> set os \<longrightarrow> ClosedFd cfd \<in> set os))"
proof (cases "threads s' = threads s")
  case True
  from verdict_kept[OF assms(1) True] obtain m' where
    k: "s' = s\<lparr>send_queue := Enqueue m' (send_queue s)\<rparr>" "channel m' = channel m" "action m' = action m"
      "tl (payload m') = tl (payload m)" "\<not> (payload m' \<noteq> [] \<and> hd (payload m') = APPROVAL_APPROVE)"
      "Connected cfd \<in> set os \<longrightarrow> ClosedFd cfd \<in> set os" by blast
  then show ?thesis using assms(2) by (intro exI[of _ m']) (simp only: if_False, simp)
next
  case False
  with assms(1) obtain t where i: "Insert (channel m) cfd (tbl s) = (True, t)" "cfd \<ge> 0"
    "payload m \<noteq> []" "hd (payload m) = APPROVAL_APPROVE"
    "s' = s\<lparr>tbl := t, readers := Enter (readers s),
       threads := threads s @ [new_reader (env_keepalive s) now (channel m) cfd],
       send_queue := Enqueue m (send_queue s)\<rparr>"
    by (auto simp: handle_verdict_def Let_def split: if_splits prod.splits bool.splits)
  from i(1) table.ins_ok[of "channel m" cfd "tbl s"] table.ins_get[of "channel m" "channel m" cfd "tbl s"]
  have "Get (channel m) (tbl s) = None" "Get (channel m) t = Some cfd" by simp_all
  with i assms(2) show ?thesis by (intro exI[of _ m]) simp
qed

lemma verdict_relayed_witness:
  "Get 5 (tbl (fst (handle_verdict 9 0 (mk_msg 5 APPROVAL ''Aab'') (new_gcd None)))) = Some 9"
proof -
  obtain s' os where h: "handle_verdict 9 0 (mk_msg 5 APPROVAL ''Aab'') (new_gcd None) = (s', os)"
    by fastforce
  have "queue (send_queue (fst (handle_verdict 9 0 (mk_msg 5 APPROVAL ''Aab'') (new_gcd None)))) =
      [mk_msg 5 APPROVAL ''Aab'']" by code_simp
  with h have q: "queue (send_queue s') = [mk_msg 5 APPROVAL ''Aab'']" by simp
  from verdict_relayed[OF h] obtain m' where
    "queue (send_queue s') = queue (send_queue (new_gcd None)) @ [m']"
    "payload m' \<noteq> [] \<and> hd (payload m') = APPROVAL_APPROVE \<longrightarrow> Get 5 (tbl s') = Some 9" by fastforce
  with q h show ?thesis by (auto simp: new_gcd_def new_NetQueue_def APPROVAL_APPROVE_def)
qed

text \<open>
  A failed write to guacd is never announced. It removes the channel's entry without queueing
  anything for the bridge; the reader woken by it then finds no entry, so it closes the connection without
  announcing a \<open>SHUTDOWN\<close> either, and gmlbroker keeps the browser's connection open.
\<close>

theorem send_failure_silent:
  assumes "Get (channel m) (tbl s) = Some fd" and "action m = NONE"
    and "guacd_Send fd (payload m) rs = (Some (-1), chunks)"
    and "i < length (threads s)" and "rd_channel (threads s ! i) = channel m"
  shows "\<exists>s'. handle_message cfd now rs m s = Some (s', [SentTo fd (concat chunks), ShutFd fd]) \<and>
    Get (channel m) (tbl s') = None \<and> send_queue s' = send_queue s \<and>
    send_queue (reader_unbind i s') = send_queue s"
proof -
  obtain r t where r: "Remove (channel m) (tbl s) = (r, t)" by fastforce
  with Remove_ret[OF r] assms(1) have rs: "r = Some fd" by simp
  have t: "Get (channel m) t = None" using Remove_get[OF r, of "channel m"] by simp
  obtain r2 t2 where r2: "Remove (channel m) t = (r2, t2)" by fastforce
  with Remove_ret[OF r2] t have "r2 = None" by simp
  then show ?thesis
    using assms r r2 rs t
    by (simp add: handle_message_def handle_data_def reader_unbind_def set_pc_def Let_def)
qed

definition ex_bound :: gcd where
  "ex_bound = (new_gcd None)\<lparr>tbl := snd (Insert 5 9 new_ChannelTable), threads := [new_reader None 0 5 9]\<rparr>"

lemma send_failure_silent_witness:
  "\<exists>s'. handle_message 0 0 [Inl EAGAIN] (mk_msg 5 NONE ''x'') ex_bound = Some (s', [SentTo 9 [], ShutFd 9]) \<and>
     queue (send_queue (reader_unbind 0 s')) = []"
proof -
  let ?m = "mk_msg 5 NONE ''x''"
  have p: "Get (channel ?m) (tbl ex_bound) = Some 9" "guacd_Send 9 (payload ?m) [Inl EAGAIN] = (Some (-1), [])"
    "0 < length (threads ex_bound)" "rd_channel (threads ex_bound ! 0) = channel ?m"
    by code_simp+
  from send_failure_silent[OF p(1) _ p(2-4), of 0 0] show ?thesis
    by (auto simp: ex_bound_def new_gcd_def new_NetQueue_def)
qed

definition ex_stale :: "gcd_event list" where
  "ex_stale = [datagram 5 APPROVAL ''A'', datagram 5 SHUTDOWN_CHANNEL [], datagram 5 APPROVAL ''A'',
     Handle 9 0 [], Handle (-1) 0 [], Read 0 (Inr []) 1, Handle 10 2 [], Unbind 0]"

text \<open>
  The removal at the end of a reader is by channel, not by connection. There is a run in which a
  channel was approved again before the reader of its previous connection had ended: that reader then
  unbinds the new connection and announces a \<open>SHUTDOWN\<close> for it, while the new reader goes on reading and
  nothing asked for it to end.
\<close>

theorem stale_reader_unbinds:
  "\<exists>tr s. gcd_run tr s \<and> opened tr 5 10 \<and> Get 5 (tbl s) = None \<and> at_pc 1 Reading s \<and>
     rd_fd (threads s ! 1) = 10 \<and> last (queue (send_queue s)) = mk_msg 5 SHUTDOWN_CHANNEL []"
proof -
  have "gcd_ran ex_stale (\<lambda>s tr. Get 5 (tbl s) = None \<and> at_pc 1 Reading s \<and> rd_fd (threads s ! 1) = 10 \<and>
     last (queue (send_queue s)) = mk_msg 5 SHUTDOWN_CHANNEL [] \<and>
     tr = take (length tr - 2) tr @ [Dequeued (mk_msg 5 APPROVAL (APPROVAL_APPROVE # [])), Connected 10])"
    by code_simp
  then show ?thesis
  proof (rule gcd_ranE)
    fix s tr
    assume r: "gcd_run tr s" "Get 5 (tbl s) = None \<and> at_pc 1 Reading s \<and> rd_fd (threads s ! 1) = 10 \<and>
     last (queue (send_queue s)) = mk_msg 5 SHUTDOWN_CHANNEL [] \<and>
     tr = take (length tr - 2) tr @ [Dequeued (mk_msg 5 APPROVAL (APPROVAL_APPROVE # [])), Connected 10]"
    with opened_now[of "take (length tr - 2) tr" 5 "[]" 10] show ?thesis by metis
  qed
qed

end
