(* ===== verification/Gcd_Provenance.thy ===== *)
theory Gcd_Provenance imports Gcd_Theorems begin

text \<open>
  Where the messages in \<open>gcdbroker\<close> come from: what it takes from its queue arrived from the bridge or is
  its own \<open>sync\<close> acknowledgement, and an approval it sends is one it took.
\<close>

section \<open>The acknowledgements of the sync faker\<close>

definition sync_acks :: "string \<Rightarrow> bool" where
  "sync_acks x \<longleftrightarrow> (\<exists>tss. x = wire (map sync_instr tss))"

lemma sync_acks_Nil [simp]: "sync_acks []"
  unfolding sync_acks_def by (intro exI[of _ "[]"]) simp

lemma sync_acks_snoc: "sync_acks x \<Longrightarrow> sync_acks (x @ wire_instr (sync_instr ts))"
  unfolding sync_acks_def
proof (elim exE)
  fix tss
  assume "x = wire (map sync_instr tss)"
  then show "\<exists>tss. x @ wire_instr (sync_instr ts) = wire (map sync_instr tss)"
    by (intro exI[of _ "tss @ [ts]"]) simp
qed

lemma sync_keep: "hooks_keep sync_hooks (\<lambda>h. sync_acks (echoes h))"
  using sync_acks_snoc
  by (auto simp: hooks_keep_def sync_OnInstructionBegin_def sync_OnArgument_def sync_OnInstructionEnd_def Let_def
      wire_sync_instr)

lemma sync_Feed_acks: "sync_acks (fst (sync_Feed p data))"
  using resync_keep[OF sync_keep, of "p\<lparr>sub := (sub p)\<lparr>echoes := []\<rparr>\<rparr>" data 0]
  by (simp add: sync_Feed_def Let_def)

definition gcd_acks :: "gcd \<Rightarrow> bool" where
  "gcd_acks s \<longleftrightarrow> (\<forall>r\<in>set (threads s). sync_acks (last_ack r))"

lemma iteration_acks:
  assumes "reader_iteration got now r = (r', rq, sq)" and "sync_acks (last_ack r)"
  shows "sync_acks (last_ack r') \<and> (\<forall>m\<in>set rq. action m = NONE \<and> sync_acks (payload m)) \<and>
    (\<forall>m\<in>set sq. action m = NONE)"
proof -
  obtain n b where g: "guacd_Receive (MAX_PAYLOAD_SIZE + 1) got = (n, b)" by fastforce
  obtain ack p where f: "sync_Feed (rd_faker r) b = (ack, p)" by fastforce
  have "sync_acks ack" using sync_Feed_acks[of "rd_faker r" b] f by simp
  with assms g f show ?thesis
    by (auto simp: reader_iteration_def keepalive_check_def Let_def split: if_splits)
qed

section \<open>The receive queue\<close>

definition gcd_input :: "gcd_event \<Rightarrow> string option" where
  "gcd_input e = (case e of UdpRecv r \<Rightarrow> arriving r | _ \<Rightarrow> None)"

text \<open>A message that is new in the queue, or that is taken.\<close>

definition gcd_gets :: "gcd \<Rightarrow> obs list \<Rightarrow> BridgeMessage \<Rightarrow> bool" where
  "gcd_gets s os m \<longleftrightarrow> m \<in> set (queue (recv_queue s)) \<or> Dequeued m \<in> set os"

lemma message_own:
  assumes "handle_message cfd now rs m s = Some (s', os)" and "gcd_acks s"
  shows "gcd_acks s' \<and> recv_queue s' = recv_queue s \<and> (\<forall>x. Dequeued x \<notin> set os)"
  using assms
  by (auto simp: handle_message_def handle_verdict_def handle_teardown_def handle_data_def gcd_acks_def
      new_reader_def Let_def split: ChannelAction.splits prod.splits option.splits if_splits bool.splits)

lemma gcd_step_gets:
  assumes "gcd_step e s = Some (s', os)" and "gcd_acks s"
  shows "gcd_acks s' \<and> (\<forall>m. gcd_gets s' os m \<longrightarrow>
    m \<in> set (queue (recv_queue s)) \<or> action m = NONE \<and> sync_acks (payload m) \<or> from_outside (gcd_input e) m)"
proof (cases e)
  case (UdpRecv r)
  with assms show ?thesis
    by (auto simp: gcd_acks_def gcd_gets_def gcd_input_def dest: udp_recv_new split: if_splits)
next
  case (Handle cfd now rs)
  with assms(1) obtain m q os' where h: "Dequeue (recv_queue s) = (Got m, q)" "os = Dequeued m # os'"
    "handle_message cfd now rs m (s\<lparr>recv_queue := q\<rparr>) = Some (s', os')"
    using handleE by metis
  have q: "queue (recv_queue s) = m # queue q" using h(1) by (auto simp: Dequeue_def split: if_splits)
  have "gcd_acks (s\<lparr>recv_queue := q\<rparr>)" using assms(2) by (simp add: gcd_acks_def)
  from message_own[OF h(3) this] q h(2) show ?thesis by (auto simp: gcd_gets_def)
next
  case (Read i got now)
  obtain r rq sq where r: "reader_iteration got now (threads s ! i) = (r, rq, sq)" by (metis prod_cases3)
  from Read assms have i: "i < length (threads s)" "s' = reader_read i got now s" "os = []"
    by (auto simp: at_pc_def split: if_splits)
  with assms(2) iteration_acks[OF r] have "sync_acks (last_ack r)" "\<forall>m\<in>set rq. action m = NONE \<and> sync_acks (payload m)"
    by (auto simp: gcd_acks_def)
  with assms(2) i r show ?thesis
    by (auto simp: reader_read_def gcd_gets_def gcd_acks_def dest!: set_update_subset_insert[THEN subsetD])
next
  case (Unbind i)
  with assms show ?thesis
    by (auto simp: gcd_gets_def reader_unbind_def set_pc_def Let_def at_pc_def gcd_acks_def
        dest!: set_update_subset_insert[THEN subsetD] split: if_splits prod.splits)
qed (use assms in \<open>auto simp: gcd_gets_def set_pc_def at_pc_def gcd_acks_def CloseQueue_def
    dest!: set_update_subset_insert[THEN subsetD] split: if_splits prod.splits option.splits\<close>)

section \<open>Approvals are passed on, not made\<close>

definition approval :: "BridgeMessage \<Rightarrow> bool" where
  "approval m \<longleftrightarrow> action m = APPROVAL \<and> payload m \<noteq> [] \<and> hd (payload m) = APPROVAL_APPROVE"

lemma Serialize_inj: "Serialize m = Serialize m' \<Longrightarrow> m = m'"
proof -
  assume e: "Serialize m = Serialize m'"
  then have p: "payload m = payload m'" by (simp add: Serialize_def)
  have "Serialize (m\<lparr>payload := []\<rparr>) = Serialize (m'\<lparr>payload := []\<rparr>)" using e by (simp add: Serialize_def)
  then have "TryCast (Some (Serialize (m\<lparr>payload := []\<rparr>))) = TryCast (Some (Serialize (m'\<lparr>payload := []\<rparr>)))" by simp
  then have "m\<lparr>payload := []\<rparr> = m'\<lparr>payload := []\<rparr>" by simp
  with p show ?thesis by (cases m; cases m') simp
qed

definition verdicts_ok :: "obs list \<Rightarrow> gcd \<Rightarrow> bool" where
  "verdicts_ok tr s \<longleftrightarrow> (\<forall>m. approval m \<longrightarrow>
     m \<in> set (queue (send_queue s)) \<or> Datagram (Serialize m) \<in> set tr \<longrightarrow> Dequeued m \<in> set tr)"

lemma message_verdicts:
  assumes "handle_message cfd now rs m s = Some (s', os)" and "approval x" and "x \<in> set (queue (send_queue s'))"
  shows "x \<in> set (queue (send_queue s)) \<or> x = m"
  using assms
  by (auto simp: handle_message_def handle_verdict_def handle_teardown_def handle_data_def Let_def approval_def
      split: ChannelAction.splits prod.splits option.splits if_splits bool.splits)

lemma message_datagrams:
  "handle_message cfd now rs m s = Some (s', os) \<Longrightarrow> Datagram d \<notin> set os"
  by (auto simp: handle_message_def handle_verdict_def handle_teardown_def handle_data_def Let_def
      split: ChannelAction.splits prod.splits option.splits if_splits bool.splits)

lemma verdicts_step:
  assumes "verdicts_ok tr s" and "gcd_acks s" and "gcd_step e s = Some (s', os)"
  shows "verdicts_ok (tr @ os) s'"
proof (cases e)
  case (Handle cfd now rs)
  with assms(3) obtain m q os' where h: "os = Dequeued m # os'"
    "handle_message cfd now rs m (s\<lparr>recv_queue := q\<rparr>) = Some (s', os')"
    using handleE by metis
  from message_verdicts[OF h(2)] message_datagrams[OF h(2)] assms(1) h(1) show ?thesis
    by (fastforce simp: verdicts_ok_def)
next
  case UdpSend
  with assms(3) obtain m q where u: "Dequeue (send_queue s) = (Got m, q)" "os = [Datagram (Serialize m)]"
    "s' = s\<lparr>send_queue := q\<rparr>"
    by (auto simp: udp_send_step_def split: prod.splits option.splits dequeued.splits)
  have q: "queue (send_queue s) = m # queue q" using u(1) by (auto simp: Dequeue_def split: if_splits)
  from assms(1) show ?thesis by (auto simp: verdicts_ok_def u q dest: Serialize_inj)
next
  case (Read i got now)
  obtain r rq sq where r: "reader_iteration got now (threads s ! i) = (r, rq, sq)" by (metis prod_cases3)
  from Read assms have i: "i < length (threads s)" "s' = reader_read i got now s" "os = []"
    by (auto simp: at_pc_def split: if_splits)
  with assms(2) iteration_acks[OF r] have "\<forall>m\<in>set sq. action m = NONE" by (auto simp: gcd_acks_def)
  with assms(1) i r show ?thesis by (auto simp: reader_read_def verdicts_ok_def approval_def)
next
  case (Unbind i)
  with assms show ?thesis
    by (auto simp: verdicts_ok_def approval_def reader_unbind_def set_pc_def Let_def split: if_splits prod.splits)
qed (use assms in \<open>auto simp: verdicts_ok_def set_pc_def CloseQueue_def split: if_splits prod.splits option.splits\<close>)

lemma run_verdicts: "gcd_run tr s \<Longrightarrow> verdicts_ok tr s \<and> gcd_acks s"
proof (induction rule: gcd_run.induct)
  case (gcd_start env)
  show ?case by (simp add: verdicts_ok_def gcd_acks_def new_gcd_def new_NetQueue_def)
next
  case (gcd_next tr s e s' os)
  from verdicts_step[OF _ _ gcd_next(2)] gcd_step_gets[OF gcd_next(2)] gcd_next(3) show ?case by blast
qed

end
