(* ===== verification/Handshake_Forger.thy ===== *)
theory Handshake_Forger imports Observer begin

text \<open>
  \<open>gmlbroker/include/handshake_forger.h\<close> and \<open>gmlbroker/src/handshake_forger.cpp\<close>: the forged guacd side
  of the handshake. The random hex digits of \<open>make_fake_id\<close> are a parameter \<open>rng\<close> of the hooks, read
  from the position kept with the fields.
\<close>

section \<open>The anonymous namespace\<close>

text \<open>\<open>instr(elems)\<close>: one instruction from its elements.\<close>

fun instr_str :: "string list \<Rightarrow> string" where
  "instr_str [] = []"
| "instr_str (e # es) =
     show_nat (length e) @ ''.'' @ e @ (if es \<noteq> [] then '','' else '';'') @ instr_str es"

definition hex_digits :: string where "hex_digits = ''0123456789abcdef''"

fun fake_id_loop :: "nat \<Rightarrow> nat list \<Rightarrow> string \<Rightarrow> string" where
  "fake_id_loop i [] fid = fid"
| "fake_id_loop i (d # ds) fid =
     fake_id_loop (i + 1) ds
       ((if i = 8 \<or> i = 12 \<or> i = 16 \<or> i = 20 then fid @ ''-'' else fid) @ [hex_digits ! d])"

definition make_fake_id :: "(nat \<Rightarrow> nat) \<Rightarrow> nat \<Rightarrow> string" where
  "make_fake_id rng pos = fake_id_loop 0 (map rng [pos..<pos + 32]) ''$''"

definition SSH_ARGS_1_6_0 :: string where
  "SSH_ARGS_1_6_0 =
     ''4.args,13.VERSION_1_5_0,8.hostname,8.host-key,4.port,7.timeout,8.username,'' @
     ''8.password,9.font-name,9.font-size,11.enable-sftp,19.sftp-root-directory,'' @
     ''21.sftp-disable-download,19.sftp-disable-upload,11.private-key,'' @
     ''10.passphrase,10.public-key,12.color-scheme,7.command,15.typescript-path,'' @
     ''15.typescript-name,22.create-typescript-path,25.typescript-write-existing,'' @
     ''14.recording-path,14.recording-name,24.recording-exclude-output,'' @
     ''23.recording-exclude-mouse,22.recording-include-keys,'' @
     ''21.create-recording-path,24.recording-write-existing,9.read-only,'' @
     ''21.server-alive-interval,9.backspace,13.terminal-type,10.scrollback,'' @
     ''6.locale,8.timezone,12.disable-copy,13.disable-paste,15.wol-send-packet,'' @
     ''12.wol-mac-addr,18.wol-broadcast-addr,12.wol-udp-port,13.wol-wait-time;''"

definition RDP_ARGS_1_6_0 :: string where
  "RDP_ARGS_1_6_0 =
     ''4.args,13.VERSION_1_5_0,8.hostname,4.port,7.timeout,6.domain,'' @
     ''8.username,8.password,5.width,6.height,3.dpi,15.initial-program,'' @
     ''11.color-depth,13.disable-audio,15.enable-printing,12.printer-name,'' @
     ''12.enable-drive,10.drive-name,10.drive-path,17.create-drive-path,'' @
     ''16.disable-download,14.disable-upload,7.console,13.console-audio,'' @
     ''13.server-layout,8.security,11.ignore-cert,9.cert-tofu,'' @
     ''17.cert-fingerprints,12.disable-auth,10.remote-app,'' @
     ''14.remote-app-dir,15.remote-app-args,15.static-channels,'' @
     ''11.client-name,16.enable-wallpaper,14.enable-theming,'' @
     ''21.enable-font-smoothing,23.enable-full-window-drag,'' @
     ''26.enable-desktop-composition,22.enable-menu-animations,'' @
     ''22.disable-bitmap-caching,25.disable-offscreen-caching,'' @
     ''21.disable-glyph-caching,11.disable-gfx,16.preconnection-id,'' @
     ''18.preconnection-blob,8.timezone,11.enable-sftp,13.sftp-hostname,'' @
     ''13.sftp-host-key,9.sftp-port,12.sftp-timeout,13.sftp-username,'' @
     ''13.sftp-password,16.sftp-private-key,15.sftp-passphrase,'' @
     ''15.sftp-public-key,14.sftp-directory,19.sftp-root-directory,'' @
     ''26.sftp-server-alive-interval,21.sftp-disable-download,'' @
     ''19.sftp-disable-upload,14.recording-path,14.recording-name,'' @
     ''24.recording-exclude-output,23.recording-exclude-mouse,'' @
     ''23.recording-exclude-touch,22.recording-include-keys,'' @
     ''21.create-recording-path,24.recording-write-existing,'' @
     ''13.resize-method,18.enable-audio-input,12.enable-touch,9.read-only,'' @
     ''16.gateway-hostname,12.gateway-port,14.gateway-domain,'' @
     ''16.gateway-username,16.gateway-password,17.load-balance-info,'' @
     ''12.disable-copy,13.disable-paste,15.wol-send-packet,12.wol-mac-addr,'' @
     ''18.wol-broadcast-addr,12.wol-udp-port,13.wol-wait-time,'' @
     ''14.force-lossless,19.normalize-clipboard;''"

section \<open>\<open>class HandshakeForger\<close>\<close>

datatype HandshakeState = UNESTABLISHED | EXCHANGING_PARAMETERS | ESTABLISHED | INVALID_HANDSHAKE

record forger_fields =
  hs_state :: HandshakeState
  forger_opcode :: string
  protocol :: string
  connect_values :: "string list"
  size_args :: "string list"
  fake_id :: string
  handshake_raw :: string
  out :: string
  rng_pos :: nat

definition new_forger_fields :: forger_fields where
  "new_forger_fields =
     \<lparr>hs_state = UNESTABLISHED, forger_opcode = [], protocol = [], connect_values = [],
      size_args = [], fake_id = [], handshake_raw = [], out = [], rng_pos = 0\<rparr>"

definition CannedArgs :: "forger_fields \<Rightarrow> string" where
  "CannedArgs h =
     (if protocol h = ''rdp'' then RDP_ARGS_1_6_0
      else if protocol h = ''ssh'' then SSH_ARGS_1_6_0
      else SSH_ARGS_1_6_0)"

definition WaitingScreen :: "forger_fields \<Rightarrow> string" where
  "WaitingScreen h =
     (let w = (if length (size_args h) > 0 then size_args h ! 0 else ''1024'');
          ht = (if length (size_args h) > 1 then size_args h ! 1 else ''768'')
      in instr_str [''size'', ''0'', w, ht] @
         instr_str [''rect'', ''0'', ''0'', ''0'', w, ht] @
         instr_str [''cfill'', ''14'', ''0'', ''40'', ''40'', ''40'', ''255''] @
         instr_str [''sync'', ''0''])"

definition DeniedScreen :: string where
  "DeniedScreen =
     instr_str [''size'', ''0'', ''1024'', ''768''] @
     instr_str [''rect'', ''0'', ''0'', ''0'', ''1024'', ''768''] @
     instr_str [''cfill'', ''14'', ''0'', ''180'', ''30'', ''30'', ''255''] @
     instr_str [''sync'', ''0''] @
     instr_str [''disconnect'']"

definition forger_OnInstructionBegin :: "string \<Rightarrow> forger_fields \<Rightarrow> bool \<times> forger_fields" where
  "forger_OnInstructionBegin instr h = (True, h\<lparr>forger_opcode := instr\<rparr>)"

definition forger_OnArgument :: "string \<Rightarrow> forger_fields \<Rightarrow> bool \<times> forger_fields" where
  "forger_OnArgument arg h =
     (True,
      if forger_opcode h = ''select'' then h\<lparr>protocol := arg\<rparr>
      else if forger_opcode h = ''connect'' then h\<lparr>connect_values := connect_values h @ [arg]\<rparr>
      else if forger_opcode h = ''size'' then h\<lparr>size_args := size_args h @ [arg]\<rparr>
      else h)"

definition forger_OnInstructionEnd :: "(nat \<Rightarrow> nat) \<Rightarrow> nat \<Rightarrow> forger_fields \<Rightarrow> forger_fields" where
  "forger_OnInstructionEnd rng i h =
     (if forger_opcode h = ''select'' then
        h\<lparr>out := out h @ CannedArgs h, hs_state := EXCHANGING_PARAMETERS\<rparr>
      else if forger_opcode h = ''connect'' then
        let fid = make_fake_id rng (rng_pos h) in
        h\<lparr>fake_id := fid, rng_pos := rng_pos h + 32,
          out := out h @ instr_str [''ready'', fid] @ WaitingScreen h, hs_state := ESTABLISHED\<rparr>
      else h)"

definition forger_hooks :: "(nat \<Rightarrow> nat) \<Rightarrow> forger_fields hooks" where
  "forger_hooks rng =
     base_hooks\<lparr>OnInstructionBegin := forger_OnInstructionBegin, OnArgument := forger_OnArgument,
                OnInstructionEnd := forger_OnInstructionEnd rng\<rparr>"

definition forger_Feed ::
  "(nat \<Rightarrow> nat) \<Rightarrow> forger_fields parser \<Rightarrow> string \<Rightarrow> string \<times> forger_fields parser" where
  "forger_Feed rng p data =
     (let p0 = p\<lparr>sub := (sub p)\<lparr>out := [], handshake_raw := handshake_raw (sub p) @ data\<rparr>\<rparr>;
          p1 = snd (Parse (forger_hooks rng) p0 data);
          p2 = (if pstate p1 = STREAM_CORRUPTED
                then p1\<lparr>sub := (sub p1)\<lparr>hs_state := INVALID_HANDSHAKE\<rparr>\<rparr> else p1)
      in (out (sub p2), p2))"

lemma forger_hooks_sel [simp]:
  "OnInstructionBegin (forger_hooks rng) = forger_OnInstructionBegin"
  "OnArgument (forger_hooks rng) = forger_OnArgument"
  "OnInstructionEnd (forger_hooks rng) = forger_OnInstructionEnd rng"
  "Tolerates (forger_hooks rng) = False"
  by (simp_all add: forger_hooks_def base_hooks_def)

interpretation forger: observer "forger_hooks rng" for rng
  by unfold_locales (simp_all add: forger_OnInstructionBegin_def forger_OnArgument_def)

section \<open>The strings it sends are well-formed\<close>

definition spelled :: "string list \<Rightarrow> instr" where
  "spelled es = map (\<lambda>e. (show_nat (length e), e)) es"

lemma instr_str_wire: "es \<noteq> [] \<Longrightarrow> instr_str es = wire_instr (spelled es)"
proof (induction es)
  case (Cons e es)
  show ?case
  proof (cases "es = []")
    case True
    then show ?thesis by (simp add: spelled_def wire_instr_def wire_elem_def wire_open_def)
  next
    case False
    with Cons.IH show ?thesis
      by (simp add: spelled_def wire_instr_def wire_elem_def wire_open_def last_map)
  qed
qed simp

definition plain :: "string \<Rightarrow> bool" where
  "plain e \<longleftrightarrow> length e \<le> MAX_ELEMENT_SIZE \<and> list_all is_ascii e"

lemma plain_elem_ok: "plain e \<Longrightarrow> elem_ok hk (show_nat (length e), e)"
  using limit_bounds(4)[of hk] by (simp add: elem_ok_def plain_def)

lemma spelled_ok: "es \<noteq> [] \<Longrightarrow> list_all plain es \<Longrightarrow> instr_ok hk (spelled es)"
  using plain_elem_ok by (auto simp: instr_ok_def spelled_def list_all_iff)

lemma elems_spelled: "list_all plain es \<Longrightarrow> elems (spelled es) = es"
  by (induction es) (simp_all add: elems_def spelled_def plain_def)

section \<open>Its progress over whole instructions\<close>

text \<open>The opcodes that matter, in the order they come.\<close>

definition opcode_of :: "instr \<Rightarrow> string" where
  "opcode_of i = (case elems i of [] \<Rightarrow> [] | opcode # _ \<Rightarrow> opcode)"

lemma forger_args_fixed:
  "hs_state (obs_args (forger_hooks rng) h as) = hs_state h \<and>
   out (obs_args (forger_hooks rng) h as) = out h \<and>
   forger_opcode (obs_args (forger_hooks rng) h as) = forger_opcode h \<and>
   rng_pos (obs_args (forger_hooks rng) h as) = rng_pos h \<and>
   size_args (obs_args (forger_hooks rng) h as) =
     (if forger_opcode h = ''size'' then size_args h @ as else size_args h) \<and>
   (forger_opcode h \<noteq> ''select'' \<longrightarrow> protocol (obs_args (forger_hooks rng) h as) = protocol h) \<and>
   connect_values (obs_args (forger_hooks rng) h as) =
     (if forger_opcode h = ''connect'' then connect_values h @ as else connect_values h) \<and>
   (forger_opcode h = ''select'' \<longrightarrow> as \<noteq> [] \<longrightarrow>
      protocol (obs_args (forger_hooks rng) h as) = last as)"
proof (induction as arbitrary: h)
  case (Cons a as)
  from Cons.IH[of "snd (forger_OnArgument a h)"] show ?case
    by (cases "as = []") (auto simp: forger_OnArgument_def split: if_splits)
qed simp

lemma forger_obs:
  assumes "i \<noteq> []" and "g = obs_elems (forger_hooks rng) h (elems i)"
  shows "obs_instr (forger_hooks rng) n h i = forger_OnInstructionEnd rng (n + length (wire_instr i) - 1) g"
    and "forger_opcode g = opcode_of i" "hs_state g = hs_state h" "out g = out h" "rng_pos g = rng_pos h"
    and "size_args g = (if opcode_of i = ''size'' then size_args h @ tl (elems i) else size_args h)"
    and "opcode_of i \<noteq> ''select'' \<Longrightarrow> protocol g = protocol h"
    and "opcode_of i = ''select'' \<Longrightarrow> tl (elems i) \<noteq> [] \<Longrightarrow> protocol g = last (elems i)"
    and "connect_values g =
          (if opcode_of i = ''connect'' then connect_values h @ tl (elems i) else connect_values h)"
proof -
  from assms(1) obtain opcode as where e: "elems i = opcode # as" by (cases "elems i") auto
  show "obs_instr (forger_hooks rng) n h i = forger_OnInstructionEnd rng (n + length (wire_instr i) - 1) g"
    by (simp add: obs_instr_def assms(2))
  show "forger_opcode g = opcode_of i" "hs_state g = hs_state h" "out g = out h" "rng_pos g = rng_pos h"
    "size_args g = (if opcode_of i = ''size'' then size_args h @ tl (elems i) else size_args h)"
    "opcode_of i \<noteq> ''select'' \<Longrightarrow> protocol g = protocol h"
    "opcode_of i = ''select'' \<Longrightarrow> tl (elems i) \<noteq> [] \<Longrightarrow> protocol g = last (elems i)"
    "connect_values g =
          (if opcode_of i = ''connect'' then connect_values h @ tl (elems i) else connect_values h)"
    using forger_args_fixed[of rng "h\<lparr>forger_opcode := opcode\<rparr>" as]
    by (auto simp: assms(2) e opcode_of_def forger_OnInstructionBegin_def)
qed

definition answered :: "instr \<Rightarrow> bool" where
  "answered i \<longleftrightarrow> opcode_of i = ''select'' \<or> opcode_of i = ''connect''"

definition sizes :: "instr list \<Rightarrow> string list" where
  "sizes is = concat (map (\<lambda>i. tl (elems i)) (filter (\<lambda>i. opcode_of i = ''size'') is))"

lemma forger_silent:
  "list_all (\<lambda>i. i \<noteq> [] \<and> \<not> answered i) is \<Longrightarrow>
   hs_state (obs_instrs (forger_hooks rng) n h is) = hs_state h \<and>
   out (obs_instrs (forger_hooks rng) n h is) = out h \<and>
   protocol (obs_instrs (forger_hooks rng) n h is) = protocol h \<and>
   rng_pos (obs_instrs (forger_hooks rng) n h is) = rng_pos h \<and>
   connect_values (obs_instrs (forger_hooks rng) n h is) = connect_values h \<and>
   size_args (obs_instrs (forger_hooks rng) n h is) = size_args h @ sizes is"
proof (induction "is" arbitrary: n h)
  case (Cons i "is")
  then have i: "i \<noteq> []" "opcode_of i \<noteq> ''select''" "opcode_of i \<noteq> ''connect''"
    by (simp_all add: answered_def)
  note g = forger_obs[OF i(1) refl, where rng = rng and h = h]
  have o: "obs_instr (forger_hooks rng) n h i = obs_elems (forger_hooks rng) h (elems i)"
    using g(1,2) i by (simp add: forger_OnInstructionEnd_def)
  from Cons.IH[of "n + length (wire_instr i)" "obs_elems (forger_hooks rng) h (elems i)"] Cons.prems g(3-9) i
  show ?case by (simp add: o sizes_def)
qed (simp add: sizes_def)

lemma obs_instrs_append:
  "obs_instrs hk n h (xs @ ys) = obs_instrs hk (n + length (wire xs)) (obs_instrs hk n h xs) ys"
  by (induction xs arbitrary: n h) (simp_all add: add.assoc)

lemma forger_raw: "hooks_keep (forger_hooks rng) (\<lambda>h. handshake_raw h = x)"
  by (simp add: hooks_keep_def forger_OnInstructionBegin_def forger_OnArgument_def
      forger_OnInstructionEnd_def Let_def)

section \<open>Properties\<close>

text \<open>
  C35: a whole client handshake fed at once (\<open>select\<close>, anything but \<open>select\<close> and \<open>connect\<close>, then
  \<open>connect\<close>) is answered with the protocol's canned \<open>args\<close>, \<open>ready\<close> with the fake id and the waiting
  screen for the client's size; the forger is then \<open>ESTABLISHED\<close> and holds the protocol, the connect
  values and the verbatim bytes.
\<close>

theorem forger_answers_handshake:
  assumes "list_all (instr_ok (forger_hooks rng)) (sel # mid @ [con])"
    and "elems sel = [''select'', proto]" and "list_all (\<lambda>i. \<not> answered i) mid"
    and "opcode_of con = ''connect''"
  shows "case forger_Feed rng (new_parser new_forger_fields) (wire (sel # mid @ [con])) of
    (reply, p) \<Rightarrow>
      reply = CannedArgs (sub p) @ instr_str [''ready'', make_fake_id rng 0] @ WaitingScreen (sub p) \<and>
      hs_state (sub p) = ESTABLISHED \<and> protocol (sub p) = proto \<and>
      connect_values (sub p) = tl (elems con) \<and> size_args (sub p) = sizes mid \<and>
      handshake_raw (sub p) = wire (sel # mid @ [con])"
proof -
  let ?w = "wire (sel # mid @ [con])" and ?hk = "forger_hooks rng"
  let ?h0 = "new_forger_fields\<lparr>handshake_raw := ?w\<rparr>"
  let ?p = "(new_parser new_forger_fields)\<lparr>sub := ?h0\<rparr>"
  have start: "(new_parser new_forger_fields)\<lparr>sub := (sub (new_parser new_forger_fields))
      \<lparr>out := [], handshake_raw := handshake_raw (sub (new_parser new_forger_fields)) @ ?w\<rparr>\<rparr> = ?p"
    by (simp add: new_parser_def new_forger_fields_def)
  have "at_pos ?p [] (PLen [])" by (simp add: new_parser_def)
  from forger.Parse_observes[OF this assms(1)] obtain q where
    q: "Parse ?hk ?p ?w = (READING_LENGTH, q)" "at_pos q [] (PLen [])"
      "sub q = obs_instrs ?hk 0 ?h0 (sel # mid @ [con])" by auto
  from assms(1) have ne: "sel \<noteq> []" "list_all (\<lambda>i. i \<noteq> [] \<and> \<not> answered i) mid" "con \<noteq> []"
    using assms(3) by (auto simp: list_all_iff instr_ok_def)
  define h1 where "h1 = obs_instr ?hk 0 ?h0 sel"
  note s = forger_obs[OF ne(1) refl, where rng = rng and h = ?h0]
  have h1: "hs_state h1 = EXCHANGING_PARAMETERS" "protocol h1 = proto" "rng_pos h1 = 0"
      "connect_values h1 = []" "size_args h1 = []" "out h1 = CannedArgs h1"
    using s assms(2)
    by (simp_all add: h1_def forger_OnInstructionEnd_def opcode_of_def new_forger_fields_def CannedArgs_def)
  define n1 where "n1 = length (wire_instr sel)"
  define h2 where "h2 = obs_instrs ?hk n1 h1 mid"
  have h2: "protocol h2 = proto" "rng_pos h2 = 0" "connect_values h2 = []" "size_args h2 = sizes mid"
      "out h2 = CannedArgs h2"
    using forger_silent[OF ne(2), of rng n1 h1] h1 by (simp_all add: h2_def CannedArgs_def)
  define n2 where "n2 = n1 + length (wire mid)"
  note c = forger_obs[OF ne(3) refl, where rng = rng and h = h2]
  have sq: "sub q = obs_instr ?hk n2 h2 con"
    unfolding q(3) by (simp add: obs_instrs_append h1_def h2_def n1_def n2_def)
  have h3: "protocol (sub q) = proto" "connect_values (sub q) = tl (elems con)"
      "size_args (sub q) = sizes mid" "hs_state (sub q) = ESTABLISHED"
      "out (sub q) = CannedArgs (sub q) @ instr_str [''ready'', make_fake_id rng 0] @ WaitingScreen (sub q)"
    unfolding sq c(1) using c(2-9) assms(4) h2
    by (simp_all add: forger_OnInstructionEnd_def Let_def CannedArgs_def WaitingScreen_def)
  have "handshake_raw (sub (snd (Parse ?hk ?p ?w))) = ?w"
    by (rule Parse_keep[OF forger_raw]) simp
  moreover have "forger_Feed rng (new_parser new_forger_fields) ?w = (out (sub q), q)"
    unfolding forger_Feed_def start Let_def q(1) using q(2) by simp
  ultimately show ?thesis using h3 unfolding q(1) by (simp only: prod.case snd_conv)
qed

definition ex_client :: "instr list" where
  "ex_client = [[(''4'', ''size''), (''3'', ''800''), (''3'', ''600'')], [(''5'', ''audio'')]]"

lemma forger_answers_handshake_witness:
  "hs_state (sub (snd (forger_Feed (\<lambda>_. 5) (new_parser new_forger_fields)
     (wire ([(''6'', ''select''), (''3'', ''ssh'')] # ex_client @
            [[(''7'', ''connect''), (''1'', ''x'')]]))))) = ESTABLISHED"
proof -
  let ?is = "[(''6'', ''select''), (''3'', ''ssh'')] # ex_client @ [[(''7'', ''connect''), (''1'', ''x'')]]"
  have "list_all (instr_ok (forger_hooks (\<lambda>_. 5))) ?is"
    unfolding instr_ok_def elem_ok_def limit_def by code_simp
  moreover have "elems [(''6'', ''select''), (''3'', ''ssh'')] = [''select'', ''ssh'']" by code_simp
  moreover have "list_all (\<lambda>i. \<not> answered i) ex_client" by code_simp
  moreover have "opcode_of [(''7'', ''connect''), (''1'', ''x'')] = ''connect''" by code_simp
  ultimately show ?thesis
    using forger_answers_handshake[of "\<lambda>_. 5" "[(''6'', ''select''), (''3'', ''ssh'')]" ex_client
        "[(''7'', ''connect''), (''1'', ''x'')]" "''ssh''"]
    by (cases "forger_Feed (\<lambda>_. 5) (new_parser new_forger_fields) (wire ?is)") simp
qed

text \<open>
  The bytes captured for the replay are exactly the bytes fed, in order, whatever they are and
  whether or not they parse; \<open>INVALID_HANDSHAKE\<close> is entered exactly when the framer is corrupted.
\<close>

theorem forger_captures_verbatim:
  "handshake_raw (sub (snd (forger_Feed rng p data))) = handshake_raw (sub p) @ data \<and>
   (pstate (snd (forger_Feed rng p data)) = STREAM_CORRUPTED \<longrightarrow>
      hs_state (sub (snd (forger_Feed rng p data))) = INVALID_HANDSHAKE)"
proof -
  let ?p = "p\<lparr>sub := (sub p)\<lparr>out := [], handshake_raw := handshake_raw (sub p) @ data\<rparr>\<rparr>"
  have "handshake_raw (sub (snd (Parse (forger_hooks rng) ?p data))) = handshake_raw (sub p) @ data"
    by (rule Parse_keep[OF forger_raw]) simp
  then show ?thesis by (simp add: forger_Feed_def Let_def)
qed

lemma forger_captures_verbatim_witness:
  "hs_state (sub (snd (forger_Feed (\<lambda>_. 0) (new_parser new_forger_fields) ''x''))) = INVALID_HANDSHAKE"
proof -
  have "pstate (snd (forger_Feed (\<lambda>_. 0) (new_parser new_forger_fields) ''x'')) = STREAM_CORRUPTED"
    by code_simp
  with forger_captures_verbatim[of "\<lambda>_. 0" "new_parser new_forger_fields" "''x''"] show ?thesis by blast
qed

definition ssh_params :: "string list" where
  "ssh_params =
    [''hostname'', ''host-key'', ''port'', ''timeout'', ''username'', ''password'', ''font-name'',
     ''font-size'', ''enable-sftp'', ''sftp-root-directory'', ''sftp-disable-download'',
     ''sftp-disable-upload'', ''private-key'', ''passphrase'', ''public-key'', ''color-scheme'',
     ''command'', ''typescript-path'', ''typescript-name'', ''create-typescript-path'',
     ''typescript-write-existing'', ''recording-path'', ''recording-name'',
     ''recording-exclude-output'', ''recording-exclude-mouse'', ''recording-include-keys'',
     ''create-recording-path'', ''recording-write-existing'', ''read-only'',
     ''server-alive-interval'', ''backspace'', ''terminal-type'', ''scrollback'', ''locale'',
     ''timezone'', ''disable-copy'', ''disable-paste'', ''wol-send-packet'', ''wol-mac-addr'',
     ''wol-broadcast-addr'', ''wol-udp-port'', ''wol-wait-time'']"

definition rdp_params :: "string list" where
  "rdp_params =
    [''hostname'', ''port'', ''timeout'', ''domain'', ''username'', ''password'', ''width'',
     ''height'', ''dpi'', ''initial-program'', ''color-depth'', ''disable-audio'',
     ''enable-printing'', ''printer-name'', ''enable-drive'', ''drive-name'', ''drive-path'',
     ''create-drive-path'', ''disable-download'', ''disable-upload'', ''console'',
     ''console-audio'', ''server-layout'', ''security'', ''ignore-cert'', ''cert-tofu'',
     ''cert-fingerprints'', ''disable-auth'', ''remote-app'', ''remote-app-dir'',
     ''remote-app-args'', ''static-channels'', ''client-name'', ''enable-wallpaper'',
     ''enable-theming'', ''enable-font-smoothing'', ''enable-full-window-drag'',
     ''enable-desktop-composition'', ''enable-menu-animations'', ''disable-bitmap-caching'',
     ''disable-offscreen-caching'', ''disable-glyph-caching'', ''disable-gfx'',
     ''preconnection-id'', ''preconnection-blob'', ''timezone'', ''enable-sftp'',
     ''sftp-hostname'', ''sftp-host-key'', ''sftp-port'', ''sftp-timeout'', ''sftp-username'',
     ''sftp-password'', ''sftp-private-key'', ''sftp-passphrase'', ''sftp-public-key'',
     ''sftp-directory'', ''sftp-root-directory'', ''sftp-server-alive-interval'',
     ''sftp-disable-download'', ''sftp-disable-upload'', ''recording-path'', ''recording-name'',
     ''recording-exclude-output'', ''recording-exclude-mouse'', ''recording-exclude-touch'',
     ''recording-include-keys'', ''create-recording-path'', ''recording-write-existing'',
     ''resize-method'', ''enable-audio-input'', ''enable-touch'', ''read-only'',
     ''gateway-hostname'', ''gateway-port'', ''gateway-domain'', ''gateway-username'',
     ''gateway-password'', ''load-balance-info'', ''disable-copy'', ''disable-paste'',
     ''wol-send-packet'', ''wol-mac-addr'', ''wol-broadcast-addr'', ''wol-udp-port'',
     ''wol-wait-time'', ''force-lossless'', ''normalize-clipboard'']"

lemma canned_spelled:
  "SSH_ARGS_1_6_0 = wire_instr (spelled ([''args'', ''VERSION_1_5_0''] @ ssh_params))"
  "RDP_ARGS_1_6_0 = wire_instr (spelled ([''args'', ''VERSION_1_5_0''] @ rdp_params))"
  by code_simp+

lemma params_plain: "list_all plain ssh_params" "list_all plain rdp_params"
  by code_simp+

text \<open>
  Both canned \<open>args\<close> replies are one well-formed instruction (every length prefix is the length of
  its element): the opcode, the version token and 42 parameter names for ssh, 88 for rdp, so that the
  client's \<open>connect\<close> has one value for each.
\<close>

theorem canned_args_well_formed:
  "SSH_ARGS_1_6_0 = wire_instr (spelled ([''args'', ''VERSION_1_5_0''] @ ssh_params)) \<and>
   RDP_ARGS_1_6_0 = wire_instr (spelled ([''args'', ''VERSION_1_5_0''] @ rdp_params)) \<and>
   instr_ok hk (spelled ([''args'', ''VERSION_1_5_0''] @ ssh_params)) \<and>
   instr_ok hk (spelled ([''args'', ''VERSION_1_5_0''] @ rdp_params)) \<and>
   length ssh_params = 42 \<and> length rdp_params = 88"
proof -
  have "list_all plain ([''args'', ''VERSION_1_5_0''] @ ssh_params)"
    "list_all plain ([''args'', ''VERSION_1_5_0''] @ rdp_params)" by code_simp+
  then have "instr_ok hk (spelled ([''args'', ''VERSION_1_5_0''] @ ssh_params))"
    "instr_ok hk (spelled ([''args'', ''VERSION_1_5_0''] @ rdp_params))"
    by (simp_all add: spelled_ok del: append_Cons)
  moreover have "length ssh_params = 42" "length rdp_params = 88" by code_simp+
  ultimately show ?thesis using canned_spelled by blast
qed

text \<open>
  The waiting screen and the denied screen are streams of well-formed instructions, for any client
  size arguments the framer accepted; the denied screen ends by telling the client to disconnect.
\<close>

theorem screens_well_formed:
  assumes "list_all plain (size_args h)"
  shows "(\<exists>w ht. WaitingScreen h =
      wire (map spelled [[''size'', ''0'', w, ht], [''rect'', ''0'', ''0'', ''0'', w, ht],
        [''cfill'', ''14'', ''0'', ''40'', ''40'', ''40'', ''255''], [''sync'', ''0'']]) \<and>
      plain w \<and> plain ht) \<and>
    (\<exists>is. DeniedScreen = wire is \<and> list_all (instr_ok hk) is \<and> elems (last is) = [''disconnect''])"
proof -
  let ?w = "if length (size_args h) > 0 then size_args h ! 0 else ''1024''"
  let ?h = "if length (size_args h) > 1 then size_args h ! 1 else ''768''"
  have "plain ''1024''" "plain ''768''" by code_simp+
  with assms have "plain ?w" "plain ?h" by (auto simp: list_all_length)
  moreover have "WaitingScreen h =
      wire (map spelled [[''size'', ''0'', ?w, ?h], [''rect'', ''0'', ''0'', ''0'', ?w, ?h],
        [''cfill'', ''14'', ''0'', ''40'', ''40'', ''40'', ''255''], [''sync'', ''0'']])"
    unfolding WaitingScreen_def Let_def by (simp add: instr_str_wire del: instr_str.simps)
  ultimately have waiting: "\<exists>w ht. WaitingScreen h =
      wire (map spelled [[''size'', ''0'', w, ht], [''rect'', ''0'', ''0'', ''0'', w, ht],
        [''cfill'', ''14'', ''0'', ''40'', ''40'', ''40'', ''255''], [''sync'', ''0'']]) \<and>
      plain w \<and> plain ht" by blast
  let ?es = "[[''size'', ''0'', ''1024'', ''768''], [''rect'', ''0'', ''0'', ''0'', ''1024'', ''768''],
      [''cfill'', ''14'', ''0'', ''180'', ''30'', ''30'', ''255''], [''sync'', ''0''], [''disconnect'']]"
  have "DeniedScreen = wire (map spelled ?es)"
    unfolding DeniedScreen_def by (simp add: instr_str_wire del: instr_str.simps)
  moreover have pl: "list_all (list_all plain) ?es" by code_simp
  then have "list_all (instr_ok hk) (map spelled ?es)" by (simp add: spelled_ok)
  moreover have "elems (last (map spelled ?es)) = [''disconnect'']"
    using pl by (simp add: elems_spelled)
  ultimately show ?thesis using waiting by blast
qed

lemma screens_well_formed_witness:
  "\<exists>w ht. WaitingScreen (new_forger_fields\<lparr>size_args := [''800'']\<rparr>) =
      wire (map spelled [[''size'', ''0'', w, ht], [''rect'', ''0'', ''0'', ''0'', w, ht],
        [''cfill'', ''14'', ''0'', ''40'', ''40'', ''40'', ''255''], [''sync'', ''0'']]) \<and>
      plain w \<and> plain ht"
proof -
  have "list_all plain (size_args (new_forger_fields\<lparr>size_args := [''800'']\<rparr>))" by code_simp
  from screens_well_formed[OF this] show ?thesis by blast
qed

definition id_pattern :: "char set list" where
  "id_pattern =
     (let h = set hex_digits in
      [{CHR ''$''}, h, h, h, h, h, h, h, h, {CHR ''-''}, h, h, h, h, {CHR ''-''}, h, h, h, h,
       {CHR ''-''}, h, h, h, h, {CHR ''-''}, h, h, h, h, h, h, h, h, h, h, h, h])"

text \<open>
  The forged connection id has guacd's shape, for every outcome of the random draws: a dollar sign,
  then groups of 8, 4, 4, 4 and 12 lowercase hex digits with hyphens between them.
\<close>

theorem fake_id_shape:
  assumes "\<And>n. rng n < 16"
  shows "list_all2 (\<in>) (make_fake_id rng pos) id_pattern"
proof -
  have hex: "hex_digits ! rng n \<in> set hex_digits" for n
    using assms[of n] by (intro nth_mem) (simp add: hex_digits_def)
  have "[pos..<pos + 32] = map (\<lambda>n. pos + n) [0..<32]"
    by (induction "32 :: nat") (simp_all add: map_add_upt add.commute)
  moreover have "[0..<32] = [0, 1, 2, 3, 4, 5, 6, 7, 8, 9, 10, 11, 12, 13, 14, 15, 16, 17, 18, 19, 20,
      21, 22, 23, 24, 25, 26, 27, 28, 29, 30, 31 :: nat]" by code_simp
  ultimately show ?thesis
    using hex by (simp add: make_fake_id_def id_pattern_def Let_def)
qed

lemma fake_id_shape_witness: "list_all2 (\<in>) (make_fake_id (\<lambda>n. n mod 16) 0) id_pattern"
  by (rule fake_id_shape) simp

end
