(* ===== verification/Broker_Filters.thy ===== *)
theory Broker_Filters imports Observer begin

text \<open>
  The two filters of gmlbroker: \<open>gmlbroker/include/forward_keepalive_filter.h\<close>,
  \<open>gmlbroker/src/forward_keepalive_filter.cpp\<close> (browser to guacd) and
  \<open>gmlbroker/include/return_filter.h\<close>, \<open>gmlbroker/src/return_filter.cpp\<close> (guacd to browser).
\<close>

section \<open>\<open>ForwardKeepaliveFilter\<close>\<close>

text \<open>The class has no fields of its own.\<close>

definition keepalive_OnInstructionBegin :: "string \<Rightarrow> unit \<Rightarrow> bool \<times> unit" where
  "keepalive_OnInstructionBegin instr h =
     (let is_sync = (length instr = 4 \<and> instr = ''sync'');
          is_nop = (length instr = 3 \<and> instr = ''nop'')
      in (\<not> (is_sync \<or> is_nop), h))"

definition keepalive_hooks :: "unit hooks" where
  "keepalive_hooks =
     base_hooks\<lparr>OnInstructionBegin := keepalive_OnInstructionBegin, Tolerates := True\<rparr>"

text \<open>\<open>Filter(char *data, size_t &len)\<close>: the buffer, the new length, the object.\<close>

definition keepalive_Filter :: "unit parser \<Rightarrow> string \<Rightarrow> nat \<Rightarrow> string \<times> nat \<times> unit parser" where
  "keepalive_Filter p data len =
     (case Parse keepalive_hooks p (take len data) of
        (st, p1) \<Rightarrow>
          if st = STREAM_CORRUPTED then (data, len, Reset p1)
          else Excise p1 data len)"

lemma keepalive_hooks_sel [simp]:
  "OnInstructionBegin keepalive_hooks = keepalive_OnInstructionBegin"
  "OnArgument keepalive_hooks = (\<lambda>_ h. (True, h))"
  "OnInstructionEnd keepalive_hooks = (\<lambda>_ h. h)" "Tolerates keepalive_hooks = True"
  by (simp_all add: keepalive_hooks_def base_hooks_def)

interpretation kaf: deny_filter keepalive_hooks "(=)"
  by unfold_locales auto

definition is_keepalive :: "instr \<Rightarrow> bool" where
  "is_keepalive i \<longleftrightarrow> (case elems i of [] \<Rightarrow> False | opcode # _ \<Rightarrow> opcode = ''sync'' \<or> opcode = ''nop'')"

lemma keepalive_args: "exec_args keepalive_hooks h as = Some h"
  by (induction as) auto

lemma keepalive_exec: "exec_instr keepalive_hooks h (elems i) = (if is_keepalive i then None else Some h)"
  by (cases "elems i") (auto simp: is_keepalive_def keepalive_OnInstructionBegin_def keepalive_args)

lemma keepalive_spec: "spec_filter keepalive_hooks h is = filter (\<lambda>i. \<not> is_keepalive i) is"
  by (induction "is") (auto simp: keepalive_exec)

lemma keepalive_instrs:
  assumes "at_pos p [] (PLen [])" and "list_all (instr_ok keepalive_hooks) is"
    and "keepalive_Filter p (wire is) (length (wire is)) = (data, len, p')"
  shows "take len data = wire (filter (\<lambda>i. \<not> is_keepalive i) is) \<and> at_pos p' [] (PLen []) \<and> len \<le> length data"
proof -
  obtain st q where res: "Parse keepalive_hooks p (wire is) = (st, q)" by fastforce
  from kaf.Parse_instrs[OF assms(1) _ assms(2) res, of "sub p"] have
    q: "at_pos q [] (PLen [])" "ranges_ok 0 (denied_ranges q) (length (wire is))"
      "cut_ranges (denied_ranges q) 0 (wire is) = wire (filter (\<lambda>i. \<not> is_keepalive i) is)"
      "st = (if denied_ranges q = [] then READING_LENGTH else DENIED_DATA)"
    by (auto simp: keepalive_spec)
  from q(4) have "st \<noteq> STREAM_CORRUPTED" by (auto split: if_splits)
  with assms(3) res have "Excise q (wire is) (length (wire is)) = (data, len, p')"
    by (simp add: keepalive_Filter_def)
  from Excise_correct[OF q(2) this] q(1,3) show ?thesis by simp
qed

text \<open>
  At an instruction boundary, on a buffer of whole well-formed instructions, \<open>Filter\<close> removes
  exactly the \<open>sync\<close> and \<open>nop\<close> instructions, keeps every other byte in order, and stands at a boundary.
\<close>

theorem keepalive_Filter_swallows:
  assumes "at_pos p [] (PLen [])" and "list_all (instr_ok keepalive_hooks) is"
    and "keepalive_Filter p (wire is) (length (wire is)) = (data, len, p')"
  shows "take len data = wire (filter (\<lambda>i. \<not> is_keepalive i) is) \<and> at_pos p' [] (PLen [])"
  using keepalive_instrs[OF assms] by (elim conjE) (intro conjI)

definition ex_browser :: "instr list" where
  "ex_browser = [[(''4'', ''sync''), (''1'', ''9'')], [(''3'', ''key''), (''2'', ''65''), (''1'', ''1'')], [(''3'', ''nop'')]]"

lemma keepalive_Filter_swallows_witness:
  "case keepalive_Filter (new_parser ()) (wire ex_browser) (length (wire ex_browser)) of
     (data, len, p') \<Rightarrow> take len data = ''3.key,2.65,1.1;''"
proof -
  have "at_pos (new_parser ()) [] (PLen [])" by (simp add: new_parser_def)
  moreover have "list_all (instr_ok keepalive_hooks) ex_browser" by code_simp
  moreover have "wire (filter (\<lambda>i. \<not> is_keepalive i) ex_browser) = ''3.key,2.65,1.1;''" by code_simp
  ultimately show ?thesis
    using keepalive_Filter_swallows[of "new_parser ()" ex_browser]
    by (cases "keepalive_Filter (new_parser ()) (wire ex_browser) (length (wire ex_browser))")
      (simp del: at_pos.simps)
qed

text \<open>
  Fail open. When the chunk cannot be analysed, the buffer and its length are left as they were and
  the parser is back at an instruction boundary, whatever state it was in.
\<close>

theorem keepalive_Filter_fails_open:
  assumes "fst (Parse keepalive_hooks p (take len data)) = STREAM_CORRUPTED"
  shows "\<exists>p'. keepalive_Filter p data len = (data, len, p') \<and> at_pos p' [] (PLen [])"
  using assms
  by (cases "Parse keepalive_hooks p (take len data)") (simp add: keepalive_Filter_def Reset_def)

lemma keepalive_Filter_fails_open_witness:
  "\<exists>p'. keepalive_Filter (new_parser ()) ''4.sync,'' 7 = (''4.sync,'', 7, p') \<and> at_pos p' [] (PLen [])"
proof -
  have "fst (Parse keepalive_hooks (new_parser ()) (take 7 ''4.sync,'')) = STREAM_CORRUPTED" by code_simp
  from keepalive_Filter_fails_open[OF this] show ?thesis .
qed

section \<open>\<open>ReturnFilter\<close>\<close>

record ret_fields =
  ret_opcode :: string
  piping :: bool
  ready_end :: nat

definition new_ret_fields :: ret_fields where
  "new_ret_fields = \<lparr>ret_opcode = [], piping = False, ready_end = 0\<rparr>"

definition ret_OnInstructionBegin :: "string \<Rightarrow> ret_fields \<Rightarrow> bool \<times> ret_fields" where
  "ret_OnInstructionBegin instr h = (True, h\<lparr>ret_opcode := instr\<rparr>)"

definition ret_OnInstructionEnd :: "nat \<Rightarrow> ret_fields \<Rightarrow> ret_fields" where
  "ret_OnInstructionEnd i h =
     (if \<not> piping h \<and> ret_opcode h = ''ready'' then h\<lparr>piping := True, ready_end := i + 1\<rparr> else h)"

definition ret_hooks :: "ret_fields hooks" where
  "ret_hooks =
     base_hooks\<lparr>OnInstructionBegin := ret_OnInstructionBegin, OnInstructionEnd := ret_OnInstructionEnd\<rparr>"

definition ret_Feed :: "ret_fields parser \<Rightarrow> string \<Rightarrow> string \<times> ret_fields parser" where
  "ret_Feed p data =
     (if piping (sub p) then (data, p)
      else
        let p0 = p\<lparr>sub := (sub p)\<lparr>ready_end := 0\<rparr>\<rparr>;
            p1 = snd (Parse ret_hooks p0 data)
        in if piping (sub p1) then (drop (ready_end (sub p1)) data, p1) else ([], p1))"

lemma ret_hooks_sel [simp]:
  "OnInstructionBegin ret_hooks = ret_OnInstructionBegin" "OnArgument ret_hooks = (\<lambda>_ h. (True, h))"
  "OnInstructionEnd ret_hooks = ret_OnInstructionEnd" "Tolerates ret_hooks = False"
  by (simp_all add: ret_hooks_def base_hooks_def)

interpretation rets: observer ret_hooks
  by unfold_locales (simp_all add: ret_OnInstructionBegin_def)

definition has_opcode :: "string \<Rightarrow> instr \<Rightarrow> bool" where
  "has_opcode op i \<longleftrightarrow> (case elems i of [] \<Rightarrow> False | opcode # _ \<Rightarrow> opcode = op)"

lemma ret_args: "obs_args ret_hooks h as = h"
  by (induction as) auto

lemma ret_obs_other:
  "\<not> has_opcode ''ready'' i \<Longrightarrow> i \<noteq> [] \<Longrightarrow>
   piping (obs_instr ret_hooks n h i) = piping h \<and> ready_end (obs_instr ret_hooks n h i) = ready_end h"
  by (cases "elems i")
    (auto simp: has_opcode_def obs_instr_def ret_args ret_OnInstructionBegin_def ret_OnInstructionEnd_def)

lemma ret_obs_others:
  "list_all (\<lambda>i. i \<noteq> [] \<and> \<not> has_opcode ''ready'' i) is \<Longrightarrow>
   piping (obs_instrs ret_hooks n h is) = piping h \<and> ready_end (obs_instrs ret_hooks n h is) = ready_end h"
  by (induction "is" arbitrary: n h) (auto simp: ret_obs_other)

lemma ret_obs_ready:
  "has_opcode ''ready'' i \<Longrightarrow> \<not> piping h \<Longrightarrow>
   piping (obs_instr ret_hooks n h i) \<and> ready_end (obs_instr ret_hooks n h i) = n + length (wire_instr i)"
  by (cases "elems i")
    (auto simp: has_opcode_def obs_instr_def ret_args ret_OnInstructionBegin_def ret_OnInstructionEnd_def
      wire_instr_def wire_elem_def split: list.splits)

text \<open>Once piping, whatever follows in the same buffer changes neither field.\<close>

lemma ret_keeps: "hooks_keep ret_hooks (\<lambda>h. piping h \<and> ready_end h = n)"
  by (simp add: hooks_keep_def ret_OnInstructionBegin_def ret_OnInstructionEnd_def)

text \<open>
  The filter hides guacd's own handshake. From a boundary, a frame with other instructions, then
  \<open>ready\<close>, then arbitrary bytes gives exactly those bytes; from then on every frame passes unchanged.
\<close>

theorem ret_Feed_strips_handshake:
  assumes "at_pos p [] (PLen [])" and "\<not> piping (sub p)"
    and "list_all (instr_ok ret_hooks) (pre @ [rdy])"
    and "list_all (\<lambda>i. \<not> has_opcode ''ready'' i) pre" and "has_opcode ''ready'' rdy"
  shows "\<exists>p'. ret_Feed p (wire pre @ wire_instr rdy @ rest) = (rest, p') \<and>
    (\<forall>frame. ret_Feed p' frame = (frame, p'))"
proof -
  let ?p = "p\<lparr>sub := (sub p)\<lparr>ready_end := 0\<rparr>\<rparr>" and ?w = "wire (pre @ [rdy])"
  have "at_pos (obj (start_call ?p)) [] (PLen [])" "quiet (start_call ?p)"
    using assms(1) by (simp_all add: start_call_def quiet_def)
  from rets.obs_run_instrs[OF this assms(3), of 0] obtain k where
    k: "parse_loop ret_hooks 0 ?w (start_call ?p) = Continue k"
      "sub (obj k) = obs_instrs ret_hooks 0 ((sub p)\<lparr>ready_end := 0\<rparr>) (pre @ [rdy])"
    by (auto simp: start_call_def)
  have app: "obs_instrs ret_hooks n h (xs @ [y]) =
      obs_instr ret_hooks (n + length (wire xs)) (obs_instrs ret_hooks n h xs) y" for n h xs y
    by (induction xs arbitrary: n h) (simp_all add: add.assoc)
  have "list_all (\<lambda>i. i \<noteq> [] \<and> \<not> has_opcode ''ready'' i) pre"
    using assms(3,4) by (auto simp: list_all_iff instr_ok_def)
  from ret_obs_others[OF this, of 0 "(sub p)\<lparr>ready_end := 0\<rparr>"] assms(2)
  have "\<not> piping (obs_instrs ret_hooks 0 ((sub p)\<lparr>ready_end := 0\<rparr>) pre)" by simp
  from ret_obs_ready[OF assms(5) this, of "length (wire pre)"]
  have sk: "piping (sub (obj k)) \<and> ready_end (sub (obj k)) = length ?w"
    unfolding k(2) app by simp
  obtain st q where res: "Parse ret_hooks ?p (wire pre @ wire_instr rdy @ rest) = (st, q)" by fastforce
  have "parse_loop ret_hooks 0 (?w @ rest) (start_call ?p) = parse_loop ret_hooks (length ?w) rest k"
    using parse_loop_append[of ret_hooks 0 ?w rest "start_call ?p"] k(1) by simp
  then have "sub q = flow_sub (parse_loop ret_hooks (length ?w) rest k)"
    using res finish_sub[of "parse_loop ret_hooks (length ?w) rest k"] by (simp add: Parse_def)
  with loop_keep[OF ret_keeps sk, of "length ?w" rest]
  have "piping (sub q) \<and> ready_end (sub q) = length ?w" by simp
  with assms(2) res show ?thesis
    by (intro exI[of _ q]) (simp add: ret_Feed_def Let_def)
qed

definition ex_ready :: instr where "ex_ready = [(''5'', ''ready''), (''2'', ''$7'')]"

lemma ret_Feed_strips_handshake_witness:
  "fst (ret_Feed (new_parser new_ret_fields) (wire [[(''4'', ''args'')]] @ wire_instr ex_ready @ ''4.size,1.0'')) =
     ''4.size,1.0''"
proof -
  let ?p = "new_parser new_ret_fields"
  have "at_pos ?p [] (PLen [])" "\<not> piping (sub ?p)" by (simp_all add: new_parser_def new_ret_fields_def)
  moreover have "list_all (instr_ok ret_hooks) ([[(''4'', ''args'')]] @ [ex_ready])" by code_simp
  moreover have "list_all (\<lambda>i. \<not> has_opcode ''ready'' i) [[(''4'', ''args'')]]" "has_opcode ''ready'' ex_ready"
    by code_simp+
  ultimately show ?thesis using ret_Feed_strips_handshake[of ?p "[[(''4'', ''args'')]]" ex_ready "''4.size,1.0''"]
    by (auto simp del: at_pos.simps)
qed

end
