(* ===== verification/Clipboard_Ack_Faker.thy ===== *)
theory Clipboard_Ack_Faker imports Resync begin

text \<open>
  \<open>gmlbroker/include/clipboard_ack_faker.h\<close> and \<open>gmlbroker/src/clipboard_ack_faker.cpp\<close>: the ack the
  browser waits for when the guard drops a clipboard blob. The specification is stated over the guard's
  \<open>policy\<close>: the faker follows the same open stream as the guard's parser and acknowledges exactly the
  blobs on it whose payload is over the shared cap.
\<close>

section \<open>\<open>class ClipboardAckFaker\<close>\<close>

record clip_fields =
  clip_opcode :: string
  clip_sidx :: int
  clip_arg :: nat
  blob_on_clipboard :: bool
  acks :: string

definition new_clip_fields :: clip_fields where
  "new_clip_fields =
     \<lparr>clip_opcode = [], clip_sidx = -1, clip_arg = 0, blob_on_clipboard = False, acks = []\<rparr>"

definition parse_index :: "string \<Rightarrow> int" where
  "parse_index arg =
     (case from_chars_int arg of
        None \<Rightarrow> -1
      | Some (v, unread) \<Rightarrow> if unread \<noteq> [] then -1 else v)"

definition make_ack :: "int \<Rightarrow> string" where
  "make_ack sidx =
     (let idx = show_int sidx in
      ''3.ack,'' @ show_nat (length idx) @ ''.'' @ idx @ '',2.OK,1.0;'')"

definition clip_OnInstructionBegin :: "string \<Rightarrow> clip_fields \<Rightarrow> bool \<times> clip_fields" where
  "clip_OnInstructionBegin instr h =
     (True, h\<lparr>clip_opcode := instr, clip_arg := 0, blob_on_clipboard := False\<rparr>)"

definition clip_OnArgument :: "string \<Rightarrow> clip_fields \<Rightarrow> bool \<times> clip_fields" where
  "clip_OnArgument arg h0 =
     (let h = h0\<lparr>clip_arg := clip_arg h0 + 1\<rparr> in
      (True,
       if clip_arg h = 1 then
         let sidx = parse_index arg in
         if clip_opcode h = ''clipboard'' then h\<lparr>clip_sidx := sidx\<rparr>
         else if clip_opcode h = ''blob'' then
           h\<lparr>blob_on_clipboard := (sidx \<ge> 0 \<and> sidx = clip_sidx h)\<rparr>
         else if clip_opcode h = ''end'' \<and> sidx = clip_sidx h then h\<lparr>clip_sidx := -1\<rparr>
         else h
       else if clip_arg h = 2 \<and> blob_on_clipboard h \<and> length arg > MAX_CLIPBOARD_BYTES then
         h\<lparr>acks := acks h @ make_ack (clip_sidx h)\<rparr>
       else h))"

definition clip_hooks :: "clip_fields hooks" where
  "clip_hooks =
     base_hooks\<lparr>OnInstructionBegin := clip_OnInstructionBegin, OnArgument := clip_OnArgument,
                Tolerates := True\<rparr>"

definition clip_Feed :: "clip_fields parser \<Rightarrow> string \<Rightarrow> string \<times> clip_fields parser" where
  "clip_Feed p data =
     (let p0 = p\<lparr>sub := (sub p)\<lparr>acks := []\<rparr>\<rparr>;
          q = resync clip_hooks p0 data 0
      in (acks (sub q), q))"

lemma clip_hooks_sel [simp]:
  "OnInstructionBegin clip_hooks = clip_OnInstructionBegin" "OnArgument clip_hooks = clip_OnArgument"
  "OnInstructionEnd clip_hooks = (\<lambda>_ h. h)" "Tolerates clip_hooks = True"
  by (simp_all add: clip_hooks_def base_hooks_def)

interpretation clips: appender clip_hooks acks "\<lambda>x h. h\<lparr>acks := x\<rparr>"
  by unfold_locales
    (simp_all add: clip_OnInstructionBegin_def clip_OnArgument_def commutes_def index_free_def Let_def)

lemma clip_Feed_acc: "clip_Feed p data = feed_acc clip_hooks acks (\<lambda>x h. h\<lparr>acks := x\<rparr>) p data"
  by (simp add: clip_Feed_def feed_acc_def map_sub_def)

lemma parse_index_same: "parse_index = parse_stream_index"
  by (simp add: parse_index_def parse_stream_index_def fun_eq_iff)

section \<open>The specification, over the guard's policy\<close>

text \<open>The guard's open stream after an instruction it accepts or drops.\<close>

definition guard_sidx :: "int \<Rightarrow> string list \<Rightarrow> int" where
  "guard_sidx s es = (case policy s es of None \<Rightarrow> s | Some s' \<Rightarrow> s')"

text \<open>A blob on the open stream that the guard drops for its size.\<close>

fun over_cap :: "int \<Rightarrow> string list \<Rightarrow> bool" where
  "over_cap s (opcode # a # payload # _) =
     (opcode = ''blob'' \<and> 0 \<le> s \<and> parse_stream_index a = s \<and> MAX_CLIPBOARD_BYTES < length payload)"
| "over_cap s _ = False"

fun ack_replies :: "int \<Rightarrow> string list list \<Rightarrow> string" where
  "ack_replies s [] = []"
| "ack_replies s (i # is) = (if over_cap s i then make_ack s else []) @ ack_replies (guard_sidx s i) is"

lemma over_cap_dropped: "over_cap s i \<Longrightarrow> policy s i = None"
  by (cases "(s, i)" rule: over_cap.cases) auto

lemma drop_clip_args:
  "clip_arg h \<ge> 2 \<Longrightarrow> acks (obs_args clip_hooks h as) = acks h \<and>
     clip_sidx (obs_args clip_hooks h as) = clip_sidx h"
proof (induction as arbitrary: h)
  case (Cons a as)
  from Cons.prems have "snd (clip_OnArgument a h) = h\<lparr>clip_arg := clip_arg h + 1\<rparr>"
    by (simp add: clip_OnArgument_def)
  with Cons.IH[of "h\<lparr>clip_arg := clip_arg h + 1\<rparr>"] Cons.prems show ?case by simp
qed simp

lemma second_clip_arg:
  assumes "clip_arg h = 1"
  shows "clip_sidx (obs_args clip_hooks h as) = clip_sidx h \<and>
    acks (obs_args clip_hooks h as) = acks h @
      (case as of
         payload # _ \<Rightarrow> if blob_on_clipboard h \<and> MAX_CLIPBOARD_BYTES < length payload
                       then make_ack (clip_sidx h) else []
       | [] \<Rightarrow> [])"
proof (cases as)
  case (Cons payload rest)
  let ?h = "snd (clip_OnArgument payload h)"
  have "clip_arg ?h = 2" "clip_sidx ?h = clip_sidx h"
    "acks ?h = acks h @ (if blob_on_clipboard h \<and> MAX_CLIPBOARD_BYTES < length payload
                         then make_ack (clip_sidx h) else [])"
    using assms by (simp_all add: clip_OnArgument_def Let_def)
  with drop_clip_args[of ?h rest] Cons show ?thesis by simp
qed simp

text \<open>The first argument of an instruction, by opcode.\<close>

lemma first_clip_arg:
  assumes "clip_arg h = 0" and "clip_opcode h = opcode" and "\<not> blob_on_clipboard h"
    and "g = snd (clip_OnArgument a h)"
  shows "clip_arg g = 1 \<and> acks g = acks h \<and>
    blob_on_clipboard g = (opcode = ''blob'' \<and> 0 \<le> clip_sidx h \<and> parse_stream_index a = clip_sidx h) \<and>
    clip_sidx g = (if opcode = ''clipboard'' then parse_stream_index a
                   else if opcode = ''end'' \<and> parse_stream_index a = clip_sidx h then -1
                   else clip_sidx h)"
  using assms
  by (cases "opcode = ''clipboard''"; cases "opcode = ''blob''"; cases "opcode = ''end''")
    (auto simp: clip_OnArgument_def Let_def parse_index_same)

lemma guard_sidx_first:
  "guard_sidx s (opcode # a # rest) =
     (if opcode = ''clipboard'' then parse_stream_index a
      else if opcode = ''end'' \<and> parse_stream_index a = s then -1 else s)"
  by (auto simp: guard_sidx_def allowlist_def split: list.splits)

lemma clip_obs_instr:
  "acks (obs_instr clip_hooks i h es) =
     acks h @ (if over_cap (clip_sidx h) (elems es) then make_ack (clip_sidx h) else []) \<and>
   clip_sidx (obs_instr clip_hooks i h es) = guard_sidx (clip_sidx h) (elems es)"
proof (cases "elems es")
  case Nil
  then show ?thesis by (simp add: obs_instr_def guard_sidx_def)
next
  case (Cons opcode args)
  let ?h = "h\<lparr>clip_opcode := opcode, clip_arg := 0, blob_on_clipboard := False\<rparr>"
  have b: "snd (clip_OnInstructionBegin opcode h) = ?h"
    by (simp add: clip_OnInstructionBegin_def)
  show ?thesis
  proof (cases args)
    case Nil
    with Cons b show ?thesis by (simp add: obs_instr_def guard_sidx_def)
  next
    case args: (Cons a rest)
    define g where "g = snd (clip_OnArgument a ?h)"
    have g: "clip_arg g = 1" "acks g = acks h"
      "blob_on_clipboard g = (opcode = ''blob'' \<and> 0 \<le> clip_sidx h \<and> parse_stream_index a = clip_sidx h)"
      "clip_sidx g = guard_sidx (clip_sidx h) (opcode # a # rest)"
      using first_clip_arg[of ?h opcode g a] by (simp_all add: g_def guard_sidx_first)
    have fin: "obs_instr clip_hooks i h es = obs_args clip_hooks g rest"
      using Cons args b by (simp add: obs_instr_def g_def)
    have cap: "over_cap (clip_sidx h) (opcode # a # rest) \<longleftrightarrow> blob_on_clipboard g \<and>
        (case rest of payload # _ \<Rightarrow> MAX_CLIPBOARD_BYTES < length payload | [] \<Rightarrow> False)"
      using g(3) by (auto split: list.splits)
    have "blob_on_clipboard g \<Longrightarrow> clip_sidx g = clip_sidx h"
      using g(3,4) by (simp add: guard_sidx_first)
    with second_clip_arg[OF g(1), of rest] g(2,4) cap show ?thesis
      unfolding fin Cons args by (cases rest) auto
  qed
qed

lemma clip_obs_instrs:
  "acks (obs_instrs clip_hooks i h is) = acks h @ ack_replies (clip_sidx h) (map elems is) \<and>
   clip_sidx (obs_instrs clip_hooks i h is) = foldl guard_sidx (clip_sidx h) (map elems is)"
proof (induction "is" arbitrary: i h)
  case (Cons x xs)
  with clip_obs_instr[of i h x] show ?case by simp
qed simp

section \<open>Properties\<close>

lemma instr_ok_tolerant: "instr_ok guard_hooks i \<Longrightarrow> instr_ok clip_hooks i"
  by (auto simp: instr_ok_def elem_ok_def limit_def list_all_iff MAX_ELEMENT_SIZE_def)

lemma clip_Feed_instrs:
  assumes "at_pos p [] (PLen [])" and "list_all (instr_ok guard_hooks) is"
  shows "fst (clip_Feed p (wire is)) = ack_replies (clip_sidx (sub p)) (map elems is) \<and>
    clip_sidx (sub (snd (clip_Feed p (wire is)))) = foldl guard_sidx (clip_sidx (sub p)) (map elems is) \<and>
    at_pos (snd (clip_Feed p (wire is))) [] (PLen [])"
proof -
  let ?p = "p\<lparr>sub := (sub p)\<lparr>acks := []\<rparr>\<rparr>"
  have pos: "at_pos ?p [] (PLen [])" using assms(1) by simp
  have "list_all (instr_ok clip_hooks) is"
    using assms(2) instr_ok_tolerant by (auto simp: list_all_iff)
  from clips.Parse_observes[OF pos this] obtain q where
    q: "Parse clip_hooks ?p (wire is) = (READING_LENGTH, q)" "at_pos q [] (PLen [])"
      "sub q = obs_instrs clip_hooks 0 ((sub p)\<lparr>acks := []\<rparr>) is" by auto
  show ?thesis
  proof (cases "wire is = []")
    case True
    then show ?thesis
      using pos by (cases "is") (auto simp: clip_Feed_def Let_def resync_Nil wire_instr_def wire_elem_def)
  next
    case False
    with resync_accepted[OF q(1)] q(2,3) show ?thesis
      by (simp add: clip_Feed_def Let_def clip_obs_instrs)
  qed
qed

text \<open>
  C31: on whole instructions that the guard frames, the faker returns one \<open>ack\<close> for each blob the guard
  drops for exceeding the cap on the open clipboard stream, with that stream's index, and no other; and
  it ends with the same open stream as the guard.
\<close>

theorem clip_Feed_acks_dropped_blobs:
  assumes "at_pos p [] (PLen [])" and "list_all (instr_ok guard_hooks) is"
  shows "fst (clip_Feed p (wire is)) = ack_replies (clip_sidx (sub p)) (map elems is) \<and>
    clip_sidx (sub (snd (clip_Feed p (wire is)))) = foldl guard_sidx (clip_sidx (sub p)) (map elems is) \<and>
    at_pos (snd (clip_Feed p (wire is))) [] (PLen [])"
  using assms by (rule clip_Feed_instrs)

definition ex_paste :: "instr list" where
  "ex_paste = [[(''9'', ''clipboard''), (''1'', ''4'')],
               [(''4'', ''blob''), (''1'', ''4''), (''67'', replicate 67 (CHR ''A''))],
               [(''4'', ''blob''), (''1'', ''4''), (''4'', ''QUJD'')]]"

lemma clip_Feed_acks_dropped_blobs_witness:
  "fst (clip_Feed (new_parser new_clip_fields) (wire ex_paste)) = ''3.ack,1.4,2.OK,1.0;''"
proof -
  have "at_pos (new_parser new_clip_fields) [] (PLen [])" by (simp add: new_parser_def)
  moreover have "list_all (instr_ok guard_hooks) ex_paste" by code_simp
  moreover have "ack_replies (-1) (map elems ex_paste) = ''3.ack,1.4,2.OK,1.0;''" by code_simp
  moreover have "clip_sidx (sub (new_parser new_clip_fields)) = -1"
    by (simp add: new_parser_def new_clip_fields_def)
  ultimately show ?thesis using clip_Feed_acks_dropped_blobs by metis
qed

text \<open>
  The acks do not depend on how the browser's bytes are cut into reads: when the bytes parse,
  feeding \<open>a\<close> and then \<open>b\<close> returns together what feeding \<open>a @ b\<close> returns.
\<close>

theorem clip_Feed_split:
  assumes "Parse clip_hooks (p\<lparr>sub := (sub p)\<lparr>acks := []\<rparr>\<rparr>) (a @ b) = (st, q)" and "accepted st"
  shows "fst (clip_Feed p a) @ fst (clip_Feed (snd (clip_Feed p a)) b) = fst (clip_Feed p (a @ b))"
  using clips.feed_split[of p a b st q] assms by (simp add: clip_Feed_acc map_sub_def)

lemma clip_Feed_split_witness:
  "fst (clip_Feed (new_parser new_clip_fields) ''9.clip'') @
   fst (clip_Feed (snd (clip_Feed (new_parser new_clip_fields) ''9.clip'')) ''board,1.4;'') = []"
proof -
  let ?p = "new_parser new_clip_fields"
  obtain st q where r: "Parse clip_hooks (?p\<lparr>sub := (sub ?p)\<lparr>acks := []\<rparr>\<rparr>) (''9.clip'' @ ''board,1.4;'') = (st, q)"
    by fastforce
  have "accepted (fst (Parse clip_hooks (?p\<lparr>sub := (sub ?p)\<lparr>acks := []\<rparr>\<rparr>) (''9.clip'' @ ''board,1.4;'')))"
    by code_simp
  with r have "accepted st" by simp
  moreover have "fst (clip_Feed ?p (''9.clip'' @ ''board,1.4;'')) = []" by code_simp
  ultimately show ?thesis using clip_Feed_split[OF r] by simp
qed

end
