(* ===== verification/Approval_Registry.thy ===== *)
theory Approval_Registry imports Prelude begin

text \<open>
  \<open>gmlbroker/include/approval_registry.h\<close> and \<open>gmlbroker/src/approval_registry.cpp\<close>. An entry holds a
  \<open>shared_ptr<atomic<bool>>\<close>; readers keep copies of it beyond \<open>Remove\<close>. The pointees live in an
  explicit store indexed by addresses, so that aliasing between an entry and a reader's copy is visible.
\<close>

type_synonym ref = nat

record ApprovalRegistry =
  entries :: "channel \<Rightarrow> (ref \<times> string) option"
  flags :: "ref \<Rightarrow> bool"
  next_ref :: ref

definition new_ApprovalRegistry :: ApprovalRegistry where
  "new_ApprovalRegistry = \<lparr>entries = Map.empty, flags = (\<lambda>_. False), next_ref = 0\<rparr>"

section \<open>Operations\<close>

text \<open>\<open>std::make_shared<std::atomic<bool>>(false)\<close> is a new address.\<close>

definition ACreate :: "channel \<Rightarrow> ApprovalRegistry \<Rightarrow> ApprovalRegistry" where
  "ACreate ch r =
     (let a = next_ref r in
      r\<lparr>entries := (entries r)(ch := Some (a, [])), flags := (flags r)(a := False), next_ref := a + 1\<rparr>)"

definition Flag :: "channel \<Rightarrow> ApprovalRegistry \<Rightarrow> ref option" where
  "Flag ch r = (case entries r ch of None \<Rightarrow> None | Some (a, _) \<Rightarrow> Some a)"

definition SetRequestId :: "channel \<Rightarrow> string \<Rightarrow> ApprovalRegistry \<Rightarrow> ApprovalRegistry" where
  "SetRequestId ch rid r =
     (case entries r ch of
        None \<Rightarrow> r
      | Some (a, _) \<Rightarrow> r\<lparr>entries := (entries r)(ch := Some (a, rid))\<rparr>)"

definition Approve :: "channel \<Rightarrow> string \<Rightarrow> ApprovalRegistry \<Rightarrow> bool \<times> ApprovalRegistry" where
  "Approve ch rid r =
     (case entries r ch of
        None \<Rightarrow> (False, r)
      | Some (a, request_id) \<Rightarrow>
          if request_id \<noteq> rid then (False, r) else (True, r\<lparr>flags := (flags r)(a := True)\<rparr>))"

definition Matches :: "channel \<Rightarrow> string \<Rightarrow> ApprovalRegistry \<Rightarrow> bool" where
  "Matches ch rid r =
     (case entries r ch of None \<Rightarrow> False | Some (_, request_id) \<Rightarrow> request_id = rid)"

definition ARemove :: "channel \<Rightarrow> ApprovalRegistry \<Rightarrow> ApprovalRegistry" where
  "ARemove ch r = r\<lparr>entries := (entries r)(ch := None)\<rparr>"

text \<open>A reader's test \<open>approved && approved->load()\<close> on the copy it took when it started.\<close>

definition load_flag :: "ref option \<Rightarrow> ApprovalRegistry \<Rightarrow> bool" where
  "load_flag fl r = (case fl of None \<Rightarrow> False | Some a \<Rightarrow> flags r a)"

section \<open>Sequences of calls\<close>

text \<open>The calls the threads make, in any order.\<close>

datatype acall =
    CCreate channel
  | CSetId channel string
  | CApprove channel string
  | CRemove channel

fun acall_step :: "acall \<Rightarrow> ApprovalRegistry \<Rightarrow> ApprovalRegistry" where
  "acall_step (CCreate ch) r = ACreate ch r"
| "acall_step (CSetId ch rid) r = SetRequestId ch rid r"
| "acall_step (CApprove ch rid) r = snd (Approve ch rid r)"
| "acall_step (CRemove ch) r = ARemove ch r"

definition acalls :: "acall list \<Rightarrow> ApprovalRegistry \<Rightarrow> ApprovalRegistry" where
  "acalls cs r = fold acall_step cs r"

lemma acalls_simps [simp]: "acalls [] r = r" "acalls (c # cs) r = acalls cs (acall_step c r)"
  by (simp_all add: acalls_def)

text \<open>Addresses below the counter; two channels never share one.\<close>

definition reg_ok :: "ApprovalRegistry \<Rightarrow> bool" where
  "reg_ok r \<longleftrightarrow>
     (\<forall>ch a rid. entries r ch = Some (a, rid) \<longrightarrow> a < next_ref r) \<and>
     (\<forall>c d a x y. entries r c = Some (a, x) \<longrightarrow> entries r d = Some (a, y) \<longrightarrow> c = d)"

lemma reg_ok_new [simp]: "reg_ok new_ApprovalRegistry"
  by (simp add: reg_ok_def new_ApprovalRegistry_def)

lemma reg_ok_step: "reg_ok r \<Longrightarrow> reg_ok (acall_step c r)"
proof (cases c)
  case (CCreate ch)
  assume "reg_ok r"
  then show ?thesis unfolding CCreate
    by (auto simp: reg_ok_def ACreate_def Let_def less_Suc_eq split: if_splits)
qed (auto simp: reg_ok_def SetRequestId_def Approve_def ARemove_def split: option.splits if_splits)

lemma reg_uniq: "reg_ok r \<Longrightarrow> entries r c = Some (a, x) \<Longrightarrow> entries r d = Some (a, y) \<Longrightarrow> c = d \<and> x = y"
  unfolding reg_ok_def by (metis option.inject prod.inject)

lemma reg_less: "reg_ok r \<Longrightarrow> entries r c = Some (a, x) \<Longrightarrow> a < next_ref r"
  unfolding reg_ok_def by blast

lemma reg_ok_acalls: "reg_ok r \<Longrightarrow> reg_ok (acalls cs r)"
  by (induction cs arbitrary: r) (simp_all add: reg_ok_step)

text \<open>The address of an entry that is no longer in the map.\<close>

definition stale :: "ref \<Rightarrow> ApprovalRegistry \<Rightarrow> bool" where
  "stale a r \<longleftrightarrow> a < next_ref r \<and> (\<forall>ch rid. entries r ch \<noteq> Some (a, rid))"

lemma stale_step: "reg_ok r \<Longrightarrow> stale a r \<Longrightarrow> stale a (acall_step c r) \<and> flags (acall_step c r) a = flags r a"
  by (cases c)
    (auto simp: stale_def ACreate_def SetRequestId_def Approve_def ARemove_def Let_def
      split: option.splits if_splits)

lemma stale_acalls: "reg_ok r \<Longrightarrow> stale a r \<Longrightarrow> flags (acalls cs r) a = flags r a"
proof (induction cs arbitrary: r)
  case (Cons c cs)
  with stale_step[of r a c] reg_ok_step[of r c] show ?case by simp
qed simp

text \<open>A flag is raised only by an \<open>Approve\<close> whose id is the entry's.\<close>

lemma raise_step:
  assumes "reg_ok r" and "entries r ch = Some (a, rid)" and "\<not> flags r a"
    and "flags (acall_step c r) a"
  shows "c = CApprove ch rid"
  using assms
  by (cases c)
    (auto simp: ACreate_def SetRequestId_def Approve_def ARemove_def Let_def
      split: option.splits if_splits dest: reg_uniq)

section \<open>Properties\<close>

text \<open>
  A verdict for a reused channel never reaches the old reader. Once a channel has been removed (or
  its entry replaced), the flag the old reader holds keeps its value, whatever calls follow.
\<close>

theorem stale_flag_unreachable:
  assumes "reg_ok r" and "Flag ch r = Some a" and "c = CRemove ch \<or> c = CCreate ch"
  shows "flags (acalls (c # cs) r) a = flags r a"
proof -
  from assms(2) obtain rid where e: "entries r ch = Some (a, rid)"
    by (auto simp: Flag_def split: option.splits)
  from assms(1) e have lt: "a < next_ref r" by (auto simp: reg_ok_def)
  from assms(1) e have uniq: "entries r d = Some (a, x) \<Longrightarrow> d = ch" for d x
    by (auto simp: reg_ok_def)
  from assms(3) lt have same: "flags (acall_step c r) a = flags r a"
    by (auto simp: ACreate_def ARemove_def Let_def)
  have "stale a (acall_step c r)"
    using assms(3) lt uniq by (auto simp: stale_def ACreate_def ARemove_def Let_def split: if_splits)
  from stale_acalls[OF reg_ok_step[OF assms(1)] this, of cs] same show ?thesis by simp
qed

definition ex_calls :: "acall list" where
  "ex_calls = [CCreate 3, CSetId 3 ''ab'']"

lemma stale_flag_unreachable_witness:
  "flags (acalls [CRemove 3, CCreate 3, CSetId 3 ''ab'', CApprove 3 ''ab'']
     (acalls ex_calls new_ApprovalRegistry)) 0 = False"
proof -
  let ?r = "acalls ex_calls new_ApprovalRegistry"
  have "Flag 3 ?r = Some 0" by code_simp
  from stale_flag_unreachable[OF reg_ok_acalls[OF reg_ok_new] this, of "CRemove 3"]
  have "flags (acalls [CRemove 3, CCreate 3, CSetId 3 ''ab'', CApprove 3 ''ab''] ?r) 0 = flags ?r 0"
    by blast
  also have "\<dots> = False" by code_simp
  finally show ?thesis .
qed

text \<open>
  A channel's flag goes up only by an \<open>Approve\<close> for that channel that carries the id of its
  outstanding request; an \<open>Approve\<close> with any other id, or for any other channel, leaves it down.
\<close>

theorem approve_needs_matching_id:
  assumes "reg_ok r" and "Flag ch r = Some a" and "\<not> load_flag (Some a) r"
    and "load_flag (Some a) (acall_step c r)"
  shows "\<exists>rid. c = CApprove ch rid \<and> Matches ch rid r"
proof -
  from assms(2) obtain rid where e: "entries r ch = Some (a, rid)"
    by (auto simp: Flag_def split: option.splits)
  from raise_step[OF assms(1) e] assms(3,4) have "c = CApprove ch rid" by (simp add: load_flag_def)
  with e show ?thesis by (simp add: Matches_def)
qed

lemma approve_needs_matching_id_witness:
  "Matches 3 ''ab'' (acalls ex_calls new_ApprovalRegistry)"
proof -
  let ?r = "acalls ex_calls new_ApprovalRegistry"
  have "Flag 3 ?r = Some 0" "\<not> load_flag (Some 0) ?r" "load_flag (Some 0) (acall_step (CApprove 3 ''ab'') ?r)"
    by code_simp+
  from approve_needs_matching_id[OF reg_ok_acalls[OF reg_ok_new] this] show ?thesis by blast
qed

text \<open>
  A hole in the matching. Between \<open>Create\<close> and \<open>SetRequestId\<close> the stored id is empty, so a verdict
  with an empty id approves a channel for which nothing was requested yet.
\<close>

theorem empty_id_approves_unrequested:
  "Approve ch [] (ACreate ch r) =
     (True, (ACreate ch r)\<lparr>flags := (flags (ACreate ch r))(next_ref r := True)\<rparr>)"
  by (simp add: Approve_def ACreate_def Let_def)

end
