(* ===== verification/Mailbox.thy ===== *)
theory Mailbox imports Prelude begin

text \<open>
  \<open>gmlbroker/include/channel_mailbox.h\<close> and \<open>gmlbroker/src/channel_mailbox.cpp\<close>. A mailbox is its queue,
  its two flags and the counter of its \<open>eventfd\<close>. \<open>Post\<close>, \<open>RequestTeardown\<close> and \<open>Drain\<close> are not atomic:
  each is an update under the mutex and a separate access to the \<open>eventfd\<close>, so they are two steps here
  and the threads interleave between them.
\<close>

section \<open>\<open>ChannelMailbox\<close>\<close>

record ChannelMailbox =
  outbox :: "string list"
  teardown :: bool
  announce :: bool
  counter :: nat

definition new_ChannelMailbox :: ChannelMailbox where
  "new_ChannelMailbox = \<lparr>outbox = [], teardown = False, announce = True, counter = 0\<rparr>"

text \<open>
  \<open>write(event_fd, 1)\<close> on a non-blocking \<open>eventfd\<close>: the counter saturates at \<open>2 ^ 64 - 2\<close>, where the
  write fails with \<open>EAGAIN\<close> and is dropped.
\<close>

definition COUNTER_MAX :: nat where "COUNTER_MAX = 2 ^ 64 - 2"

definition Signal :: "ChannelMailbox \<Rightarrow> ChannelMailbox" where
  "Signal m = (if counter m + 1 > COUNTER_MAX then m else m\<lparr>counter := counter m + 1\<rparr>)"

definition post_locked :: "string \<Rightarrow> ChannelMailbox \<Rightarrow> ChannelMailbox" where
  "post_locked bs m = m\<lparr>outbox := outbox m @ [bs]\<rparr>"

definition Post :: "string \<Rightarrow> ChannelMailbox \<Rightarrow> ChannelMailbox" where
  "Post bs m = Signal (post_locked bs m)"

definition teardown_locked :: "bool \<Rightarrow> ChannelMailbox \<Rightarrow> ChannelMailbox" where
  "teardown_locked b m = m\<lparr>teardown := True, announce := b\<rparr>"

definition RequestTeardown :: "bool \<Rightarrow> ChannelMailbox \<Rightarrow> ChannelMailbox" where
  "RequestTeardown b m = Signal (teardown_locked b m)"

text \<open>The \<open>while (read(\<dots>) > 0)\<close> loop leaves the counter at zero.\<close>

definition clear_wake :: "ChannelMailbox \<Rightarrow> ChannelMailbox" where
  "clear_wake m = m\<lparr>counter := 0\<rparr>"

definition take_locked :: "ChannelMailbox \<Rightarrow> (string list \<times> bool \<times> bool) \<times> ChannelMailbox" where
  "take_locked m = ((outbox m, teardown m, announce m), m\<lparr>outbox := []\<rparr>)"

definition Drain :: "ChannelMailbox \<Rightarrow> (string list \<times> bool \<times> bool) \<times> ChannelMailbox" where
  "Drain m = take_locked (clear_wake m)"

section \<open>\<open>MailboxRegistry\<close>\<close>

text \<open>Mailboxes are shared by \<open>shared_ptr\<close>: addresses into a store, as senders may outlive an entry.\<close>

record MailboxRegistry =
  mailboxes :: "channel \<Rightarrow> nat option"
  boxes :: "nat \<Rightarrow> ChannelMailbox"
  next_box :: nat

definition new_MailboxRegistry :: MailboxRegistry where
  "new_MailboxRegistry = \<lparr>mailboxes = Map.empty, boxes = (\<lambda>_. new_ChannelMailbox), next_box = 0\<rparr>"

definition MCreate :: "channel \<Rightarrow> MailboxRegistry \<Rightarrow> nat \<times> MailboxRegistry" where
  "MCreate ch r =
     (let a = next_box r in
      (a, r\<lparr>mailboxes := (mailboxes r)(ch := Some a), boxes := (boxes r)(a := new_ChannelMailbox),
            next_box := a + 1\<rparr>))"

definition MGet :: "channel \<Rightarrow> MailboxRegistry \<Rightarrow> nat option" where
  "MGet ch r = mailboxes r ch"

definition MRemove :: "channel \<Rightarrow> MailboxRegistry \<Rightarrow> MailboxRegistry" where
  "MRemove ch r = r\<lparr>mailboxes := (mailboxes r)(ch := None)\<rparr>"

definition on_box :: "nat \<Rightarrow> (ChannelMailbox \<Rightarrow> ChannelMailbox) \<Rightarrow> MailboxRegistry \<Rightarrow> MailboxRegistry" where
  "on_box a f r = r\<lparr>boxes := (boxes r)(a := f (boxes r a))\<rparr>"

section \<open>Posters and the reader, interleaved\<close>

text \<open>
  \<open>unsignalled\<close> counts the posters that have updated the mailbox and not yet signalled;
  \<open>cleared\<close> says the reader is between its two steps. \<open>posted\<close> and \<open>drained\<close> are the history.
\<close>

record msys =
  box :: ChannelMailbox
  unsignalled :: nat
  cleared :: bool
  posted :: "string list"
  drained :: "string list"
  asked :: bool
  seen :: bool

datatype mstep = PostLock string | TeardownLock bool | DoSignal | Clear | Take

definition new_msys :: msys where
  "new_msys = \<lparr>box = new_ChannelMailbox, unsignalled = 0, cleared = False, posted = [], drained = [],
               asked = False, seen = False\<rparr>"

inductive mbox_step :: "msys \<Rightarrow> mstep \<Rightarrow> msys \<Rightarrow> bool" where
  post: "mbox_step s (PostLock bs)
           (s\<lparr>box := post_locked bs (box s), unsignalled := unsignalled s + 1, posted := posted s @ [bs]\<rparr>)"
| ask: "mbox_step s (TeardownLock b)
           (s\<lparr>box := teardown_locked b (box s), unsignalled := unsignalled s + 1, asked := True, seen := False\<rparr>)"
| signal: "unsignalled s > 0 \<Longrightarrow>
     mbox_step s DoSignal (s\<lparr>box := Signal (box s), unsignalled := unsignalled s - 1\<rparr>)"
| clear: "\<not> cleared s \<Longrightarrow> counter (box s) > 0 \<Longrightarrow>
     mbox_step s Clear (s\<lparr>box := clear_wake (box s), cleared := True\<rparr>)"
| take_all: "cleared s \<Longrightarrow> take_locked (box s) = ((out, td, an), m) \<Longrightarrow>
     mbox_step s Take (s\<lparr>box := m, cleared := False, drained := drained s @ out, seen := td\<rparr>)"

inductive_cases mbox_stepE: "mbox_step s e s'"

inductive mbox_reach :: "msys \<Rightarrow> bool" where
  start: "mbox_reach new_msys"
| step: "mbox_reach s \<Longrightarrow> mbox_step s e s' \<Longrightarrow> mbox_reach s'"

text \<open>Work the reader has not taken is announced: by the counter, a poster, or the reader itself.\<close>

definition mbox_inv :: "msys \<Rightarrow> bool" where
  "mbox_inv s \<longleftrightarrow>
     posted s = drained s @ outbox (box s) \<and> teardown (box s) = asked s \<and>
     (outbox (box s) \<noteq> [] \<or> asked s \<and> \<not> seen s \<longrightarrow>
        counter (box s) > 0 \<or> unsignalled s > 0 \<or> cleared s)"

lemma mbox_inv_reach: "mbox_reach s \<Longrightarrow> mbox_inv s"
proof (induction rule: mbox_reach.induct)
  case start
  show ?case by (simp add: mbox_inv_def new_msys_def new_ChannelMailbox_def)
next
  case (step s e s')
  have sig: "counter (Signal m) > 0" "outbox (Signal m) = outbox m" "teardown (Signal m) = teardown m" for m
    by (auto simp: Signal_def COUNTER_MAX_def)
  from step(2) step.IH show ?case
    by (cases rule: mbox_step.cases)
      (auto simp: mbox_inv_def post_locked_def teardown_locked_def clear_wake_def take_locked_def sig)
qed

section \<open>Properties\<close>

text \<open>
  No message is lost or reordered: in every reachable state of posters and reader, what was posted
  is what the reader has drained, in order, followed by what is still queued.
\<close>

theorem mailbox_fifo:
  assumes "mbox_reach s"
  shows "posted s = drained s @ outbox (box s)"
  using mbox_inv_reach[OF assms] by (simp add: mbox_inv_def)

definition ex_posted :: msys where
  "ex_posted = new_msys\<lparr>box := post_locked ''x'' new_ChannelMailbox, unsignalled := 1, posted := [''x'']\<rparr>"

lemma ex_posted_reach: "mbox_reach ex_posted"
proof -
  have "mbox_step new_msys (PostLock ''x'') ex_posted"
    using mbox_step.post[of new_msys "''x''"] by (simp add: ex_posted_def new_msys_def)
  then show ?thesis using mbox_reach.intros by blast
qed

lemma mailbox_fifo_witness: "posted ex_posted = [''x''] \<and> outbox (box ex_posted) = [''x'']"
  using mailbox_fifo[OF ex_posted_reach]
  by (simp add: ex_posted_def post_locked_def new_msys_def new_ChannelMailbox_def)



end
