(* ===== verification/Gml_Broker.thy ===== *)
theory Gml_Broker
  imports Handshake_Forger Broker_Filters Clipboard_Ack_Faker Approval_Registry Mailbox Channel_Table
    Sockets Operator_Input
begin

text \<open>
  \<open>gmlbroker\<close>: \<open>nethandlers/guacamole_accept_handler.cpp\<close>, \<open>guacamole_read_handler.cpp\<close>,
  \<open>guacamole_send_handler.cpp\<close> and the threads and shutdown order of \<open>main.cpp\<close>. The state is what the
  threads share with the reader threads. An iteration of a reader is three steps, so that the other
  threads run between its \<open>poll\<close>, its work on the mailbox and its work on the socket.
\<close>

section \<open>The anonymous namespace of the read handler\<close>

definition SYNC_INTERVAL_MS :: int where "SYNC_INTERVAL_MS = 1000"

fun request_id_loop :: "nat list \<Rightarrow> string \<Rightarrow> string" where
  "request_id_loop [] rid = rid"
| "request_id_loop (d # ds) rid = request_id_loop ds (rid @ [hex_digits ! d])"

text \<open>\<open>make_request_id\<close>, from its twelve draws.\<close>

definition make_request_id :: "nat list \<Rightarrow> string" where
  "make_request_id draws = request_id_loop (take 12 draws) []"

definition draws_ok :: "nat list \<Rightarrow> bool" where
  "draws_ok draws \<longleftrightarrow> length draws = 12 \<and> list_all (\<lambda>d. d \<le> 15) draws"

definition sync_instruction :: "nat \<Rightarrow> string" where
  "sync_instruction ms =
     (let ts = show_nat ms in ''4.sync,'' @ show_nat (length ts) @ ''.'' @ ts @ '';'')"

text \<open>The loop of \<open>replay_handshake\<close> from offset \<open>off\<close>: the messages it enqueues.\<close>

function replay_from :: "channel \<Rightarrow> string \<Rightarrow> nat \<Rightarrow> BridgeMessage list" where
  "replay_from ch handshake off =
     (if off < length handshake
      then mk_msg ch NONE (take MAX_PAYLOAD_SIZE (drop off handshake)) #
           replay_from ch handshake (off + MAX_PAYLOAD_SIZE)
      else [])"
  by pat_completeness auto
termination by (relation "measure (\<lambda>(_, h, off). length h - off)") (auto simp: MAX_PAYLOAD_SIZE_def)

declare replay_from.simps [simp del]

definition replay_handshake :: "channel \<Rightarrow> string \<Rightarrow> BridgeMessage list" where
  "replay_handshake ch handshake = replay_from ch handshake 0"

section \<open>A reader thread\<close>

text \<open>
  What \<open>poll\<close> reported: readiness of the socket (\<open>POLLIN\<close>, \<open>POLLHUP\<close> or \<open>POLLERR\<close>), of the mailbox
  (\<open>POLLIN\<close>), any other event; and whether OpenSSL held plaintext.
\<close>

record polled =
  sock_ready :: bool
  mail_ready :: bool
  other_event :: bool
  ssl_pending :: bool

text \<open>\<open>ready == 0\<close>\<close>

definition poll_timeout :: "polled \<Rightarrow> bool" where
  "poll_timeout p \<longleftrightarrow> \<not> (sock_ready p \<or> mail_ready p \<or> other_event p)"

text \<open>
  Where the thread is. \<open>Leaving n\<close>: past the loop, after \<open>n\<close> of \<open>approvals.Remove\<close>, \<open>mailboxes.Remove\<close>,
  \<open>table.Remove\<close>, the announcement, \<open>Close\<close> and \<open>Leave\<close>.
\<close>

datatype gml_pc = Starting | AtPoll | AtMail polled | AtSock polled | Leaving nat

record gml_reader =
  gr_channel :: channel
  gr_fd :: fd
  gr_rng :: "nat \<Rightarrow> nat"
  gr_forger :: "forger_fields parser"
  gr_keepalive :: "unit parser"
  gr_clip :: "clip_fields parser"
  gr_approved :: "ref option"
  gr_mailbox :: "nat option"
  replayed :: bool
  gr_announce :: bool
  gr_pc :: gml_pc

definition new_gml_reader :: "(nat \<Rightarrow> nat) \<Rightarrow> channel \<Rightarrow> fd \<Rightarrow> gml_reader" where
  "new_gml_reader rng ch fd =
     \<lparr>gr_channel = ch, gr_fd = fd, gr_rng = rng, gr_forger = new_parser new_forger_fields,
      gr_keepalive = new_parser (), gr_clip = new_parser new_clip_fields, gr_approved = None,
      gr_mailbox = None, replayed = False, gr_announce = True, gr_pc = Starting\<rparr>"

definition established :: "gml_reader \<Rightarrow> bool" where
  "established r \<longleftrightarrow> hs_state (sub (gr_forger r)) = ESTABLISHED"

text \<open>What a step of a reader does to the queues and the browser's socket.\<close>

record effects =
  to_bridge :: "BridgeMessage list"
  to_self :: "BridgeMessage list"
  to_browser :: "string list"

definition no_effects :: effects where
  "no_effects = \<lparr>to_bridge = [], to_self = [], to_browser = []\<rparr>"

text \<open>The results of one \<open>Send\<close>: on the fd's \<open>SSL\<close> object (if TLS is on) or of the \<open>send\<close> calls.\<close>

type_synonym send_result = "bool option option \<times> (errno + nat) list"

text \<open>The loop over the drained chunks: whether a write failed, and what was written.\<close>

fun write_chunks :: "fd \<Rightarrow> send_result list \<Rightarrow> string list \<Rightarrow> (bool \<times> string list) option" where
  "write_chunks fd ws [] = Some (False, [])"
| "write_chunks fd [] (c # cs) = None"
| "write_chunks fd (w # ws) (c # cs) =
     (case server_Send (fst w) fd c (snd w) of
        (None, _) \<Rightarrow> None
      | (Some rc, sl) \<Rightarrow>
          if rc < 0 then Some (True, [concat sl])
          else (case write_chunks fd ws cs of
                  None \<Rightarrow> None
                | Some (failed, sls) \<Rightarrow> Some (failed, concat sl # sls)))"

text \<open>\<open>if (mailbox && (pfds[1].revents & POLLIN))\<close>, on the drained contents of the mailbox.\<close>

definition mail_work ::
  "send_result list \<Rightarrow> string list \<times> bool \<times> bool \<Rightarrow> polled \<Rightarrow> gml_reader \<Rightarrow> (gml_reader \<times> effects) option" where
  "mail_work ws contents p r =
     (case contents of (chunks, down, do_announce) \<Rightarrow>
        (case write_chunks (gr_fd r) ws chunks of
           None \<Rightarrow> None
         | Some (write_failed, sls) \<Rightarrow>
             Some
               (if down then r\<lparr>gr_announce := do_announce, gr_pc := Leaving 0\<rparr>
                else if write_failed then r\<lparr>gr_pc := Leaving 0\<rparr>
                else r\<lparr>gr_pc := AtSock p\<rparr>,
                no_effects\<lparr>to_browser := sls\<rparr>)))"

text \<open>\<open>maybe_replay\<close>, with the value of the approval flag.\<close>

definition maybe_replay :: "bool \<Rightarrow> gml_reader \<Rightarrow> gml_reader \<times> BridgeMessage list" where
  "maybe_replay flag r =
     (if \<not> replayed r \<and> established r \<and> flag
      then (r\<lparr>replayed := True\<rparr>, replay_handshake (gr_channel r) (handshake_raw (sub (gr_forger r))))
      else (r, []))"

text \<open>The socket is not readable.\<close>

definition idle_work :: "bool \<Rightarrow> nat \<Rightarrow> polled \<Rightarrow> gml_reader \<Rightarrow> gml_reader \<times> effects" where
  "idle_work flag ms p r =
     (if poll_timeout p then
        (case maybe_replay flag r of
           (r1, replay) \<Rightarrow>
             (r1\<lparr>gr_pc := AtPoll\<rparr>,
              no_effects\<lparr>to_bridge := replay,
                to_browser := (if established r \<and> \<not> flag then [sync_instruction ms] else [])\<rparr>))
      else (r\<lparr>gr_pc := AtPoll\<rparr>, no_effects))"

text \<open>Bytes from the browser before the forged handshake is established.\<close>

definition forge_work :: "nat list \<Rightarrow> string \<Rightarrow> gml_reader \<Rightarrow> (gml_reader \<times> string option) \<times> effects" where
  "forge_work draws data r =
     (case forger_Feed (gr_rng r) (gr_forger r) data of
        (reply, p) \<Rightarrow>
          let r1 = r\<lparr>gr_forger := p\<rparr>;
              eff = no_effects\<lparr>to_browser := (if reply \<noteq> [] then [reply] else [])\<rparr>
          in if hs_state (sub p) = INVALID_HANDSHAKE then ((r1\<lparr>gr_pc := Leaving 0\<rparr>, None), eff)
             else if hs_state (sub p) = ESTABLISHED then
               let req_id = make_request_id draws in
               ((r1\<lparr>gr_pc := AtPoll\<rparr>, Some req_id),
                eff\<lparr>to_bridge := [mk_msg (gr_channel r) CREATE_CHANNEL req_id]\<rparr>)
             else ((r1\<lparr>gr_pc := AtPoll\<rparr>, None), eff))"

text \<open>Bytes from the browser once established.\<close>

definition pipe_work :: "bool \<Rightarrow> string \<Rightarrow> gml_reader \<Rightarrow> gml_reader \<times> effects" where
  "pipe_work flag data r =
     (case maybe_replay flag r of
        (r1, replay) \<Rightarrow>
          if replayed r1 then
            (case clip_Feed (gr_clip r1) data of
               (aks, cp) \<Rightarrow>
                 (case keepalive_Filter (gr_keepalive r1) data (length data) of
                    (data', len, kp) \<Rightarrow>
                      (r1\<lparr>gr_clip := cp, gr_keepalive := kp, gr_pc := AtPoll\<rparr>,
                       no_effects\<lparr>to_self := (if aks \<noteq> [] then [mk_msg (gr_channel r) NONE aks] else []),
                         to_bridge := replay @
                           (if len > 0 then [mk_msg (gr_channel r) NONE (take len data')] else [])\<rparr>)))
          else (r1\<lparr>gr_pc := AtPoll\<rparr>, no_effects))"

text \<open>
  The rest of the iteration: the reader, the request id it registers, its effects. \<open>tls\<close> and \<open>got\<close> are
  what the receive call saw, \<open>flag\<close> the value of the approval flag.
\<close>

definition sock_work ::
  "ssl_read option option \<Rightarrow> errno + string \<Rightarrow> nat list \<Rightarrow> nat \<Rightarrow> bool \<Rightarrow> polled \<Rightarrow> gml_reader \<Rightarrow>
   (gml_reader \<times> string option) \<times> effects" where
  "sock_work tls got draws ms flag p r =
     (if \<not> (sock_ready p \<or> ssl_pending p) then
        (case idle_work flag ms p r of (r1, eff) \<Rightarrow> ((r1, None), eff))
      else
        (case server_Receive tls (MAX_PAYLOAD_SIZE + 1) got of
           (received, buffer) \<Rightarrow>
             if received = RETRY then ((r\<lparr>gr_pc := AtPoll\<rparr>, None), no_effects)
             else if received \<le> 0 then ((r\<lparr>gr_pc := Leaving 0\<rparr>, None), no_effects)
             else if \<not> established r then forge_work draws buffer r
             else (case pipe_work flag buffer r of (r1, eff) \<Rightarrow> ((r1, None), eff))))"

section \<open>The process\<close>

datatype gml_main_pc = GServing | GRecvClosed | GFdsShut | GReadersLeft | GSendClosed

record gml =
  g_table :: ChannelTable
  g_approvals :: ApprovalRegistry
  g_mail :: MailboxRegistry
  g_recv :: NetQueue
  g_send :: NetQueue
  g_filters :: "channel \<Rightarrow> ret_fields parser option"
  g_readers :: ReaderGroup
  g_threads :: "gml_reader list"
  g_running :: bool
  accept_done :: bool
  g_udp_recv_done :: bool
  guacamole_send_done :: bool
  g_main :: gml_main_pc

definition new_gml :: gml where
  "new_gml =
     \<lparr>g_table = new_ChannelTable, g_approvals = new_ApprovalRegistry, g_mail = new_MailboxRegistry,
      g_recv = new_NetQueue, g_send = new_NetQueue, g_filters = Map.empty, g_readers = new_ReaderGroup,
      g_threads = [], g_running = True, accept_done = False, g_udp_recv_done = False,
      guacamole_send_done = False, g_main = GServing\<rparr>"

definition push_all :: "BridgeMessage list \<Rightarrow> NetQueue \<Rightarrow> NetQueue" where
  "push_all ms q = fold Enqueue ms q"

lemma queue_push_all [simp]: "queue (push_all ms q) = queue q @ ms"
  by (induction ms arbitrary: q) (simp_all add: push_all_def)

text \<open>
  The visible part of a step: \<open>Queued i m\<close> is reader \<open>i\<close> putting \<open>m\<close> on the queue to the bridge;
  \<open>Relayed i\<close> is what it wrote to its browser from its mailbox, \<open>Replied i\<close> what it answered itself.
\<close>

datatype gml_obs = Took BridgeMessage | Queued nat BridgeMessage | Relayed nat string | Replied nat string
  | ShutGml fd | ClosedGml fd | SentDatagram string

section \<open>\<open>GuacamoleAcceptHandler\<close>\<close>

definition accept_client :: "(nat \<Rightarrow> nat) \<Rightarrow> fd \<Rightarrow> gml \<Rightarrow> gml \<times> gml_obs list" where
  "accept_client rng fd s =
     (if fd < 0 then (s, [])
      else
        (case Allocate fd (g_table s) of
           (None, t) \<Rightarrow> (s\<lparr>g_table := t\<rparr>, [ClosedGml fd])
         | (Some ch, t) \<Rightarrow>
             (s\<lparr>g_table := t, g_approvals := ACreate ch (g_approvals s), g_mail := snd (MCreate ch (g_mail s)),
                g_readers := Enter (g_readers s), g_threads := g_threads s @ [new_gml_reader rng ch fd]\<rparr>, [])))"

section \<open>\<open>GuacamoleSendHandler\<close>\<close>

definition post_to :: "channel \<Rightarrow> (ChannelMailbox \<Rightarrow> ChannelMailbox) \<Rightarrow> gml \<Rightarrow> gml" where
  "post_to ch f s =
     (case MGet ch (g_mail s) of None \<Rightarrow> s | Some b \<Rightarrow> s\<lparr>g_mail := on_box b f (g_mail s)\<rparr>)"

definition approval_arrived :: "BridgeMessage \<Rightarrow> gml \<Rightarrow> gml" where
  "approval_arrived msg s =
     (let verdict = (if payload msg = [] then APPROVAL_DENY else hd (payload msg));
          rid = (if length (payload msg) > 1 then drop 1 (payload msg) else [])
      in if verdict = APPROVAL_APPROVE then
           (case Approve (channel msg) rid (g_approvals s) of
              (False, _) \<Rightarrow> s
            | (True, a) \<Rightarrow>
                s\<lparr>g_approvals := a, g_filters := (g_filters s)(channel msg := Some (new_parser new_ret_fields))\<rparr>)
         else if \<not> Matches (channel msg) rid (g_approvals s) then s
         else post_to (channel msg) (RequestTeardown True) (post_to (channel msg) (Post DeniedScreen) s))"

definition return_data :: "BridgeMessage \<Rightarrow> gml \<Rightarrow> gml" where
  "return_data msg s =
     (case MGet (channel msg) (g_mail s) of
        None \<Rightarrow> s
      | Some b \<Rightarrow>
          (case g_filters s (channel msg) of
             None \<Rightarrow> if payload msg = [] then s else post_to (channel msg) (Post (payload msg)) s
           | Some flt \<Rightarrow>
               (case ret_Feed flt (payload msg) of
                  (filtered, flt') \<Rightarrow>
                    let s1 = s\<lparr>g_filters := (g_filters s)(channel msg := Some flt')\<rparr> in
                    if filtered = [] then s1 else post_to (channel msg) (Post filtered) s1)))"

definition gml_message :: "BridgeMessage \<Rightarrow> gml \<Rightarrow> gml" where
  "gml_message msg s =
     (case action msg of
        SHUTDOWN_CHANNEL \<Rightarrow>
          post_to (channel msg) (RequestTeardown False) (s\<lparr>g_filters := (g_filters s)(channel msg := None)\<rparr>)
      | CREATE_CHANNEL \<Rightarrow> s
      | APPROVAL \<Rightarrow> approval_arrived msg s
      | NONE \<Rightarrow> return_data msg s)"

section \<open>Steps\<close>

datatype gml_event =
    GInterrupt
  | AcceptClient "nat \<Rightarrow> nat" fd | AcceptEnd
  | GUdpRecv "errno + string" | GUdpRecvEnd
  | TakeMessage | TakeEnd
  | GUdpSend
  | Start nat
  | Poll nat "errno + polled"
  | MailWork nat "send_result list"
  | SockWork nat "ssl_read option option" "errno + string" "nat list" nat
  | StopLoop nat
  | Leaves nat
  | GJoin | GShutdownFds "channel list" | GWaitReaders | GCloseSend

definition g_open :: "gml_reader \<Rightarrow> bool" where
  "g_open r \<longleftrightarrow> (case gr_pc r of Leaving n \<Rightarrow> n \<le> 4 | _ \<Rightarrow> True)"

definition g_open_fds :: "gml \<Rightarrow> fd list" where
  "g_open_fds s = map gr_fd (filter g_open (g_threads s))"

definition g_bound :: "gml \<Rightarrow> channel list" where
  "g_bound s = filter (\<lambda>ch. Get ch (g_table s) \<noteq> None) (map gr_channel (g_threads s))"

definition set_reader :: "nat \<Rightarrow> gml_reader \<Rightarrow> gml \<Rightarrow> gml" where
  "set_reader i r s = s\<lparr>g_threads := (g_threads s)[i := r]\<rparr>"

text \<open>Carry out the effects of reader \<open>i\<close>, now \<open>r\<close>; \<open>w\<close> says what kind of write it made.\<close>

definition commit ::
  "(nat \<Rightarrow> string \<Rightarrow> gml_obs) \<Rightarrow> nat \<Rightarrow> gml_reader \<Rightarrow> effects \<Rightarrow> gml \<Rightarrow> gml \<times> gml_obs list" where
  "commit w i r eff s =
     ((set_reader i r s)\<lparr>g_send := push_all (to_bridge eff) (g_send s),
                        g_recv := push_all (to_self eff) (g_recv s)\<rparr>,
      map (w i) (to_browser eff) @ map (Queued i) (to_bridge eff))"

text \<open>The thread body up to the loop: it takes its flag and its mailbox.\<close>

definition start_reader :: "gml \<Rightarrow> gml_reader \<Rightarrow> gml_reader" where
  "start_reader s r =
     r\<lparr>gr_approved := Flag (gr_channel r) (g_approvals s), gr_mailbox := MGet (gr_channel r) (g_mail s),
       gr_pc := AtPoll\<rparr>"

text \<open>The kernel's word on the \<open>eventfd\<close>: readable exactly while its counter is not zero.\<close>

definition poll_ok :: "gml \<Rightarrow> gml_reader \<Rightarrow> polled \<Rightarrow> bool" where
  "poll_ok s r p \<longleftrightarrow>
     (mail_ready p \<longrightarrow> (case gr_mailbox r of None \<Rightarrow> False | Some b \<Rightarrow> counter (boxes (g_mail s) b) > 0))"

definition mail_step :: "nat \<Rightarrow> send_result list \<Rightarrow> polled \<Rightarrow> gml \<Rightarrow> (gml \<times> gml_obs list) option" where
  "mail_step i ws p s =
     (let r = g_threads s ! i in
      case gr_mailbox r of
        None \<Rightarrow> Some (set_reader i (r\<lparr>gr_pc := AtSock p\<rparr>) s, [])
      | Some b \<Rightarrow>
          if mail_ready p then
            (case Drain (boxes (g_mail s) b) of
               (contents, m) \<Rightarrow>
                 (case mail_work ws contents p r of
                    None \<Rightarrow> None
                  | Some (r1, eff) \<Rightarrow> Some (commit Relayed i r1 eff (s\<lparr>g_mail := on_box b (\<lambda>_. m) (g_mail s)\<rparr>))))
          else Some (set_reader i (r\<lparr>gr_pc := AtSock p\<rparr>) s, []))"

definition sock_step ::
  "nat \<Rightarrow> ssl_read option option \<Rightarrow> errno + string \<Rightarrow> nat list \<Rightarrow> nat \<Rightarrow> polled \<Rightarrow> gml \<Rightarrow> gml \<times> gml_obs list" where
  "sock_step i tls got draws ms p s =
     (let r = g_threads s ! i in
      case sock_work tls got draws ms (load_flag (gr_approved r) (g_approvals s)) p r of
        ((r1, rid), eff) \<Rightarrow>
          commit Replied i r1 eff
            (case rid of None \<Rightarrow> s
             | Some x \<Rightarrow> s\<lparr>g_approvals := SetRequestId (gr_channel r) x (g_approvals s)\<rparr>))"

definition leave_step :: "nat \<Rightarrow> nat \<Rightarrow> gml \<Rightarrow> (gml \<times> gml_obs list) option" where
  "leave_step i n s =
     (let r = g_threads s ! i; ch = gr_channel r; s1 = set_reader i (r\<lparr>gr_pc := Leaving (n + 1)\<rparr>) s in
      if n = 0 then Some (s1\<lparr>g_approvals := ARemove ch (g_approvals s)\<rparr>, [])
      else if n = 1 then Some (s1\<lparr>g_mail := MRemove ch (g_mail s)\<rparr>, [])
      else if n = 2 then Some (s1\<lparr>g_table := snd (Remove ch (g_table s))\<rparr>, [])
      else if n = 3 then
        Some (commit Replied i (r\<lparr>gr_pc := Leaving 4\<rparr>)
          (no_effects\<lparr>to_bridge := (if gr_announce r then [mk_msg ch SHUTDOWN_CHANNEL []] else [])\<rparr>) s)
      else if n = 4 then Some (s1, [ClosedGml (gr_fd r)])
      else if n = 5 then Some (s1\<lparr>g_readers := Leave (g_readers s)\<rparr>, [])
      else None)"

text \<open>
  The bridge handlers of this broker have their own sources, with the bodies of gcdbroker's: \<open>simp\<close> reads them
  as \<^const>\<open>udp_recv_step\<close> and \<^const>\<open>udp_send_step\<close>.
\<close>

definition gml_udp_recv_step :: "errno + string \<Rightarrow> NetQueue \<Rightarrow> NetQueue" where
  "gml_udp_recv_step r q =
     (case Receive (MAX_DATAGRAM_SIZE + 1) r of
        (received, buffer) \<Rightarrow>
          if received \<le> 0 then q
          else (case TryCast (Some buffer) of None \<Rightarrow> q | Some m \<Rightarrow> Enqueue m q))"

definition gml_udp_send_step :: "NetQueue \<Rightarrow> string option \<times> NetQueue" where
  "gml_udp_send_step q =
     (case Dequeue q of
        (Got m, q') \<Rightarrow> (Some (Serialize m), q')
      | (_, q') \<Rightarrow> (None, q'))"

lemma gml_udp_steps [simp]: "gml_udp_recv_step r q = udp_recv_step r q" "gml_udp_send_step q = udp_send_step q"
  by (simp_all add: gml_udp_recv_step_def udp_recv_step_def gml_udp_send_step_def udp_send_step_def)

text \<open>The reader \<open>i\<close> and where it stands.\<close>

definition pc_of :: "nat \<Rightarrow> gml \<Rightarrow> gml_pc option" where
  "pc_of i s = (if i < length (g_threads s) then Some (gr_pc (g_threads s ! i)) else None)"

fun gml_step :: "gml_event \<Rightarrow> gml \<Rightarrow> (gml \<times> gml_obs list) option" where
  "gml_step GInterrupt s = Some (s\<lparr>g_running := False\<rparr>, [])"
| "gml_step (AcceptClient rng fd) s =
     (if accept_done s \<or> fd \<in> set (g_open_fds s) then None else Some (accept_client rng fd s))"
| "gml_step AcceptEnd s = (if g_running s then None else Some (s\<lparr>accept_done := True\<rparr>, []))"
| "gml_step (GUdpRecv r) s =
     (if g_udp_recv_done s then None else Some (s\<lparr>g_recv := gml_udp_recv_step r (g_recv s)\<rparr>, []))"
| "gml_step GUdpRecvEnd s = (if g_running s then None else Some (s\<lparr>g_udp_recv_done := True\<rparr>, []))"
| "gml_step TakeMessage s =
     (if guacamole_send_done s then None
      else (case Dequeue (g_recv s) of
              (Got m, q) \<Rightarrow> Some (gml_message m (s\<lparr>g_recv := q\<rparr>), [Took m])
            | (_, _) \<Rightarrow> None))"
| "gml_step TakeEnd s =
     (if \<not> g_running s \<or> fst (Dequeue (g_recv s)) = Finished
      then Some (s\<lparr>guacamole_send_done := True\<rparr>, []) else None)"
| "gml_step GUdpSend s =
     (case gml_udp_send_step (g_send s) of
        (None, _) \<Rightarrow> None
      | (Some d, q) \<Rightarrow> Some (s\<lparr>g_send := q\<rparr>, [SentDatagram d]))"
| "gml_step (Start i) s =
     (if pc_of i s = Some Starting then Some (set_reader i (start_reader s (g_threads s ! i)) s, []) else None)"
| "gml_step (Poll i res) s =
     (if pc_of i s = Some AtPoll then
        (let r = g_threads s ! i in
         case res of
           Inl e \<Rightarrow> Some (set_reader i (r\<lparr>gr_pc := (if e = EINTR then AtPoll else Leaving 0)\<rparr>) s, [])
         | Inr p \<Rightarrow> if poll_ok s r p then Some (set_reader i (r\<lparr>gr_pc := AtMail p\<rparr>) s, []) else None)
      else None)"
| "gml_step (MailWork i ws) s = (case pc_of i s of Some (AtMail p) \<Rightarrow> mail_step i ws p s | _ \<Rightarrow> None)"
| "gml_step (SockWork i tls got draws ms) s =
     (case pc_of i s of
        Some (AtSock p) \<Rightarrow> if draws_ok draws then Some (sock_step i tls got draws ms p s) else None
      | _ \<Rightarrow> None)"
| "gml_step (StopLoop i) s =
     (if pc_of i s = Some AtPoll \<and> \<not> g_running s
      then Some (set_reader i ((g_threads s ! i)\<lparr>gr_pc := Leaving 0\<rparr>) s, []) else None)"
| "gml_step (Leaves i) s = (case pc_of i s of Some (Leaving n) \<Rightarrow> leave_step i n s | _ \<Rightarrow> None)"
| "gml_step GJoin s =
     (if g_main s = GServing \<and> accept_done s \<and> g_udp_recv_done s
      then Some (s\<lparr>g_recv := CloseQueue (g_recv s), g_main := GRecvClosed\<rparr>, []) else None)"
| "gml_step (GShutdownFds order) s =
     (if g_main s = GRecvClosed \<and> guacamole_send_done s \<and> distinct order \<and> set order = set (g_bound s)
      then Some (s\<lparr>g_main := GFdsShut\<rparr>, map ShutGml (Fds order (g_table s))) else None)"
| "gml_step GWaitReaders s =
     (if g_main s = GFdsShut \<and> WaitAll (g_readers s) then Some (s\<lparr>g_main := GReadersLeft\<rparr>, []) else None)"
| "gml_step GCloseSend s =
     (if g_main s = GReadersLeft
      then Some (s\<lparr>g_send := CloseQueue (g_send s), g_main := GSendClosed\<rparr>, []) else None)"

inductive gml_run :: "gml_obs list \<Rightarrow> gml \<Rightarrow> bool" where
  gml_start: "gml_run [] new_gml"
| gml_next: "gml_run tr s \<Longrightarrow> gml_step e s = Some (s', os) \<Longrightarrow> gml_run (tr @ os) s'"

fun gml_exec :: "gml_event list \<Rightarrow> gml \<Rightarrow> (gml \<times> gml_obs list) option" where
  "gml_exec [] s = Some (s, [])"
| "gml_exec (e # es) s =
     (case gml_step e s of
        None \<Rightarrow> None
      | Some (s', os) \<Rightarrow>
          (case gml_exec es s' of None \<Rightarrow> None | Some (s'', tr) \<Rightarrow> Some (s'', os @ tr)))"

lemma gml_exec_extends:
  "gml_run tr0 s \<Longrightarrow> gml_exec es s = Some (s', tr) \<Longrightarrow> gml_run (tr0 @ tr) s'"
proof (induction es arbitrary: s tr0 tr)
  case (Cons e es)
  from Cons.prems(2) obtain s1 os tr1 where
    st: "gml_step e s = Some (s1, os)" "gml_exec es s1 = Some (s', tr1)" "tr = os @ tr1"
    by (auto split: option.splits)
  from Cons.IH[OF gml_next[OF Cons.prems(1) st(1)] st(2)] st(3) show ?case by simp
qed simp

lemma gml_exec_run: "gml_exec es new_gml = Some (s, tr) \<Longrightarrow> gml_run tr s"
  using gml_exec_extends[OF gml_start] by fastforce

section \<open>The relay of approval toggles\<close>

text \<open>One turn of \<open>t_control\<close>: the datagram it sends on to the guard, if any.\<close>

definition control_relay :: "errno + string \<Rightarrow> string option" where
  "control_relay r =
     (case Receive 256 r of
        (n, buf) \<Rightarrow>
          if n \<le> 0 then None
          else (case ParseApprovalToggle buf of
                  None \<Rightarrow> None
                | Some mode \<Rightarrow> Some (if mode then ''approve'' else ''deny'')))"

end
