(* ===== verification/Gml_Invariant.thy ===== *)
theory Gml_Invariant imports Gml_Broker begin

text \<open>
  The invariant of gmlbroker's shared state. Every accepted connection has one reader, one approval
  entry, one mailbox and one channel; the three registries always lead from a channel to the reader that
  still holds it. \<open>owned\<close> says so for one registry, and is kept by the two things that happen to a
  registry: a reader is added, or gives up its place.
\<close>

section \<open>Registries owned by readers\<close>

definition holds :: "nat \<Rightarrow> gml_reader \<Rightarrow> bool" where
  "holds k r \<longleftrightarrow> (case gr_pc r of Leaving n \<Rightarrow> n \<le> k | _ \<Rightarrow> True)"

lemma holds_mono: "holds k r \<Longrightarrow> k \<le> l \<Longrightarrow> holds l r"
  by (simp add: holds_def split: gml_pc.splits)

lemma g_open_holds: "g_open = holds 4"
  by (simp add: g_open_def holds_def fun_eq_iff)

definition owned :: "nat \<Rightarrow> (channel \<Rightarrow> nat option) \<Rightarrow> gml_reader list \<Rightarrow> bool" where
  "owned k reg ts \<longleftrightarrow>
     (\<forall>i < length ts. holds k (ts ! i) \<longrightarrow> reg (gr_channel (ts ! i)) = Some i) \<and>
     (\<forall>c i. reg c = Some i \<longrightarrow> i < length ts \<and> gr_channel (ts ! i) = c \<and> holds k (ts ! i))"

lemma owned_update:
  assumes "owned k reg ts" and "i < length ts" and "gr_channel r = gr_channel (ts ! i)"
    and "holds k r \<Longrightarrow> holds k (ts ! i)"
  shows "owned k (if holds k (ts ! i) \<and> \<not> holds k r then reg(gr_channel r := None) else reg) (ts[i := r])"
proof -
  let ?reg = "if holds k (ts ! i) \<and> \<not> holds k r then reg(gr_channel r := None) else reg"
  from assms(1) have o: "\<And>j. j < length ts \<Longrightarrow> holds k (ts ! j) \<Longrightarrow> reg (gr_channel (ts ! j)) = Some j"
    "\<And>c j. reg c = Some j \<Longrightarrow> j < length ts \<and> gr_channel (ts ! j) = c \<and> holds k (ts ! j)"
    unfolding owned_def by blast+
  have one: "j = i" if "j < length ts" "holds k (ts ! j)" "gr_channel (ts ! j) = gr_channel r" "holds k (ts ! i)" for j
    using o(1)[OF that(1,2)] o(1)[OF assms(2) that(4)] that(3) assms(3) by (metis option.inject)
  show ?thesis
    unfolding owned_def
  proof (intro conjI allI impI)
    fix j
    assume j: "j < length (ts[i := r])" "holds k (ts[i := r] ! j)"
    show "?reg (gr_channel (ts[i := r] ! j)) = Some j"
    proof (cases "j = i")
      case True
      with j assms(2-4) o(1)[of i] show ?thesis by simp
    next
      case False
      with j o(1)[of j] one[of j] show ?thesis by auto
    qed
  next
    fix c j
    assume r: "?reg c = Some j"
    then have rc: "reg c = Some j" and dead: "holds k (ts ! i) \<Longrightarrow> \<not> holds k r \<Longrightarrow> c \<noteq> gr_channel r"
      by (auto split: if_splits)
    from o(2)[OF rc] have j: "j < length ts" "gr_channel (ts ! j) = c" "holds k (ts ! j)" by simp_all
    show "j < length (ts[i := r])" "gr_channel (ts[i := r] ! j) = c" "holds k (ts[i := r] ! j)"
      using j assms(2,3) dead by (cases "j = i"; auto)+
  qed
qed

lemma owned_append:
  assumes "owned k reg ts" and "\<forall>i < length ts. holds k (ts ! i) \<longrightarrow> gr_channel (ts ! i) \<noteq> gr_channel r"
    and "holds k r"
  shows "owned k (reg(gr_channel r := Some (length ts))) (ts @ [r])"
  using assms unfolding owned_def by (auto simp: nth_append less_Suc_eq)

section \<open>The invariant\<close>

definition keys :: "ApprovalRegistry \<Rightarrow> channel \<Rightarrow> nat option" where
  "keys a c = map_option fst (entries a c)"

definition table_owned :: "ChannelTable \<Rightarrow> gml_reader list \<Rightarrow> bool" where
  "table_owned t ts \<longleftrightarrow>
     (\<exists>reg. owned 2 reg ts \<and> (\<forall>c. Get c t = map_option (\<lambda>i. gr_fd (ts ! i)) (reg c)))"

definition g_fds_distinct :: "gml_reader list \<Rightarrow> bool" where
  "g_fds_distinct ts \<longleftrightarrow> (\<forall>i < length ts. \<forall>j < length ts.
     i \<noteq> j \<longrightarrow> holds 4 (ts ! i) \<longrightarrow> holds 4 (ts ! j) \<longrightarrow> gr_fd (ts ! i) \<noteq> gr_fd (ts ! j))"

text \<open>A reader that has started holds its own flag and mailbox.\<close>

definition started_ok :: "nat \<Rightarrow> gml_reader \<Rightarrow> bool" where
  "started_ok i r \<longleftrightarrow>
     (if gr_pc r = Starting then gr_approved r = None \<and> gr_mailbox r = None
      else gr_approved r = Some i \<and> gr_mailbox r = Some i)"

definition regs_ok :: "gml \<Rightarrow> bool" where
  "regs_ok s \<longleftrightarrow>
     owned 0 (keys (g_approvals s)) (g_threads s) \<and> next_ref (g_approvals s) = length (g_threads s) \<and>
     owned 1 (mailboxes (g_mail s)) (g_threads s) \<and> next_box (g_mail s) = length (g_threads s) \<and>
     table_owned (g_table s) (g_threads s) \<and> g_fds_distinct (g_threads s) \<and>
     (\<forall>i < length (g_threads s). started_ok i (g_threads s ! i))"

definition g_counted :: "gml \<Rightarrow> bool" where
  "g_counted s \<longleftrightarrow> count (g_readers s) = int (length (filter (holds 5) (g_threads s)))"

definition g_main_ok :: "gml \<Rightarrow> bool" where
  "g_main_ok s \<longleftrightarrow> (g_main s \<noteq> GServing \<longrightarrow> accept_done s) \<and>
     (g_main s \<in> {GReadersLeft, GSendClosed} \<longrightarrow> (\<forall>r\<in>set (g_threads s). \<not> holds 5 r))"

definition gml_inv :: "gml \<Rightarrow> bool" where
  "gml_inv s \<longleftrightarrow> regs_ok s \<and> g_counted s \<and> g_main_ok s"

lemma gml_inv_new: "gml_inv new_gml"
proof -
  have "owned 2 (\<lambda>_. None) []" by (simp add: owned_def)
  then have "table_owned new_ChannelTable []"
    by (auto simp: table_owned_def Get_def new_ChannelTable_def intro!: exI[of _ "\<lambda>_. None"])
  then show ?thesis
    by (simp add: gml_inv_def regs_ok_def g_counted_def g_main_ok_def owned_def keys_def g_fds_distinct_def
        new_gml_def new_ApprovalRegistry_def new_MailboxRegistry_def new_ReaderGroup_def)
qed

section \<open>A step of one reader\<close>

lemma length_filter_upd:
  assumes "i < length xs"
  shows "int (length (filter P (xs[i := x]))) =
    int (length (filter P xs)) - (if P (xs ! i) then 1 else 0) + (if P x then 1 else 0)"
proof -
  have s: "xs[i := x] = take i xs @ x # drop (Suc i) xs" by (rule upd_conv_take_nth_drop[OF assms])
  have "length (filter P xs) = length (filter P (take i xs @ xs ! i # drop (Suc i) xs))"
    using id_take_nth_drop[OF assms] by simp
  then show ?thesis unfolding s by simp
qed

text \<open>What any step of reader \<open>i\<close> does: it gives up at most what its new place says.\<close>

definition advances :: "nat \<Rightarrow> gml_reader \<Rightarrow> gml \<Rightarrow> gml \<Rightarrow> bool" where
  "advances i r s s' \<longleftrightarrow>
     (let old = g_threads s ! i; ch = gr_channel old; gives = (\<lambda>k. holds k old \<and> \<not> holds k r) in
      i < length (g_threads s) \<and> g_threads s' = (g_threads s)[i := r] \<and>
      gr_channel r = ch \<and> gr_fd r = gr_fd old \<and> (\<forall>k. holds k r \<longrightarrow> holds k old) \<and> started_ok i r \<and>
      keys (g_approvals s') = (if gives 0 then (keys (g_approvals s))(ch := None) else keys (g_approvals s)) \<and>
      next_ref (g_approvals s') = next_ref (g_approvals s) \<and>
      mailboxes (g_mail s') = (if gives 1 then (mailboxes (g_mail s))(ch := None) else mailboxes (g_mail s)) \<and>
      next_box (g_mail s') = next_box (g_mail s) \<and>
      (\<forall>c. Get c (g_table s') = (if gives 2 \<and> c = ch then None else Get c (g_table s))) \<and>
      g_readers s' = (if gives 5 then Leave (g_readers s) else g_readers s) \<and>
      g_main s' = g_main s \<and> accept_done s' = accept_done s)"

lemma advances_table:
  assumes "advances i r s s'" and "table_owned (g_table s) (g_threads s)"
  shows "table_owned (g_table s') (g_threads s')"
proof -
  from assms(2) obtain reg where
    reg: "owned 2 reg (g_threads s)" "\<And>c. Get c (g_table s) = map_option (\<lambda>i. gr_fd (g_threads s ! i)) (reg c)"
    unfolding table_owned_def by blast
  let ?reg = "if holds 2 (g_threads s ! i) \<and> \<not> holds 2 r then reg(gr_channel r := None) else reg"
  from assms(1) have a: "i < length (g_threads s)" "g_threads s' = (g_threads s)[i := r]"
    "gr_channel r = gr_channel (g_threads s ! i)" "gr_fd r = gr_fd (g_threads s ! i)"
    "holds 2 r \<Longrightarrow> holds 2 (g_threads s ! i)"
    "\<And>c. Get c (g_table s') = (if holds 2 (g_threads s ! i) \<and> \<not> holds 2 r \<and> c = gr_channel r then None
      else Get c (g_table s))"
    by (simp_all add: advances_def Let_def)
  have "owned 2 ?reg (g_threads s')" unfolding a(2) by (rule owned_update[OF reg(1) a(1,3,5)])
  moreover have fd: "gr_fd (g_threads s' ! j) = gr_fd (g_threads s ! j)" for j
    using a(1,2,4) by (cases "j = i") simp_all
  have "Get c (g_table s') = map_option (\<lambda>i. gr_fd (g_threads s' ! i)) (?reg c)" for c
    unfolding fd a(6) by (simp add: reg(2))
  ultimately show ?thesis unfolding table_owned_def by blast
qed

lemma advances_regs:
  assumes "advances i r s s'" and "regs_ok s"
  shows "regs_ok s'"
proof -
  note a = assms(1)[unfolded advances_def Let_def]
  have "owned 0 (keys (g_approvals s')) (g_threads s')"
    using owned_update[of 0 "keys (g_approvals s)" "g_threads s" i r] assms(2) a
    by (simp only: regs_ok_def)
  moreover have "owned 1 (mailboxes (g_mail s')) (g_threads s')"
    using owned_update[of 1 "mailboxes (g_mail s)" "g_threads s" i r] assms(2) a
    by (simp only: regs_ok_def)
  moreover have "table_owned (g_table s') (g_threads s')"
    using advances_table[OF assms(1)] assms(2) by (simp add: regs_ok_def)
  moreover have "g_fds_distinct (g_threads s')"
    using assms(2) a unfolding regs_ok_def g_fds_distinct_def by (auto simp: nth_list_update)
  moreover have "\<forall>j < length (g_threads s'). started_ok j (g_threads s' ! j)"
    using assms(2) a by (auto simp: regs_ok_def nth_list_update)
  ultimately show ?thesis using assms(2) a by (simp add: regs_ok_def)
qed

lemma advances_inv:
  assumes "advances i r s s'" and "gml_inv s"
  shows "gml_inv s'"
proof -
  note a = assms(1)[unfolded advances_def Let_def]
  have "g_counted s'"
    using assms(2) a length_filter_upd[of i "g_threads s" "holds 5" r]
    by (auto simp: gml_inv_def g_counted_def Leave_def)
  moreover have "g_main_ok s'"
    using assms(2) a by (auto simp: gml_inv_def g_main_ok_def dest!: set_update_subset_insert[THEN subsetD])
  ultimately show ?thesis using assms advances_regs by (simp add: gml_inv_def)
qed

section \<open>A connection is accepted\<close>

text \<open>A channel that is not in the table has no reader that still counts for it.\<close>

lemma no_holder:
  assumes "table_owned t ts" and "Get ch t = None" and "k \<le> 2"
  shows "\<forall>i < length ts. holds k (ts ! i) \<longrightarrow> gr_channel (ts ! i) \<noteq> ch"
proof (intro allI impI notI)
  fix i
  assume i: "i < length ts" "holds k (ts ! i)" "gr_channel (ts ! i) = ch"
  from assms(1) obtain reg where reg: "owned 2 reg ts" "\<And>c. Get c t = map_option (\<lambda>i. gr_fd (ts ! i)) (reg c)"
    unfolding table_owned_def by blast
  have "holds 2 (ts ! i)" using holds_mono[OF i(2) assms(3)] .
  with reg(1) i(1) have "reg (gr_channel (ts ! i)) = Some i" unfolding owned_def by blast
  with i(3) reg(2)[of ch] assms(2) show False by simp
qed

lemma table_accept:
  assumes "table_owned t ts" and "Get ch t = None" and "gr_channel r = ch" and "holds 2 r"
    and "\<And>c. Get c t' = (if c = ch then Some (gr_fd r) else Get c t)"
  shows "table_owned t' (ts @ [r])"
proof -
  from assms(1) obtain reg where reg: "owned 2 reg ts" "\<And>c. Get c t = map_option (\<lambda>i. gr_fd (ts ! i)) (reg c)"
    unfolding table_owned_def by blast
  have "owned 2 (reg(ch := Some (length ts))) (ts @ [r])"
    using owned_append[OF reg(1) _ assms(4)] no_holder[OF assms(1,2), of 2] assms(3) by simp
  moreover have "Get c t' = map_option (\<lambda>i. gr_fd ((ts @ [r]) ! i)) ((reg(ch := Some (length ts))) c)" for c
  proof (cases "c = ch")
    case False
    have "reg c = Some i \<Longrightarrow> i < length ts" for i using reg(1) by (simp add: owned_def)
    with False show ?thesis by (cases "reg c") (simp_all add: assms(5) reg(2) nth_append)
  qed (simp add: assms(5))
  ultimately show ?thesis unfolding table_owned_def by blast
qed

lemma fds_accept:
  assumes "g_fds_distinct (g_threads s)" and "gr_fd r \<notin> set (g_open_fds s)"
  shows "g_fds_distinct (g_threads s @ [r])"
proof -
  have "gr_fd (g_threads s ! i) \<noteq> gr_fd r" "gr_fd r \<noteq> gr_fd (g_threads s ! i)"
    if "i < length (g_threads s)" "holds 4 (g_threads s ! i)" for i
    using assms(2) nth_mem[OF that(1)] that(2) by (auto simp: g_open_fds_def g_open_holds image_iff)
  with assms(1) show ?thesis unfolding g_fds_distinct_def by (auto simp: nth_append less_Suc_eq)
qed

text \<open>The registries after a connection has been given the free channel \<open>ch\<close>.\<close>

lemma regs_accept:
  assumes regs: "regs_ok s" and free: "Get ch (g_table s) = None" and "fd \<notin> set (g_open_fds s)"
    and t: "\<And>c. Get c t = (if c = ch then Some fd else Get c (g_table s))"
  shows "regs_ok (s\<lparr>g_table := t, g_approvals := ACreate ch (g_approvals s), g_mail := snd (MCreate ch (g_mail s)),
    g_readers := rs, g_threads := g_threads s @ [new_gml_reader rng ch fd]\<rparr>)"
proof -
  let ?r = "new_gml_reader rng ch fd" and ?ts = "g_threads s"
  have r: "gr_channel ?r = ch" "gr_fd ?r = fd" "holds k ?r" "gr_pc ?r = Starting" "gr_approved ?r = None"
    "gr_mailbox ?r = None" for k
    by (simp_all add: new_gml_reader_def holds_def)
  have table: "table_owned (g_table s) ?ts" using regs by (simp add: regs_ok_def)
  have app: "owned k reg ?ts \<Longrightarrow> k \<le> 2 \<Longrightarrow> owned k (reg(ch := Some (length ?ts))) (?ts @ [?r])" for k reg
    using owned_append[of k reg ?ts ?r] no_holder[OF table free] r by simp
  have "keys (ACreate ch (g_approvals s)) = (keys (g_approvals s))(ch := Some (length ?ts))"
    using regs by (simp add: keys_def ACreate_def Let_def regs_ok_def fun_eq_iff)
  with app[of 0 "keys (g_approvals s)"] regs have "owned 0 (keys (ACreate ch (g_approvals s))) (?ts @ [?r])"
    by (simp add: regs_ok_def)
  moreover have "owned 1 (mailboxes (snd (MCreate ch (g_mail s)))) (?ts @ [?r])"
    using app[of 1 "mailboxes (g_mail s)"] regs by (simp add: regs_ok_def MCreate_def Let_def)
  moreover have "table_owned t (?ts @ [?r])" by (rule table_accept[OF table free r(1,3)]) (simp add: t r)
  moreover have "g_fds_distinct (?ts @ [?r])" using fds_accept[of s ?r] regs assms(3) r by (simp add: regs_ok_def)
  moreover have "\<forall>i < length (?ts @ [?r]). started_ok i ((?ts @ [?r]) ! i)"
    using regs r by (auto simp: regs_ok_def nth_append less_Suc_eq started_ok_def)
  ultimately show ?thesis using regs by (simp add: regs_ok_def ACreate_def MCreate_def Let_def)
qed

lemma accept_inv:
  assumes "gml_inv s" and "\<not> accept_done s" and "fd \<notin> set (g_open_fds s)" and "accept_client rng fd s = (s', os)"
  shows "gml_inv s'"
proof (cases "fd < 0 \<or> fst (Allocate fd (g_table s)) = None")
  case True
  obtain r t where al: "Allocate fd (g_table s) = (r, t)" by fastforce
  with True assms(4) Allocate_None[of fd "g_table s" t] have "s' = s"
    by (auto simp: accept_client_def split: if_splits)
  with assms(1) show ?thesis by simp
next
  case False
  then obtain ch t where al: "Allocate fd (g_table s) = (Some ch, t)"
    by (cases "Allocate fd (g_table s)") auto
  from False al assms(4) have s': "s' = s\<lparr>g_table := t, g_approvals := ACreate ch (g_approvals s),
      g_mail := snd (MCreate ch (g_mail s)), g_readers := Enter (g_readers s),
      g_threads := g_threads s @ [new_gml_reader rng ch fd]\<rparr>"
    by (auto simp: accept_client_def split: if_splits)
  have "Get c t = (if c = ch then Some fd else Get c (g_table s))" and "Get ch (g_table s) = None" for c
    using Allocate_Some[OF al] by (auto simp: Get_def)
  with assms(1,3) have "regs_ok s'" unfolding s' by (intro regs_accept) (simp_all add: gml_inv_def)
  moreover have "g_counted s'"
    using assms(1) unfolding s' by (simp add: gml_inv_def g_counted_def Enter_def new_gml_reader_def holds_def)
  moreover have "g_main_ok s'" using assms(1,2) unfolding s' by (auto simp: gml_inv_def g_main_ok_def)
  ultimately show ?thesis by (simp add: gml_inv_def)
qed

section \<open>The steps\<close>

text \<open>Everything the invariant looks at, apart from where \<open>main\<close> is.\<close>

definition same_regs :: "gml \<Rightarrow> gml \<Rightarrow> bool" where
  "same_regs s s' \<longleftrightarrow>
     g_threads s' = g_threads s \<and> keys (g_approvals s') = keys (g_approvals s) \<and>
     next_ref (g_approvals s') = next_ref (g_approvals s) \<and> mailboxes (g_mail s') = mailboxes (g_mail s) \<and>
     next_box (g_mail s') = next_box (g_mail s) \<and> g_table s' = g_table s \<and> g_readers s' = g_readers s"

lemma same_regs_refl [simp]: "same_regs s s" by (simp add: same_regs_def)

lemma same_regs_trans: "same_regs s t \<Longrightarrow> same_regs t u \<Longrightarrow> same_regs s u"
  by (simp add: same_regs_def)

lemma same_regs_inv: "same_regs s s' \<Longrightarrow> gml_inv s \<Longrightarrow> g_main_ok s' \<Longrightarrow> gml_inv s'"
  by (simp add: same_regs_def gml_inv_def regs_ok_def g_counted_def)

lemma keys_SetRequestId [simp]: "keys (SetRequestId ch x a) = keys a"
  by (auto simp: keys_def SetRequestId_def fun_eq_iff split: option.splits)

lemma next_ref_SetRequestId [simp]: "next_ref (SetRequestId ch x a) = next_ref a"
  by (simp add: SetRequestId_def split: option.splits)

lemma Approve_regs: "Approve ch rid a = (ok, a') \<Longrightarrow> keys a' = keys a \<and> next_ref a' = next_ref a \<and> entries a' = entries a"
  by (auto simp: Approve_def keys_def fun_eq_iff split: option.splits if_splits)

lemma post_to_regs: "same_regs s (post_to ch f s)"
  "g_approvals (post_to ch f s) = g_approvals s" "g_send (post_to ch f s) = g_send s"
  "g_recv (post_to ch f s) = g_recv s" "g_main (post_to ch f s) = g_main s"
  "accept_done (post_to ch f s) = accept_done s" "g_threads (post_to ch f s) = g_threads s"
  by (simp_all add: post_to_def same_regs_def on_box_def split: option.splits)

lemma approval_regs: "same_regs s (approval_arrived m s) \<and> g_main (approval_arrived m s) = g_main s \<and>
  accept_done (approval_arrived m s) = accept_done s \<and> g_send (approval_arrived m s) = g_send s \<and>
  g_recv (approval_arrived m s) = g_recv s"
proof -
  obtain ok a where ap: "Approve (channel m) (if length (payload m) > 1 then drop 1 (payload m) else [])
      (g_approvals s) = (ok, a)" by fastforce
  have "same_regs s (s\<lparr>g_approvals := a, g_filters := x\<rparr>)" for x
    using Approve_regs[OF ap] by (simp add: same_regs_def)
  with ap show ?thesis
    using same_regs_trans[OF post_to_regs(1) post_to_regs(1)]
    by (auto simp: approval_arrived_def Let_def post_to_regs split: bool.splits)
qed

lemma return_regs: "same_regs s (return_data m s) \<and> g_main (return_data m s) = g_main s \<and>
  accept_done (return_data m s) = accept_done s \<and> g_send (return_data m s) = g_send s \<and>
  g_recv (return_data m s) = g_recv s \<and> g_approvals (return_data m s) = g_approvals s"
proof -
  have f: "same_regs s (s\<lparr>g_filters := x\<rparr>)" for x by (simp add: same_regs_def)
  show ?thesis
    using same_regs_trans[OF f post_to_regs(1)]
    by (auto simp: return_data_def Let_def post_to_regs f split: option.splits prod.splits)
qed

lemma message_regs: "same_regs s (gml_message m s) \<and> g_main (gml_message m s) = g_main s \<and>
  accept_done (gml_message m s) = accept_done s \<and> g_send (gml_message m s) = g_send s \<and>
  g_recv (gml_message m s) = g_recv s"
proof (cases "action m")
  case SHUTDOWN_CHANNEL
  have "same_regs s (s\<lparr>g_filters := x\<rparr>)" for x by (simp add: same_regs_def)
  from same_regs_trans[OF this post_to_regs(1)] SHUTDOWN_CHANNEL show ?thesis
    by (simp add: gml_message_def post_to_regs)
qed (simp_all add: gml_message_def approval_regs return_regs)

lemma take_inv: "gml_inv s \<Longrightarrow> gml_inv (gml_message m (s\<lparr>g_recv := q\<rparr>))"
proof -
  assume i: "gml_inv s"
  have "same_regs s (s\<lparr>g_recv := q\<rparr>)" by (simp add: same_regs_def)
  with message_regs[of "s\<lparr>g_recv := q\<rparr>" m] have "same_regs s (gml_message m (s\<lparr>g_recv := q\<rparr>))"
    using same_regs_trans by blast
  moreover have "g_main_ok (gml_message m (s\<lparr>g_recv := q\<rparr>))"
    using i message_regs[of "s\<lparr>g_recv := q\<rparr>" m] by (auto simp: gml_inv_def g_main_ok_def same_regs_def)
  ultimately show ?thesis using same_regs_inv i by blast
qed

text \<open>A reader that stays ahead of its first removal.\<close>

lemma holds_0_all: "holds 0 r \<Longrightarrow> holds k r"
  using holds_mono by blast

lemma advances_loop:
  assumes "i < length (g_threads s)" and "holds 0 (g_threads s ! i)" and "holds 0 r"
    and "gr_channel r = gr_channel (g_threads s ! i)" and "gr_fd r = gr_fd (g_threads s ! i)" and "started_ok i r"
    and "same_regs s (s'\<lparr>g_threads := g_threads s\<rparr>)" and "g_threads s' = (g_threads s)[i := r]"
    and "g_main s' = g_main s" and "accept_done s' = accept_done s"
  shows "advances i r s s'"
  using assms holds_0_all[OF assms(2)] holds_0_all[OF assms(3)] by (simp add: advances_def Let_def same_regs_def)

lemma pc_ofD: "pc_of i s = Some pc \<Longrightarrow> i < length (g_threads s) \<and> gr_pc (g_threads s ! i) = pc"
  by (simp add: pc_of_def split: if_splits)

lemma inv_started: "gml_inv s \<Longrightarrow> i < length (g_threads s) \<Longrightarrow> started_ok i (g_threads s ! i)"
  by (simp add: gml_inv_def regs_ok_def)

lemma commit_loop:
  assumes "gml_inv s" and "i < length (g_threads s)" and "holds 0 (g_threads s ! i)"
    and "gr_pc (g_threads s ! i) \<noteq> Starting" and "holds 0 r" and "gr_pc r \<noteq> Starting"
    and "gr_channel r = gr_channel (g_threads s ! i)" and "gr_fd r = gr_fd (g_threads s ! i)"
    and "gr_approved r = gr_approved (g_threads s ! i)" and "gr_mailbox r = gr_mailbox (g_threads s ! i)"
    and "same_regs s s1" and "g_main s1 = g_main s" and "accept_done s1 = accept_done s"
  shows "advances i r s (fst (commit w i r eff s1))" and "advances i r s (set_reader i r s1)"
  using assms inv_started[OF assms(1,2)]
  by (intro advances_loop; simp add: commit_def set_reader_def same_regs_def started_ok_def)+

text \<open>What the work on the mailbox and on the socket keeps of a reader.\<close>

definition same_holder :: "gml_reader \<Rightarrow> gml_reader \<Rightarrow> bool" where
  "same_holder r r' \<longleftrightarrow> gr_channel r' = gr_channel r \<and> gr_fd r' = gr_fd r \<and> gr_approved r' = gr_approved r \<and>
     gr_mailbox r' = gr_mailbox r \<and> gr_pc r' \<noteq> Starting \<and> holds 0 r'"

lemma mail_work_holder: "mail_work ws c p r = Some (r', eff) \<Longrightarrow> same_holder r r'"
  by (auto simp: mail_work_def same_holder_def holds_def split: prod.splits option.splits if_splits)

lemma replay_holder: "maybe_replay flag r = (r', ms) \<Longrightarrow>
  gr_channel r' = gr_channel r \<and> gr_fd r' = gr_fd r \<and> gr_approved r' = gr_approved r \<and>
  gr_mailbox r' = gr_mailbox r"
  by (auto simp: maybe_replay_def split: if_splits)

lemma sock_work_holder:
  assumes "sock_work tls got draws ms flag p r = ((r', rid), eff)"
  shows "same_holder r r'"
proof -
  obtain received buffer where g: "server_Receive tls (MAX_PAYLOAD_SIZE + 1) got = (received, buffer)" by fastforce
  obtain r1 replay where m: "maybe_replay flag r = (r1, replay)" by fastforce
  note m' = replay_holder[OF m]
  have "same_holder r (fst (idle_work flag ms p r))"
    using m' by (simp add: idle_work_def m same_holder_def holds_def)
  moreover have "same_holder r (fst (pipe_work flag buffer r))"
    using m' by (simp add: pipe_work_def m same_holder_def holds_def split: prod.splits)
  moreover have "same_holder r (fst (fst (forge_work draws buffer r)))"
    by (simp add: forge_work_def Let_def same_holder_def holds_def split: prod.splits)
  moreover have "same_holder r (r\<lparr>gr_pc := AtPoll\<rparr>)" "same_holder r (r\<lparr>gr_pc := Leaving 0\<rparr>)"
    by (simp_all add: same_holder_def holds_def)
  ultimately show ?thesis using assms g
    by (auto simp: sock_work_def split: prod.splits if_splits)
qed

lemma mail_step_inv:
  assumes "gml_inv s" and "pc_of i s = Some (AtMail p)" and "mail_step i ws p s = Some (s', os)"
  shows "gml_inv s'"
proof -
  let ?r = "g_threads s ! i"
  from pc_ofD[OF assms(2)] have i: "i < length (g_threads s)" "gr_pc ?r = AtMail p" by auto
  then have h: "holds 0 ?r" by (simp add: holds_def)
  have plain: "gml_inv (set_reader i (?r\<lparr>gr_pc := AtSock p\<rparr>) s)"
    by (rule advances_inv[OF commit_loop(2)[OF assms(1) i(1) h] assms(1)]) (simp_all add: i holds_def)
  from assms(3) consider "s' = set_reader i (?r\<lparr>gr_pc := AtSock p\<rparr>) s"
    | b c m r1 eff where "mail_work ws c p ?r = Some (r1, eff)"
        "s' = fst (commit Relayed i r1 eff (s\<lparr>g_mail := on_box b (\<lambda>_. m) (g_mail s)\<rparr>))"
    by (auto simp: mail_step_def Let_def split: option.splits if_splits prod.splits)
      (metis fst_conv)
  then show ?thesis
  proof cases
    case 1
    with plain show ?thesis by simp
  next
    case (2 b c m r1 eff)
    have "same_regs s (s\<lparr>g_mail := on_box b (\<lambda>_. m) (g_mail s)\<rparr>)" by (simp add: same_regs_def on_box_def)
    from commit_loop(1)[OF assms(1) i(1) h _ _ _ _ _ _ _ this] mail_work_holder[OF 2(1)] i(2) 2(2)
    have "advances i r1 s s'" by (simp add: same_holder_def)
    from advances_inv[OF this assms(1)] show ?thesis .
  qed
qed

lemma sock_step_inv:
  assumes "gml_inv s" and "pc_of i s = Some (AtSock p)" and "sock_step i tls got draws ms p s = (s', os)"
  shows "gml_inv s'"
proof -
  let ?r = "g_threads s ! i"
  from pc_ofD[OF assms(2)] have i: "i < length (g_threads s)" "gr_pc ?r = AtSock p" by auto
  then have h: "holds 0 ?r" by (simp add: holds_def)
  obtain r1 rid eff where w: "sock_work tls got draws ms (load_flag (gr_approved ?r) (g_approvals s)) p ?r =
      ((r1, rid), eff)" by (metis prod.exhaust)
  define s1 where "s1 = (case rid of None \<Rightarrow> s
    | Some x \<Rightarrow> s\<lparr>g_approvals := SetRequestId (gr_channel ?r) x (g_approvals s)\<rparr>)"
  have s1: "same_regs s s1" "g_main s1 = g_main s" "accept_done s1 = accept_done s"
    by (simp_all add: s1_def same_regs_def split: option.splits)
  from assms(3) w have s': "s' = fst (commit Replied i r1 eff s1)" by (simp add: sock_step_def s1_def)
  from commit_loop(1)[OF assms(1) i(1) h _ _ _ _ _ _ _ s1] sock_work_holder[OF w] i(2)
  have "advances i r1 s s'" by (simp add: same_holder_def s')
  from advances_inv[OF this assms(1)] show ?thesis .
qed

lemma leave_step_inv:
  assumes "gml_inv s" and "pc_of i s = Some (Leaving n)" and "leave_step i n s = Some (s', os)"
  shows "gml_inv s'"
proof -
  let ?r = "g_threads s ! i"
  from pc_ofD[OF assms(2)] have i: "i < length (g_threads s)" "gr_pc ?r = Leaving n" by auto
  from inv_started[OF assms(1) i(1)] i(2) have st: "gr_approved ?r = Some i" "gr_mailbox ?r = Some i"
    by (auto simp: started_ok_def)
  let ?r' = "?r\<lparr>gr_pc := Leaving (n + 1)\<rparr>"
  have get: "Get c (snd (Remove ch t)) = (if c = ch then None else Get c t)" for c ch t
    using table.rem_get .
  have "advances i ?r' s s'"
    using assms(3) i st get
    by (auto simp: leave_step_def Let_def advances_def set_reader_def commit_def holds_def started_ok_def
        keys_def ARemove_def MRemove_def no_effects_def fun_eq_iff split: if_splits)
  from advances_inv[OF this assms(1)] show ?thesis .
qed

lemma set_reader_inv:
  assumes "gml_inv s" and "pc_of i s = Some pc" and "holds 0 (g_threads s ! i)" and "pc \<noteq> Starting"
    and "pc' \<noteq> Starting" and "holds 0 (r\<lparr>gr_pc := pc'\<rparr>)" and "r = g_threads s ! i"
  shows "gml_inv (set_reader i (r\<lparr>gr_pc := pc'\<rparr>) s)"
proof -
  from pc_ofD[OF assms(2)] have i: "i < length (g_threads s)" "gr_pc (g_threads s ! i) = pc" by auto
  show ?thesis
    by (rule advances_inv[OF commit_loop(2)[OF assms(1) i(1) assms(3)] assms(1)])
      (use i assms in \<open>simp_all add: holds_def\<close>)
qed

lemma start_inv:
  assumes "gml_inv s" and "pc_of i s = Some Starting"
  shows "gml_inv (set_reader i (start_reader s (g_threads s ! i)) s)"
proof -
  let ?r = "g_threads s ! i"
  from pc_ofD[OF assms(2)] have i: "i < length (g_threads s)" "gr_pc ?r = Starting" by auto
  then have h: "holds k ?r" for k by (simp add: holds_def)
  with assms(1) i(1) have k: "keys (g_approvals s) (gr_channel ?r) = Some i"
    "mailboxes (g_mail s) (gr_channel ?r) = Some i"
    unfolding gml_inv_def regs_ok_def owned_def by blast+
  then have "Flag (gr_channel ?r) (g_approvals s) = Some i" "MGet (gr_channel ?r) (g_mail s) = Some i"
    by (auto simp: keys_def Flag_def MGet_def)
  then have "advances i (start_reader s ?r) s (set_reader i (start_reader s ?r) s)"
    using i h by (intro advances_loop) (simp_all add: start_reader_def started_ok_def holds_def set_reader_def same_regs_def)
  from advances_inv[OF this assms(1)] show ?thesis .
qed

lemma gml_main_inv:
  assumes "gml_inv s" and "gml_step e s = Some (s', os)"
    and "e = GInterrupt \<or> e = AcceptEnd \<or> e = GUdpRecvEnd \<or> e = TakeEnd \<or> e = GUdpSend \<or> (\<exists>r. e = GUdpRecv r) \<or>
      e = GJoin \<or> (\<exists>ord. e = GShutdownFds ord) \<or> e = GCloseSend"
  shows "gml_inv s'"
proof (rule same_regs_inv[OF _ assms(1)])
  show "same_regs s s'"
    using assms(2,3) by (auto simp: same_regs_def split: if_splits prod.splits option.splits)
  show "g_main_ok s'"
    using assms by (auto simp: gml_inv_def g_main_ok_def split: if_splits prod.splits option.splits)
qed

lemma g_wait_inv:
  assumes "gml_inv s" and "g_main s = GFdsShut" and "WaitAll (g_readers s)"
  shows "gml_inv (s\<lparr>g_main := GReadersLeft\<rparr>)"
proof (rule same_regs_inv[OF _ assms(1)])
  have "length (filter (holds 5) (g_threads s)) = 0"
    using assms by (simp add: gml_inv_def g_counted_def WaitAll_def)
  then have "\<forall>r\<in>set (g_threads s). \<not> holds 5 r" by (auto simp: filter_empty_conv)
  with assms(1,2) show "g_main_ok (s\<lparr>g_main := GReadersLeft\<rparr>)" by (simp add: gml_inv_def g_main_ok_def)
qed (simp add: same_regs_def)

lemma gml_step_inv:
  assumes "gml_inv s" and "gml_step e s = Some (s', os)"
  shows "gml_inv s'"
proof (cases e)
  case (AcceptClient rng fd)
  with assms accept_inv[OF assms(1)] show ?thesis by (auto split: if_splits)
next
  case TakeMessage
  with assms take_inv[OF assms(1)] show ?thesis by (auto split: if_splits prod.splits dequeued.splits)
next
  case (Start i)
  with assms start_inv[OF assms(1)] show ?thesis by (auto split: if_splits)
next
  case (Poll i res)
  from Poll assms(2) have pc: "pc_of i s = Some AtPoll" by (auto split: if_splits)
  then have "holds 0 (g_threads s ! i)" by (auto simp: holds_def dest!: pc_ofD)
  from set_reader_inv[OF assms(1) pc this] Poll assms(2) pc show ?thesis
    by (auto simp: Let_def holds_def split: if_splits sum.splits)
next
  case (MailWork i ws)
  with assms mail_step_inv[OF assms(1)] show ?thesis by (auto split: option.splits gml_pc.splits)
next
  case (SockWork i tls got draws ms)
  with assms sock_step_inv[OF assms(1)] show ?thesis by (auto split: option.splits gml_pc.splits if_splits)
next
  case (StopLoop i)
  from StopLoop assms(2) have pc: "pc_of i s = Some AtPoll" by (auto split: if_splits)
  then have "holds 0 (g_threads s ! i)" by (auto simp: holds_def dest!: pc_ofD)
  from set_reader_inv[OF assms(1) pc this] StopLoop assms(2) pc show ?thesis
    by (auto simp: holds_def split: if_splits)
next
  case (Leaves i)
  with assms leave_step_inv[OF assms(1)] show ?thesis by (auto split: option.splits gml_pc.splits)
next
  case GWaitReaders
  with assms g_wait_inv show ?thesis by (auto split: if_splits)
qed (use gml_main_inv[OF assms] in auto)

lemma gml_run_inv: "gml_run tr s \<Longrightarrow> gml_inv s"
  by (induction rule: gml_run.induct) (auto intro: gml_inv_new gml_step_inv)

end
