(* ===== verification/Parse_Safety.thy ===== *)
theory Parse_Safety imports Excision begin

text \<open>
  Memory safety of the framer, for any hooks and any bytes, from any state it can be in: the stores into
  \<open>element_buffer\<close> stay inside the array and contiguous, every element handed to a hook was written before,
  and the ranges recorded for \<open>Excise\<close> are ascending and inside the buffer of the call.
\<close>

section \<open>The element buffer\<close>

definition mem_ok :: "'h parser \<Rightarrow> bool" where
  "mem_ok p \<longleftrightarrow> length (element_buffer p) \<le> MAX_ELEMENT_SIZE \<and>
     (pstate p = READING_DATA \<longrightarrow> 0 \<le> current_read p \<and>
        min (nat (current_read p)) MAX_ELEMENT_SIZE \<le> length (element_buffer p)) \<and>
     (pstate p = EXPECT_DELIM \<longrightarrow> 0 \<le> current_length p \<and>
        min (nat (current_length p)) MAX_ELEMENT_SIZE \<le> length (element_buffer p))"

lemma mem_ok_new: "mem_ok (new_parser h)"
  by (simp add: mem_ok_def new_parser_def)

lemma mem_ok_Reset: "mem_ok p \<Longrightarrow> mem_ok (Reset p)"
  by (simp add: mem_ok_def Reset_def)

lemma mem_ok_sub [simp]: "mem_ok (p\<lparr>sub := h\<rparr>) = mem_ok p"
  by (simp add: mem_ok_def)

text \<open>An element is the declared number of bytes, clamped to the array: nothing unwritten is read.\<close>

lemma current_element_written:
  assumes "mem_ok p" and "pstate p = EXPECT_DELIM"
  shows "length (current_element p) = min (nat (current_length p)) MAX_ELEMENT_SIZE"
  using assms by (auto simp: mem_ok_def current_element_def elem_len_def min_def MAX_ELEMENT_SIZE_def)

text \<open>A store is inside the array.\<close>

lemma store_inside:
  assumes "mem_ok p" and "pstate p = READING_DATA" and "current_read p < int MAX_ELEMENT_SIZE"
  shows "nat (current_read p) \<le> length (element_buffer p) \<and> nat (current_read p) < MAX_ELEMENT_SIZE"
  using assms by (auto simp: mem_ok_def)

section \<open>The recorded ranges\<close>

text \<open>
  At byte \<open>i\<close> of a call. While an instruction that began in this call is being read, the ranges end
  before it; otherwise the next byte must begin one.
\<close>

definition between :: "'h parser \<Rightarrow> bool" where
  "between p \<longleftrightarrow> pstate p = READING_LENGTH \<and> current_length p = -1 \<and> reading_opcode p"

definition call_ok :: "nat \<Rightarrow> 'h call \<Rightarrow> bool" where
  "call_ok i k \<longleftrightarrow>
     ranges_ok 0 (denied_ranges (obj k)) i \<and>
     (opcode_in_this_call k \<longrightarrow> between (obj k) \<or>
        ranges_ok 0 (denied_ranges (obj k)) (opcode_start_idx (obj k)) \<and> opcode_start_idx (obj k) < i) \<and>
     (denying k \<longrightarrow> opcode_in_this_call k \<and> \<not> reading_opcode (obj k))"

definition flow_ok :: "nat \<Rightarrow> 'h flow \<Rightarrow> bool" where
  "flow_ok i f \<longleftrightarrow>
     (case f of
        Return p \<Rightarrow> mem_ok p \<and> ranges_ok 0 (denied_ranges p) i
      | Continue k \<Rightarrow> mem_ok (obj k) \<and> call_ok i k)"

lemma flow_ok_simps [simp]:
  "flow_ok i (Return p) = (mem_ok p \<and> ranges_ok 0 (denied_ranges p) i)"
  "flow_ok i (Continue k) = (mem_ok (obj k) \<and> call_ok i k)"
  by (simp_all add: flow_ok_def)

lemma mem_ok_corrupt [simp]: "mem_ok p \<Longrightarrow> mem_ok (p\<lparr>pstate := STREAM_CORRUPTED\<rparr>)"
  by (simp add: mem_ok_def)

lemma ranges_Suc: "ranges_ok 0 rs i \<Longrightarrow> ranges_ok 0 rs (Suc i)"
  using ranges_ok_mono[of 0 rs i "Suc i"] by simp

lemma step_length_ok:
  assumes "mem_ok (obj k)" and "call_ok i k" and "pstate (obj k) = READING_LENGTH"
  shows "flow_ok (Suc i) (step_length hk i c k)"
proof (cases "current_length (obj k) = -1 \<and> reading_opcode (obj k)")
  case True
  with assms show ?thesis
    by (auto simp: step_length_def first_digit_def Let_def mem_ok_def call_ok_def between_def
        intro: ranges_Suc)
next
  case False
  with assms show ?thesis
    by (auto simp: step_length_def first_digit_def Let_def mem_ok_def call_ok_def between_def
        intro: ranges_Suc)
qed

lemma step_data_ok:
  assumes "mem_ok (obj k)" and "call_ok i k" and "pstate (obj k) = READING_DATA"
  shows "flow_ok (Suc i) (step_data c k)"
proof -
  let ?p = "obj k" and ?r = "nat (current_read (obj k))"
  have st: "current_read ?p < int MAX_ELEMENT_SIZE \<Longrightarrow>
      min (Suc ?r) MAX_ELEMENT_SIZE \<le> length (buffer_store (element_buffer ?p) ?r c) \<and>
      length (buffer_store (element_buffer ?p) ?r c) \<le> MAX_ELEMENT_SIZE"
    using store_inside[OF assms(1,3)] assms(1) by (auto simp: buffer_store_def mem_ok_def)
  have suc: "0 \<le> current_read ?p" "nat (current_read ?p + 1) = Suc ?r"
    using assms(1,3) by (auto simp: mem_ok_def nat_add_distrib)
  have call: "call_ok (Suc i) (k\<lparr>obj := p'\<rparr>)"
    if "denied_ranges p' = denied_ranges ?p" "opcode_start_idx p' = opcode_start_idx ?p"
      "reading_opcode p' = reading_opcode ?p" for p'
    using assms(2,3) that ranges_Suc by (auto simp: call_ok_def between_def)
  have ran: "ranges_ok 0 (denied_ranges ?p) (Suc i)" using assms(2) ranges_Suc by (simp add: call_ok_def)
  show ?thesis
  proof (cases "current_read ?p < int MAX_ELEMENT_SIZE")
    case True
    with st[OF True] suc assms(1,3) ran show ?thesis
      by (auto simp: step_data_def Let_def mem_ok_def intro!: call)
  next
    case False
    with suc assms(1,3) ran show ?thesis
      by (auto simp: step_data_def Let_def mem_ok_def intro!: call)
  qed
qed

lemma handle_element_ok:
  assumes "mem_ok (obj k)" and "call_ok i k" and "pstate (obj k) = EXPECT_DELIM"
  shows "case handle_element hk k of
      Return p \<Rightarrow> mem_ok p \<and> ranges_ok 0 (denied_ranges p) i
    | Continue k1 \<Rightarrow> mem_ok (obj k1) \<and> call_ok i k1 \<and> pstate (obj k1) = EXPECT_DELIM \<and> \<not> reading_opcode (obj k1)"
  using assms
  by (auto simp: handle_element_def Let_def call_ok_def between_def mem_ok_def)

lemma end_instruction_ok:
  assumes "call_ok i k" and "mem_ok (obj k)" and "\<not> reading_opcode (obj k)"
  shows "ranges_ok 0 (denied_ranges (obj (end_instruction hk i k))) (Suc i) \<and>
    mem_ok (obj (end_instruction hk i k)) \<and> reading_opcode (obj (end_instruction hk i k)) \<and>
    \<not> denying (end_instruction hk i k)"
proof (cases "denying k")
  case True
  let ?s = "opcode_start_idx (obj k)"
  from True assms have "ranges_ok 0 (denied_ranges (obj k)) ?s" "?s < i"
    by (auto simp: call_ok_def between_def)
  then have "ranges_ok 0 (denied_ranges (obj k) @ [(?s, i - ?s + 1)]) (Suc i)"
    by (intro ranges_ok_snoc) auto
  with True assms show ?thesis by (simp add: end_instruction_def Let_def mem_ok_def)
next
  case False
  with assms ranges_Suc show ?thesis
    by (auto simp: end_instruction_def Let_def mem_ok_def call_ok_def)
qed

lemma step_delim_ok:
  assumes "mem_ok (obj k)" and "call_ok i k" and "pstate (obj k) = EXPECT_DELIM"
  shows "flow_ok (Suc i) (step_delim hk i c k)"
proof (cases "c = CHR '','' \<or> c = CHR '';''")
  case False
  with assms ranges_Suc show ?thesis by (auto simp: step_delim_def call_ok_def)
next
  case True
  note h = handle_element_ok[OF assms, of hk]
  show ?thesis
  proof (cases "handle_element hk k")
    case (Return p)
    with h True ranges_Suc show ?thesis by (auto simp: step_delim_def)
  next
    case (Continue k1)
    with h have k1: "mem_ok (obj k1)" "call_ok i k1" "\<not> reading_opcode (obj k1)" by auto
    note e = end_instruction_ok[OF k1(2,1,3), of hk]
    show ?thesis
    proof (cases "c = CHR '';''")
      case True
      with Continue e show ?thesis
        by (simp add: step_delim_def Let_def mem_ok_def call_ok_def between_def)
    next
      case False
      with Continue k1 True ranges_Suc show ?thesis
        by (auto simp: step_delim_def Let_def mem_ok_def call_ok_def between_def)
    qed
  qed
qed

lemma parse_byte_ok:
  assumes "mem_ok (obj k)" and "call_ok i k"
  shows "flow_ok (Suc i) (parse_byte hk i c k)"
proof -
  let ?k = "k\<lparr>obj := (obj k)\<lparr>current_index := i\<rparr>\<rparr>"
  have k: "mem_ok (obj ?k)" "call_ok i ?k" using assms by (simp_all add: mem_ok_def call_ok_def between_def)
  have r: "ranges_ok 0 (denied_ranges (obj ?k)) (Suc i)" using k(2) ranges_Suc by (auto simp: call_ok_def)
  show ?thesis
    using step_length_ok[OF k] step_data_ok[OF k] step_delim_ok[OF k] r k(1)
    by (cases "pstate (obj k)") (simp_all add: parse_byte_def)
qed

lemma parse_loop_ok:
  "mem_ok (obj k) \<Longrightarrow> call_ok i k \<Longrightarrow> flow_ok (i + length data) (parse_loop hk i data k)"
proof (induction data arbitrary: i k)
  case Nil
  then show ?case by simp
next
  case (Cons c cs)
  from parse_byte_ok[OF Cons.prems, of hk c] show ?case
  proof (cases "parse_byte hk i c k")
    case (Return p)
    with parse_byte_ok[OF Cons.prems, of hk c] show ?thesis by (auto elim: ranges_ok_mono)
  next
    case (Continue k1)
    with parse_byte_ok[OF Cons.prems, of hk c] Cons.IH[of k1 "Suc i"] show ?thesis by simp
  qed
qed

lemma Parse_ok:
  assumes "mem_ok p"
  shows "mem_ok (snd (Parse hk p data)) \<and> ranges_ok 0 (denied_ranges (snd (Parse hk p data))) (length data)"
proof -
  have "mem_ok (obj (start_call p))" "call_ok 0 (start_call p)"
    using assms by (simp_all add: start_call_def mem_ok_def call_ok_def)
  from parse_loop_ok[OF this, of data hk] show ?thesis
    by (auto simp: Parse_def finish_call_def call_ok_def split: flow.splits)
qed

lemma Parse_memory_safe_bounds:
  assumes "mem_ok p" and "Parse hk p data = (st, q)"
  shows "mem_ok q \<and> mem_ok (Reset q) \<and> ranges_ok 0 (denied_ranges q) (length data) \<and>
    (case Excise q data (length data) of
       (data', len', q') \<Rightarrow> mem_ok q' \<and> length data' = length data \<and> len' \<le> length data \<and>
         take len' data' = cut_ranges (denied_ranges q) 0 data)"
proof -
  from Parse_ok[OF assms(1), of hk data] assms(2)
  have q: "mem_ok q" "ranges_ok 0 (denied_ranges q) (length data)" by simp_all
  obtain data' len' q' where e: "Excise q data (length data) = (data', len', q')" by (metis prod_cases3)
  from Excise_correct[OF q(2) e] q mem_ok_Reset[OF q(1)] e show ?thesis by (simp add: mem_ok_def)
qed

section \<open>Properties\<close>



end
