(* ===== verification/Gml_Output.thy ===== *)
theory Gml_Output imports Gml_Invariant Parse_Safety begin

text \<open>
  What a reader of gmlbroker puts on the queue to the bridge over its life: one request, the captured
  handshake followed by filtered browser input, one announcement. The lemmas are about one reader; the
  runs of the process are in \<open>Gml_Theorems\<close>.
\<close>

section \<open>The pure helpers\<close>

lemma replay_from_spec:
  "concat (map payload (replay_from ch h off)) = drop off h \<and>
   (\<forall>m\<in>set (replay_from ch h off). channel m = ch \<and> action m = NONE \<and> length (payload m) \<le> MAX_PAYLOAD_SIZE)"
proof (induction ch h off rule: replay_from.induct)
  case (1 ch h off)
  show ?case
  proof (cases "off < length h")
    case True
    from "1.IH"[OF True] have "concat (map payload (replay_from ch h off)) =
        take MAX_PAYLOAD_SIZE (drop off h) @ drop (off + MAX_PAYLOAD_SIZE) h"
      using True by (simp add: replay_from.simps[of ch h off])
    also have "\<dots> = take MAX_PAYLOAD_SIZE (drop off h) @ drop MAX_PAYLOAD_SIZE (drop off h)"
      by (simp add: add.commute)
    also have "\<dots> = drop off h" by (rule append_take_drop_id)
    finally show ?thesis using "1.IH"[OF True] True by (simp add: replay_from.simps[of ch h off])
  next
    case False
    then show ?thesis by (simp add: replay_from.simps[of ch h off])
  qed
qed

lemma replay_spec:
  "concat (map payload (replay_handshake ch h)) = h"
  "m \<in> set (replay_handshake ch h) \<Longrightarrow> channel m = ch \<and> action m = NONE \<and> length (payload m) \<le> MAX_PAYLOAD_SIZE"
  using replay_from_spec[of ch h 0] by (simp_all add: replay_handshake_def)

lemma request_id_loop_eq: "request_id_loop ds rid = rid @ map ((!) hex_digits) ds"
  by (induction ds rid rule: request_id_loop.induct) simp_all

lemma make_request_id_eq: "make_request_id ds = map ((!) hex_digits) (take 12 ds)"
  by (simp add: make_request_id_def request_id_loop_eq)

lemma length_make_request_id: "draws_ok ds \<Longrightarrow> length (make_request_id ds) = 12"
  by (simp add: make_request_id_eq draws_ok_def)

lemma make_request_id_nonempty: "draws_ok ds \<Longrightarrow> make_request_id ds \<noteq> []"
  using length_make_request_id by fastforce

definition fits_payload :: "BridgeMessage \<Rightarrow> bool" where
  "fits_payload m \<longleftrightarrow> length (payload m) \<le> MAX_PAYLOAD_SIZE"

section \<open>The shape of a reader's output\<close>

text \<open>
  Up to the announcement. Before the forged handshake is complete there is nothing; then one \<open>CREATE\<close>
  with a fresh id; \<open>NONE\<close> frames only once the replay has happened, and these start with the captured
  handshake.
\<close>

definition body_ok :: "gml_reader \<Rightarrow> BridgeMessage list \<Rightarrow> bool" where
  "body_ok r f \<longleftrightarrow>
     (if \<not> established r then f = [] \<and> \<not> replayed r
      else \<exists>draws nones.
        draws_ok draws \<and> f = mk_msg (gr_channel r) CREATE_CHANNEL (make_request_id draws) # nones \<and>
        (\<forall>m\<in>set nones. action m = NONE \<and> channel m = gr_channel r) \<and>
        (if replayed r then \<exists>rest. concat (map payload nones) = handshake_raw (sub (gr_forger r)) @ rest
         else nones = []))"

definition announcement :: "gml_reader \<Rightarrow> BridgeMessage list" where
  "announcement r = (if holds 3 r \<or> \<not> gr_announce r then [] else [mk_msg (gr_channel r) SHUTDOWN_CHANNEL []])"

definition out_ok :: "gml_reader \<Rightarrow> BridgeMessage list \<Rightarrow> bool" where
  "out_ok r q \<longleftrightarrow> (\<exists>f. q = f @ announcement r \<and> body_ok r f)"

text \<open>The fields of a reader its output depends on.\<close>

definition same_out :: "gml_reader \<Rightarrow> gml_reader \<Rightarrow> bool" where
  "same_out r r' \<longleftrightarrow> gr_channel r' = gr_channel r \<and> gr_forger r' = gr_forger r \<and> replayed r' = replayed r"

lemma body_ok_same: "same_out r r' \<Longrightarrow> body_ok r' f = body_ok r f"
  by (simp add: same_out_def body_ok_def established_def)

lemma body_ok_new: "gr_forger r = new_parser new_forger_fields \<Longrightarrow> \<not> replayed r \<Longrightarrow> body_ok r []"
  by (simp add: body_ok_def established_def new_parser_def new_forger_fields_def)

lemma body_ok_extend:
  assumes "body_ok r f" and "established r" and "gr_channel r' = gr_channel r" and "gr_forger r' = gr_forger r"
    and "\<forall>m\<in>set ms. action m = NONE \<and> channel m = gr_channel r"
    and "replayed r \<Longrightarrow> replayed r'"
    and "replayed r' \<Longrightarrow> \<not> replayed r \<Longrightarrow>
      \<exists>rest. concat (map payload ms) = handshake_raw (sub (gr_forger r)) @ rest"
    and "\<not> replayed r' \<Longrightarrow> ms = []"
  shows "body_ok r' (f @ ms)"
proof -
  from assms(1,2) obtain draws nones where
    d: "draws_ok draws" "f = mk_msg (gr_channel r) CREATE_CHANNEL (make_request_id draws) # nones"
      "\<forall>m\<in>set nones. action m = NONE \<and> channel m = gr_channel r"
      "if replayed r then \<exists>rest. concat (map payload nones) = handshake_raw (sub (gr_forger r)) @ rest
       else nones = []" unfolding body_ok_def by auto
  have e: "established r'" using assms(2,4) by (simp add: established_def)
  have "if replayed r' then \<exists>rest. concat (map payload (nones @ ms)) = handshake_raw (sub (gr_forger r')) @ rest
        else nones @ ms = []"
  proof (cases "replayed r")
    case True
    with d(4) obtain rest where "concat (map payload nones) = handshake_raw (sub (gr_forger r)) @ rest" by auto
    with True assms(4,6) show ?thesis by (auto intro: exI[of _ "rest @ concat (map payload ms)"])
  next
    case False
    with d(4) have "nones = []" by simp
    with False assms(4,7,8) show ?thesis by auto
  qed
  with d e assms(3,5) show ?thesis
    unfolding body_ok_def by (auto intro!: exI[of _ draws] exI[of _ "nones @ ms"])
qed

lemma maybe_replay_out:
  assumes "body_ok r f" and "maybe_replay flag r = (r', ms)"
  shows "body_ok r' (f @ ms)" and "gr_channel r' = gr_channel r" and "gr_forger r' = gr_forger r"
    and "replayed r' \<longleftrightarrow> replayed r \<or> established r \<and> flag" and "\<forall>m\<in>set ms. fits_payload m"
    and "ms \<noteq> [] \<Longrightarrow> flag"
    and "\<forall>m\<in>set ms. channel m = gr_channel r \<and> action m = NONE"
proof -
  note d = assms(2)[unfolded maybe_replay_def]
  show "gr_channel r' = gr_channel r" "gr_forger r' = gr_forger r" "ms \<noteq> [] \<Longrightarrow> flag"
    "replayed r' \<longleftrightarrow> replayed r \<or> established r \<and> flag"
    "\<forall>m\<in>set ms. channel m = gr_channel r \<and> action m = NONE"
    "\<forall>m\<in>set ms. fits_payload m"
    using d replay_spec(2) by (auto simp: fits_payload_def split: if_splits)
  show "body_ok r' (f @ ms)"
  proof (cases "\<not> replayed r \<and> established r \<and> flag")
    case True
    with d have "r' = r\<lparr>replayed := True\<rparr>" "ms = replay_handshake (gr_channel r) (handshake_raw (sub (gr_forger r)))"
      by auto
    with True replay_spec show ?thesis
      by (intro body_ok_extend[OF assms(1)]) auto
  next
    case False
    with d assms(1) show ?thesis by (auto split: if_splits)
  qed
qed

section \<open>One iteration\<close>

lemma keepalive_len:
  assumes "mem_ok p" and "keepalive_Filter p data (length data) = (data', len, p')"
  shows "mem_ok p' \<and> length (take len data') \<le> length data"
proof -
  obtain st q where r: "Parse keepalive_hooks p data = (st, q)" by fastforce
  from Parse_memory_safe_bounds[OF assms(1) r] assms(2) r show ?thesis
    by (auto simp: keepalive_Filter_def split: if_splits)
qed

text \<open>What the rest of an iteration does to a reader, with what it puts on the queue.\<close>

definition step_out :: "gml_reader \<Rightarrow> bool \<Rightarrow> gml_reader \<Rightarrow> string option \<Rightarrow> BridgeMessage list \<Rightarrow> bool" where
  "step_out r flag r' rid ms \<longleftrightarrow>
     gr_announce r' = gr_announce r \<and> gr_channel r' = gr_channel r \<and>
     mem_ok (gr_keepalive r') \<and> (\<forall>m\<in>set ms. fits_payload m \<and> channel m = gr_channel r) \<and>
     (\<forall>f. body_ok r f \<longrightarrow> body_ok r' (f @ ms)) \<and>
     ((\<exists>m\<in>set ms. action m = NONE) \<longrightarrow> flag \<or> replayed r) \<and> (replayed r' \<longrightarrow> flag \<or> replayed r) \<and>
     (case rid of None \<Rightarrow> (\<forall>m\<in>set ms. action m = NONE)
      | Some x \<Rightarrow> ms = [mk_msg (gr_channel r) CREATE_CHANNEL x])"

lemma step_out_quiet:
  "mem_ok (gr_keepalive r) \<Longrightarrow> step_out r flag (r\<lparr>gr_pc := pc\<rparr>) None []"
  by (simp add: step_out_def body_ok_def established_def)

lemma body_ok_pc [simp]: "body_ok (r\<lparr>gr_pc := pc\<rparr>) f = body_ok r f"
  by (rule body_ok_same) (simp add: same_out_def)

lemma maybe_replay_fields:
  "maybe_replay flag r = (r', ms) \<Longrightarrow> gr_announce r' = gr_announce r \<and> gr_keepalive r' = gr_keepalive r \<and>
     gr_channel r' = gr_channel r \<and> gr_clip r' = gr_clip r"
  by (auto simp: maybe_replay_def split: if_splits)

lemma replay_none:
  "maybe_replay flag r = (r', ms) \<Longrightarrow> (\<forall>m\<in>set ms. channel m = gr_channel r \<and> action m = NONE \<and> fits_payload m) \<and>
     (ms \<noteq> [] \<longrightarrow> flag) \<and> (replayed r' \<longrightarrow> flag \<or> replayed r) \<and> (replayed r' \<longrightarrow> \<not> replayed r \<longrightarrow> established r)"
  using replay_spec(2) by (auto simp: maybe_replay_def fits_payload_def split: if_splits)

lemma idle_out:
  assumes "mem_ok (gr_keepalive r)" and "idle_work flag ms p r = (r', eff)"
  shows "step_out r flag r' None (to_bridge eff)"
proof -
  obtain r1 replay where m: "maybe_replay flag r = (r1, replay)" by fastforce
  show ?thesis
  proof (cases "poll_timeout p")
    case True
    with assms(2) m have e: "r' = r1\<lparr>gr_pc := AtPoll\<rparr>" "to_bridge eff = replay"
      by (auto simp: idle_work_def no_effects_def)
    from maybe_replay_fields[OF m] replay_none[OF m] maybe_replay_out(1)[OF _ m] assms(1)
    show ?thesis unfolding e step_out_def by auto
  next
    case False
    with assms step_out_quiet show ?thesis by (auto simp: idle_work_def no_effects_def)
  qed
qed

lemma pipe_out:
  assumes "mem_ok (gr_keepalive r)" and "pipe_work flag data r = (r', eff)" and "established r"
    and "length data \<le> MAX_PAYLOAD_SIZE"
  shows "step_out r flag r' None (to_bridge eff)"
proof -
  obtain r1 replay where m: "maybe_replay flag r = (r1, replay)" by fastforce
  note f = maybe_replay_fields[OF m] and n = replay_none[OF m]
  show ?thesis
  proof (cases "replayed r1")
    case False
    with m have "replay = []" by (auto simp: maybe_replay_def split: if_splits)
    with False assms(1,2) m f n maybe_replay_out(1)[OF _ m] show ?thesis
      by (auto simp: pipe_work_def no_effects_def step_out_def)
  next
    case True
    obtain aks cp where c: "clip_Feed (gr_clip r1) data = (aks, cp)" by fastforce
    obtain data' len kp where k: "keepalive_Filter (gr_keepalive r1) data (length data) = (data', len, kp)"
      by (metis prod_cases3)
    define extra where "extra = (if len > 0 then [mk_msg (gr_channel r) NONE (take len data')] else [])"
    have e: "r' = r1\<lparr>gr_clip := cp, gr_keepalive := kp, gr_pc := AtPoll\<rparr>" "to_bridge eff = replay @ extra"
      using assms(2) m True c k by (auto simp: pipe_work_def extra_def)
    from keepalive_len[OF _ k] assms(1,4) f have kp: "mem_ok kp" "length (take len data') \<le> MAX_PAYLOAD_SIZE"
      by auto
    have x: "\<forall>m\<in>set extra. action m = NONE \<and> channel m = gr_channel r \<and> fits_payload m"
      using kp(2) by (simp add: extra_def fits_payload_def)
    have e1: "established r1" using m assms(3) by (auto simp: maybe_replay_def established_def split: if_splits)
    have "body_ok r' (g @ replay @ extra)" if "body_ok r g" for g
    proof -
      have "body_ok r1 (g @ replay)" by (rule maybe_replay_out(1)[OF that m])
      from body_ok_extend[OF this e1, of r1 extra] x f True have "body_ok r1 ((g @ replay) @ extra)" by simp
      moreover have "same_out r1 r'" by (simp add: e(1) same_out_def)
      ultimately show ?thesis using body_ok_same by simp
    qed
    with kp(1) x f n True show ?thesis unfolding e(2) step_out_def by (auto simp: e(1))
  qed
qed

lemma forge_out:
  assumes "mem_ok (gr_keepalive r)" and "forge_work draws data r = ((r', rid), eff)" and "\<not> established r"
    and "draws_ok draws"
  shows "step_out r flag r' rid (to_bridge eff)"
proof -
  obtain reply p where f: "forger_Feed (gr_rng r) (gr_forger r) data = (reply, p)" by fastforce
  have b: "body_ok r g \<longleftrightarrow> g = [] \<and> \<not> replayed r" for g using assms(3) by (simp add: body_ok_def)
  show ?thesis
  proof (cases "hs_state (sub p) = ESTABLISHED")
    case True
    let ?m = "mk_msg (gr_channel r) CREATE_CHANNEL (make_request_id draws)"
    from True assms(2) f have e: "r' = r\<lparr>gr_forger := p, gr_pc := AtPoll\<rparr>" "rid = Some (make_request_id draws)"
      "to_bridge eff = [?m]" by (auto simp: forge_work_def Let_def)
    have "body_ok r' [?m]" if "\<not> replayed r"
      using True that assms(4) by (auto simp: e(1) body_ok_def established_def)
    moreover have "fits_payload ?m"
      using length_make_request_id[OF assms(4)] by (simp add: fits_payload_def MAX_PAYLOAD_SIZE_def)
    ultimately show ?thesis using assms(1) b by (simp add: e(2,3) step_out_def) (simp add: e(1))
  next
    case False
    with assms(2) f have e: "rid = None" "to_bridge eff = []"
      "r' = r\<lparr>gr_forger := p, gr_pc := gr_pc r'\<rparr>"
      by (auto simp: forge_work_def Let_def no_effects_def split: if_splits)
    have g: "gr_announce r' = gr_announce r" "gr_channel r' = gr_channel r" "gr_keepalive r' = gr_keepalive r"
      "replayed r' = replayed r" "gr_forger r' = p"
      by (subst e(3), simp)+
    have "body_ok r' []" if "\<not> replayed r"
      using False that g by (simp add: body_ok_def established_def)
    with assms(1) b show ?thesis by (simp add: e(1,2) step_out_def g)
  qed
qed

lemma server_Receive_len:
  assumes "server_Receive tls len got = (n, b)" and "n > 0"
  shows "length b \<le> len - 1"
  using assms
  by (auto simp: server_Receive_def Let_def split: option.splits ssl_read.splits sum.splits if_splits)

lemma sock_out:
  assumes "mem_ok (gr_keepalive r)" and "draws_ok draws"
    and "sock_work tls got draws ms flag p r = ((r', rid), eff)"
  shows "step_out r flag r' rid (to_bridge eff)"
proof (cases "sock_ready p \<or> ssl_pending p")
  case False
  obtain r1 e where "idle_work flag ms p r = (r1, e)" by fastforce
  with False assms(3) idle_out[OF assms(1) this] show ?thesis by (auto simp: sock_work_def)
next
  case True
  obtain n b where g: "server_Receive tls (MAX_PAYLOAD_SIZE + 1) got = (n, b)" by fastforce
  have quiet: "step_out r flag (r\<lparr>gr_pc := pc\<rparr>) None (to_bridge no_effects)" for pc
    using step_out_quiet[OF assms(1)] by (simp add: no_effects_def)
  show ?thesis
  proof (cases "n > 0")
    case False
    with True assms(3) g quiet show ?thesis by (auto simp: sock_work_def split: if_splits)
  next
    case data: True
    from server_Receive_len[OF g data] have len: "length b \<le> MAX_PAYLOAD_SIZE" by simp
    from data have nr: "n \<noteq> RETRY" "\<not> n \<le> 0" by (simp_all add: RETRY_def)
    show ?thesis
    proof (cases "established r")
      case False
      with True assms(3) g nr have "forge_work draws b r = ((r', rid), eff)" by (simp add: sock_work_def)
      from forge_out[OF assms(1) this False assms(2)] show ?thesis .
    next
      case est: True
      obtain r1 e where w: "pipe_work flag b r = (r1, e)" by fastforce
      with est True assms(3) g nr have "r' = r1" "rid = None" "eff = e" by (simp_all add: sock_work_def)
      with pipe_out[OF assms(1) w est len] show ?thesis by simp
    qed
  qed
qed

lemma mail_out:
  assumes "mail_work ws c p r = Some (r', eff)"
  shows "same_out r r' \<and> gr_keepalive r' = gr_keepalive r \<and> to_bridge eff = []"
  using assms by (auto simp: mail_work_def same_out_def no_effects_def split: prod.splits option.splits if_splits)

end
