(* ===== verification/Gml_Theorems.thy ===== *)
theory Gml_Theorems imports Gml_Output begin

text \<open>
  What holds in every run of \<open>gmlbroker\<close>, whatever browsers and the bridge send and however the threads
  interleave: nothing of a session crosses the bridge before an approval of that session's own request,
  each reader's output has the shape of \<open>Gml_Output\<close>, return traffic reaches only the browser of its
  channel, and the shutdown waits for every reader.
\<close>

section \<open>Observations of a trace\<close>

definition queued :: "nat \<Rightarrow> gml_obs list \<Rightarrow> BridgeMessage list" where
  "queued i tr = concat (map (\<lambda>x. case x of Queued j m \<Rightarrow> if j = i then [m] else [] | _ \<Rightarrow> []) tr)"

lemma queued_simps [simp]:
  "queued i [] = []" "queued i (xs @ ys) = queued i xs @ queued i ys"
  "queued i (Took m # xs) = queued i xs" "queued i (ClosedGml fd # xs) = queued i xs"
  "queued i (SentDatagram d # xs) = queued i xs"
  "queued i (map (Queued j) ms) = (if i = j then ms else [])"
  "queued i (map (Replied j) cs) = []" "queued i (map (Relayed j) cs) = []" "queued i (map ShutGml fds) = []"
  by (induction ms) (simp_all add: queued_def comp_def)

text \<open>
  An approval for \<open>ch\<close> was taken that names the request reader \<open>i\<close> had made before, or that names none.
\<close>

definition approved_in :: "gml_obs list \<Rightarrow> nat \<Rightarrow> channel \<Rightarrow> bool" where
  "approved_in tr i ch \<longleftrightarrow> (\<exists>a rid b.
     tr = a @ Took (mk_msg ch APPROVAL (APPROVAL_APPROVE # rid)) # b \<and>
     (rid = [] \<or> mk_msg ch CREATE_CHANNEL rid \<in> set (queued i a)))"

lemma approved_in_append: "approved_in tr i ch \<Longrightarrow> approved_in (tr @ os) i ch"
  unfolding approved_in_def by fastforce

definition gate_ok :: "gml_obs list \<Rightarrow> bool" where
  "gate_ok tr \<longleftrightarrow> (\<forall>pre i m post. tr = pre @ Queued i m # post \<longrightarrow> action m = NONE \<longrightarrow>
     approved_in pre i (channel m))"

lemma gate_ok_append:
  assumes "gate_ok tr" and "\<And>i m. Queued i m \<in> set os \<Longrightarrow> action m = NONE \<Longrightarrow> approved_in tr i (channel m)"
  shows "gate_ok (tr @ os)"
  unfolding gate_ok_def
proof (intro allI impI)
  fix pre i m post
  assume e: "tr @ os = pre @ Queued i m # post" and n: "action m = NONE"
  then consider us where "tr = pre @ Queued i m # us" | us where "pre = tr @ us" "os = us @ Queued i m # post"
    by (auto simp: append_eq_append_conv2 append_eq_Cons_conv)
  then show "approved_in pre i (channel m)"
  proof cases
    case 1
    with assms(1) n show ?thesis unfolding gate_ok_def by blast
  next
    case (2 us)
    then have "Queued i m \<in> set os" by simp
    from assms(2)[OF this n] 2(1) approved_in_append show ?thesis by simp
  qed
qed

section \<open>The invariant of runs\<close>

definition outs_ok :: "gml_obs list \<Rightarrow> gml_reader list \<Rightarrow> bool" where
  "outs_ok tr ts \<longleftrightarrow>
     (\<forall>i < length ts. mem_ok (gr_keepalive (ts ! i)) \<and> out_ok (ts ! i) (queued i tr)) \<and>
     (\<forall>i \<ge> length ts. queued i tr = [])"

definition ids_ok :: "gml_obs list \<Rightarrow> ApprovalRegistry \<Rightarrow> bool" where
  "ids_ok tr a \<longleftrightarrow> (\<forall>ch i rid. entries a ch = Some (i, rid) \<longrightarrow>
     rid = [] \<or> mk_msg ch CREATE_CHANNEL rid \<in> set (queued i tr))"

definition flags_ok :: "gml_obs list \<Rightarrow> gml_reader list \<Rightarrow> ApprovalRegistry \<Rightarrow> bool" where
  "flags_ok tr ts a \<longleftrightarrow> (\<forall>i < length ts.
     (flags a i \<longrightarrow> approved_in tr i (gr_channel (ts ! i))) \<and> (replayed (ts ! i) \<longrightarrow> flags a i))"

definition trace_inv :: "gml_obs list \<Rightarrow> gml \<Rightarrow> bool" where
  "trace_inv tr s \<longleftrightarrow> outs_ok tr (g_threads s) \<and> ids_ok tr (g_approvals s) \<and>
     flags_ok tr (g_threads s) (g_approvals s) \<and> gate_ok tr"

lemma trace_inv_new: "trace_inv [] new_gml"
  by (simp add: trace_inv_def outs_ok_def ids_ok_def flags_ok_def gate_ok_def new_gml_def new_ApprovalRegistry_def)

lemma out_ok_same: "same_out r r' \<Longrightarrow> announcement r' = announcement r \<Longrightarrow> out_ok r' q = out_ok r q"
  by (simp add: out_ok_def body_ok_same)

text \<open>A step in which nothing is queued and no flag goes up.\<close>

lemma quiet_trace:
  assumes "trace_inv tr s" and "\<And>j. queued j os = []" and "\<And>i m. Queued i m \<notin> set os"
    and "g_threads s' = g_threads s \<or>
      (i < length (g_threads s) \<and> g_threads s' = (g_threads s)[i := r] \<and> same_out (g_threads s ! i) r \<and>
       gr_keepalive r = gr_keepalive (g_threads s ! i) \<and> announcement r = announcement (g_threads s ! i))"
    and "flags (g_approvals s') = flags (g_approvals s)"
    and "\<And>c v. entries (g_approvals s') c = Some v \<Longrightarrow> entries (g_approvals s) c = Some v"
  shows "trace_inv (tr @ os) s'"
proof -
  from assms(4) have len: "length (g_threads s') = length (g_threads s)" by auto
  have th: "gr_channel (g_threads s' ! j) = gr_channel (g_threads s ! j) \<and>
      replayed (g_threads s' ! j) = replayed (g_threads s ! j) \<and>
      gr_keepalive (g_threads s' ! j) = gr_keepalive (g_threads s ! j) \<and>
      out_ok (g_threads s' ! j) q = out_ok (g_threads s ! j) q" if "j < length (g_threads s)" for j q
    using assms(4)
  proof (elim disjE conjE)
    assume t: "g_threads s' = (g_threads s)[i := r]" and so: "same_out (g_threads s ! i) r"
      and k: "gr_keepalive r = gr_keepalive (g_threads s ! i)" "announcement r = announcement (g_threads s ! i)"
    show ?thesis
    proof (cases "j = i")
      case True
      with t that have "g_threads s' ! j = r" by simp
      with so k out_ok_same[OF so k(2)] True show ?thesis by (simp add: same_out_def)
    qed (simp add: t)
  qed simp
  have "outs_ok (tr @ os) (g_threads s')"
    using assms(1,2) th len by (simp add: trace_inv_def outs_ok_def)
  moreover have "ids_ok (tr @ os) (g_approvals s')"
    using assms(1,2,6) by (fastforce simp: trace_inv_def ids_ok_def)
  moreover have "flags_ok (tr @ os) (g_threads s') (g_approvals s')"
    using assms(1,5) th len approved_in_append by (simp add: trace_inv_def flags_ok_def)
  moreover have "gate_ok (tr @ os)"
    using assms(1,3) by (intro gate_ok_append) (auto simp: trace_inv_def)
  ultimately show ?thesis by (simp add: trace_inv_def)
qed

lemma announcement_in_loop: "holds 3 r \<Longrightarrow> announcement r = []"
  by (simp add: announcement_def)

section \<open>The work on the socket\<close>

lemma inv_entry:
  assumes "gml_inv s" and "i < length (g_threads s)" and "holds 0 (g_threads s ! i)"
  shows "\<exists>rid. entries (g_approvals s) (gr_channel (g_threads s ! i)) = Some (i, rid)"
proof -
  from assms have "keys (g_approvals s) (gr_channel (g_threads s ! i)) = Some i"
    unfolding gml_inv_def regs_ok_def owned_def by blast
  then show ?thesis by (auto simp: keys_def)
qed

text \<open>The id a reader registers is the one it has just asked with.\<close>

lemma sock_ids:
  assumes "ids_ok tr (g_approvals s)" and "gml_inv s" and "i < length (g_threads s)" and "\<And>k. holds k (g_threads s ! i)"
    and so: "step_out (g_threads s ! i) f r1 rid ms"
    and a': "a' = (case rid of None \<Rightarrow> g_approvals s | Some x \<Rightarrow> SetRequestId (gr_channel (g_threads s ! i)) x (g_approvals s))"
    and q: "\<And>j. queued j os = (if j = i then ms else [])"
  shows "ids_ok (tr @ os) a'"
  unfolding ids_ok_def
proof (intro allI impI)
  fix ch j x
  assume e: "entries a' ch = Some (j, x)"
  show "x = [] \<or> mk_msg ch CREATE_CHANNEL x \<in> set (queued j (tr @ os))"
  proof (cases "entries (g_approvals s) ch = Some (j, x)")
    case True
    with assms(1) show ?thesis by (fastforce simp: ids_ok_def)
  next
    case False
    from inv_entry[OF assms(2-4)] obtain y where
      "entries (g_approvals s) (gr_channel (g_threads s ! i)) = Some (i, y)" by blast
    with False e have "rid = Some x" "ch = gr_channel (g_threads s ! i)" "j = i"
      by (auto simp: a' SetRequestId_def split: option.splits if_splits)
    with so have "ms = [mk_msg ch CREATE_CHANNEL x]" by (simp add: step_out_def)
    with \<open>j = i\<close> show ?thesis by (simp add: q)
  qed
qed

lemma sock_gate:
  assumes "trace_inv tr s" and i: "i < length (g_threads s)" and so: "step_out (g_threads s ! i) (flags (g_approvals s) i) r1 rid ms"
  shows "gate_ok (tr @ map (Replied i) bs @ map (Queued i) ms)"
proof (rule gate_ok_append)
  show "gate_ok tr" using assms(1) by (simp add: trace_inv_def)
  fix j m
  assume m: "Queued j m \<in> set (map (Replied i) bs @ map (Queued i) ms)" "action m = NONE"
  then have j: "j = i" "m \<in> set ms" by auto
  with so m(2) have "flags (g_approvals s) i \<or> replayed (g_threads s ! i)" "channel m = gr_channel (g_threads s ! i)"
    by (auto simp: step_out_def)
  with assms(1) i j(1) show "approved_in tr j (channel m)" by (auto simp: trace_inv_def flags_ok_def)
qed

lemma sock_trace:
  assumes "trace_inv tr s" and "gml_inv s" and "pc_of i s = Some (AtSock p)" and "draws_ok draws"
    and "sock_step i tls got draws ms p s = (s', os)"
  shows "trace_inv (tr @ os) s'"
proof -
  let ?r = "g_threads s ! i" and ?a = "g_approvals s"
  from pc_ofD[OF assms(3)] have i: "i < length (g_threads s)" "gr_pc ?r = AtSock p" by auto
  have h: "holds k ?r" for k using i(2) by (simp add: holds_def)
  from inv_started[OF assms(2) i(1)] i(2) have fl: "load_flag (gr_approved ?r) ?a = flags ?a i"
    by (simp add: started_ok_def load_flag_def)
  obtain r1 rid eff where w: "sock_work tls got draws ms (flags ?a i) p ?r = ((r1, rid), eff)"
    by (metis prod.exhaust)
  let ?ms = "to_bridge eff"
  from assms(1) i have m: "mem_ok (gr_keepalive ?r)" "out_ok ?r (queued i tr)"
    by (simp_all add: trace_inv_def outs_ok_def)
  from sock_out[OF m(1) assms(4) w] have so: "step_out ?r (flags ?a i) r1 rid ?ms" .
  from sock_work_holder[OF w] have h1: "holds 3 r1" using holds_0_all by (simp add: same_holder_def)
  define a' where "a' = (case rid of None \<Rightarrow> ?a | Some x \<Rightarrow> SetRequestId (gr_channel ?r) x ?a)"
  from assms(5) w fl have s': "g_threads s' = (g_threads s)[i := r1]" "g_approvals s' = a'"
    and os: "os = map (Replied i) (to_browser eff) @ map (Queued i) ?ms"
    by (auto simp: sock_step_def Let_def commit_def set_reader_def a'_def split: option.splits)
  have q: "queued j os = (if j = i then ?ms else [])" for j by (simp add: os)
  have fa: "flags a' = flags ?a" by (simp add: a'_def SetRequestId_def split: option.splits)
  have body: "body_ok ?r (queued i tr)" using m(2) h announcement_in_loop by (simp add: out_ok_def)
  have "outs_ok (tr @ os) (g_threads s')"
  proof -
    have "out_ok r1 (queued i tr @ ?ms)"
      using so body announcement_in_loop[OF h1] by (simp add: step_out_def out_ok_def)
    moreover have "mem_ok (gr_keepalive r1)" using so by (simp add: step_out_def)
    ultimately show ?thesis
      using assms(1) i(1) by (auto simp: s' q trace_inv_def outs_ok_def nth_list_update)
  qed
  moreover have "ids_ok (tr @ os) (g_approvals s')"
    using sock_ids[OF _ assms(2) i(1) h so a'_def q] assms(1) by (simp add: s' trace_inv_def)
  moreover have "flags_ok (tr @ os) (g_threads s') (g_approvals s')"
    using assms(1) so i(1) fa approved_in_append
    by (auto simp: s' trace_inv_def flags_ok_def nth_list_update step_out_def)
  moreover have "gate_ok (tr @ os)" unfolding os by (rule sock_gate[OF assms(1) i(1) so])
  ultimately show ?thesis by (simp add: trace_inv_def)
qed

section \<open>The other steps\<close>

text \<open>A message that changes the registry is an approval that names the request of the reader it flags.\<close>

lemma approval_taken:
  assumes "g_approvals (gml_message m (s\<lparr>g_recv := q\<rparr>)) \<noteq> g_approvals s"
  obtains i rid where "m = mk_msg (channel m) APPROVAL (APPROVAL_APPROVE # rid)"
    "entries (g_approvals s) (channel m) = Some (i, rid)"
    "g_approvals (gml_message m (s\<lparr>g_recv := q\<rparr>)) = (g_approvals s)\<lparr>flags := (flags (g_approvals s))(i := True)\<rparr>"
proof -
  let ?a = "g_approvals s" and ?ch = "channel m" and ?s1 = "gml_message m (s\<lparr>g_recv := q\<rparr>)"
  have act: "action m = APPROVAL"
    using assms by (cases "action m") (simp_all add: gml_message_def post_to_regs return_regs)
  define rid where "rid = (if length (payload m) > 1 then drop 1 (payload m) else [])"
  from assms act obtain a where a: "g_approvals ?s1 = a" "Approve ?ch rid ?a = (True, a)"
    and v: "payload m \<noteq> []" "hd (payload m) = APPROVAL_APPROVE"
    by (auto simp: gml_message_def approval_arrived_def Let_def rid_def post_to_regs
        split: prod.splits bool.splits if_splits)
  have "payload m = APPROVAL_APPROVE # rid" using v by (cases "payload m") (auto simp: rid_def)
  with act have "m = mk_msg ?ch APPROVAL (APPROVAL_APPROVE # rid)" by simp
  moreover from a(2) obtain i where "entries ?a ?ch = Some (i, rid)" "a = ?a\<lparr>flags := (flags ?a)(i := True)\<rparr>"
    by (auto simp: Approve_def split: option.splits if_splits)
  ultimately show thesis using a(1) that by blast
qed

lemma take_trace:
  assumes "trace_inv tr s" and "gml_inv s" and "s1 = gml_message m (s\<lparr>g_recv := q\<rparr>)"
  shows "trace_inv (tr @ [Took m]) s1"
proof -
  let ?a = "g_approvals s" and ?ch = "channel m"
  have th: "g_threads s1 = g_threads s"
    using message_regs[of "s\<lparr>g_recv := q\<rparr>" m] by (simp add: assms(3) same_regs_def)
  show ?thesis
  proof (cases "g_approvals s1 = ?a")
    case True
    show ?thesis by (rule quiet_trace[OF assms(1)]) (simp_all add: th True)
  next
    case False
    obtain i rid where msg: "m = mk_msg ?ch APPROVAL (APPROVAL_APPROVE # rid)"
      and e: "entries ?a ?ch = Some (i, rid)" and a: "g_approvals s1 = ?a\<lparr>flags := (flags ?a)(i := True)\<rparr>"
      by (rule approval_taken[OF False[unfolded assms(3)], folded assms(3)])
    have "keys ?a ?ch = Some i" using e by (simp add: keys_def)
    with assms(2) have i: "i < length (g_threads s)" "gr_channel (g_threads s ! i) = ?ch"
      unfolding gml_inv_def regs_ok_def owned_def by blast+
    have new: "approved_in (tr @ [Took m]) i ?ch"
      unfolding approved_in_def
    proof (intro exI conjI)
      show "tr @ [Took m] = tr @ Took (mk_msg ?ch APPROVAL (APPROVAL_APPROVE # rid)) # []"
        using msg by simp
      show "rid = [] \<or> mk_msg ?ch CREATE_CHANNEL rid \<in> set (queued i tr)"
        using assms(1) e by (simp add: trace_inv_def ids_ok_def)
    qed
    have "flags_ok (tr @ [Took m]) (g_threads s1) (g_approvals s1)"
      using assms(1) new i approved_in_append by (auto simp: trace_inv_def flags_ok_def th a)
    moreover have "ids_ok (tr @ [Took m]) (g_approvals s1)" using assms(1) by (simp add: trace_inv_def ids_ok_def a)
    moreover have "outs_ok (tr @ [Took m]) (g_threads s1)" using assms(1) by (simp add: trace_inv_def outs_ok_def th)
    moreover have "gate_ok (tr @ [Took m])" using assms(1) by (intro gate_ok_append) (auto simp: trace_inv_def)
    ultimately show ?thesis by (simp add: trace_inv_def)
  qed
qed

lemma accept_trace:
  assumes "trace_inv tr s" and "gml_inv s" and "accept_client rng fd s = (s', os)"
  shows "trace_inv (tr @ os) s'"
proof (cases "g_threads s' = g_threads s")
  case True
  with assms(3) have a: "g_approvals s' = g_approvals s" and o: "os = [] \<or> (\<exists>f. os = [ClosedGml f])"
    by (auto simp: accept_client_def split: if_splits prod.splits option.splits)
  show ?thesis by (rule quiet_trace[OF assms(1)]) (use a o True in auto)
next
  case False
  with assms(3) obtain ch where n: "g_threads s' = g_threads s @ [new_gml_reader rng ch fd]"
    "g_approvals s' = ACreate ch (g_approvals s)" "os = []"
    by (auto simp: accept_client_def split: if_splits prod.splits option.splits)
  let ?r = "new_gml_reader rng ch fd" and ?n = "length (g_threads s)"
  have ref: "next_ref (g_approvals s) = ?n" using assms(2) by (simp add: gml_inv_def regs_ok_def)
  have "out_ok ?r []"
    by (auto simp: out_ok_def announcement_def holds_def new_gml_reader_def intro!: body_ok_new exI[of _ "[]"])
  moreover have "mem_ok (gr_keepalive ?r)" "\<not> replayed ?r" by (simp_all add: new_gml_reader_def mem_ok_new)
  ultimately show ?thesis
    using assms(1) n ref
    by (auto simp: trace_inv_def outs_ok_def ids_ok_def flags_ok_def nth_append less_Suc_eq ACreate_def Let_def
        split: if_splits)
qed

lemma leave_trace:
  assumes "trace_inv tr s" and "pc_of i s = Some (Leaving n)" and "leave_step i n s = Some (s', os)"
  shows "trace_inv (tr @ os) s'"
proof (cases "n = 3")
  case False
  let ?r = "g_threads s ! i"
  let ?r' = "?r\<lparr>gr_pc := Leaving (n + 1)\<rparr>"
  from pc_ofD[OF assms(2)] have i: "i < length (g_threads s)" "gr_pc ?r = Leaving n" by auto
  have th: "g_threads s' = (g_threads s)[i := ?r']" and fl: "flags (g_approvals s') = flags (g_approvals s)"
    and en: "\<And>c v. entries (g_approvals s') c = Some v \<Longrightarrow> entries (g_approvals s) c = Some v"
    and o: "os = [] \<or> (\<exists>f. os = [ClosedGml f])"
    using assms(3) False by (auto simp: leave_step_def Let_def set_reader_def ARemove_def split: if_splits)
  have same: "same_out ?r ?r'" "gr_keepalive ?r' = gr_keepalive ?r" by (simp_all add: same_out_def)
  have ann: "announcement ?r' = announcement ?r" using False i(2) by (auto simp: announcement_def holds_def)
  show ?thesis
    by (rule quiet_trace[OF assms(1), where i = i and r = ?r']) (use o i th fl en same ann in auto)
next
  case True
  let ?r = "g_threads s ! i"
  let ?r' = "?r\<lparr>gr_pc := Leaving 4\<rparr>"
  from pc_ofD[OF assms(2)] True have i: "i < length (g_threads s)" "gr_pc ?r = Leaving 3" by auto
  have th: "g_threads s' = (g_threads s)[i := ?r']" "g_approvals s' = g_approvals s"
    and os: "os = map (Queued i) (announcement ?r')"
    using assms(3) True
    by (auto simp: leave_step_def Let_def commit_def set_reader_def announcement_def holds_def no_effects_def)
  from assms(1) i have "out_ok ?r (queued i tr)" "mem_ok (gr_keepalive ?r)" by (auto simp: trace_inv_def outs_ok_def)
  moreover have "announcement ?r = []" using i(2) by (simp add: announcement_def holds_def)
  moreover have "body_ok ?r' f = body_ok ?r f" for f by (rule body_ok_same) (simp add: same_out_def)
  ultimately have out: "out_ok ?r' (queued i tr @ announcement ?r')" "mem_ok (gr_keepalive ?r')"
    by (auto simp: out_ok_def)
  have na: "\<forall>m\<in>set (announcement ?r'). action m \<noteq> NONE \<and> action m \<noteq> CREATE_CHANNEL"
    by (simp add: announcement_def)
  have "outs_ok (tr @ os) (g_threads s')"
    using assms(1) i(1) out by (auto simp: th os trace_inv_def outs_ok_def nth_list_update)
  moreover have "ids_ok (tr @ os) (g_approvals s')"
    using assms(1) by (fastforce simp: trace_inv_def ids_ok_def th)
  moreover have "flags_ok (tr @ os) (g_threads s') (g_approvals s')"
    using assms(1) i(1) approved_in_append by (auto simp: th trace_inv_def flags_ok_def nth_list_update)
  moreover have "gate_ok (tr @ os)"
    using assms(1) na by (intro gate_ok_append) (auto simp: trace_inv_def os)
  ultimately show ?thesis by (simp add: trace_inv_def)
qed

lemma mail_trace:
  assumes "trace_inv tr s" and "pc_of i s = Some (AtMail p)" and "mail_step i ws p s = Some (s', os)"
  shows "trace_inv (tr @ os) s'"
proof -
  let ?r = "g_threads s ! i"
  from pc_ofD[OF assms(2)] have i: "i < length (g_threads s)" "gr_pc ?r = AtMail p" by auto
  have "\<exists>r cs. g_threads s' = (g_threads s)[i := r] \<and> g_approvals s' = g_approvals s \<and> same_out ?r r \<and>
      gr_keepalive r = gr_keepalive ?r \<and> holds 3 r \<and> os = map (Relayed i) cs"
  proof (cases "s' = set_reader i (?r\<lparr>gr_pc := AtSock p\<rparr>) s \<and> os = []")
    case True
    then show ?thesis
      by (intro exI[of _ "?r\<lparr>gr_pc := AtSock p\<rparr>"] exI[of _ "[]"]) (simp add: set_reader_def same_out_def holds_def)
  next
    case False
    with assms(3) obtain b where b: "gr_mailbox ?r = Some b" "mail_ready p"
      by (auto simp: mail_step_def Let_def split: option.splits if_splits)
    obtain c m where d: "Drain (boxes (g_mail s) b) = (c, m)" by fastforce
    from b d assms(3) obtain r1 eff where w: "mail_work ws c p ?r = Some (r1, eff)"
      "(s', os) = commit Relayed i r1 eff (s\<lparr>g_mail := on_box b (\<lambda>_. m) (g_mail s)\<rparr>)"
      by (auto simp: mail_step_def Let_def split: option.splits)
    have "holds 3 r1" using mail_work_holder[OF w(1)] holds_0_all by (simp add: same_holder_def)
    with mail_out[OF w(1)] w(2) show ?thesis
      by (intro exI[of _ r1] exI[of _ "to_browser eff"]) (simp add: commit_def set_reader_def)
  qed
  then obtain r cs where r: "g_threads s' = (g_threads s)[i := r]" "g_approvals s' = g_approvals s" "same_out ?r r"
    "gr_keepalive r = gr_keepalive ?r" "holds 3 r" "os = map (Relayed i) cs" by blast
  have "announcement r = announcement ?r"
    using announcement_in_loop[OF r(5)] i(2) by (simp add: announcement_def holds_def)
  with r i(1) show ?thesis
    by (intro quiet_trace[OF assms(1), where i = i and r = r]) auto
qed

text \<open>A step that leaves the readers and the registry alone.\<close>

lemma still_trace:
  assumes "trace_inv tr s" and "g_threads s' = g_threads s" and "g_approvals s' = g_approvals s"
    and "\<And>j. queued j os = []" and "\<And>i m. Queued i m \<notin> set os"
  shows "trace_inv (tr @ os) s'"
  by (rule quiet_trace[OF assms(1)]) (use assms in simp_all)

lemmas still_trace_Nil = still_trace[where os = "[]", unfolded append_Nil2]

text \<open>A reader that only moves within its loop.\<close>

lemma move_trace:
  assumes "trace_inv tr s" and "i < length (g_threads s)" and "same_out (g_threads s ! i) r"
    and "gr_keepalive r = gr_keepalive (g_threads s ! i)" and "holds 3 (g_threads s ! i)" and "holds 3 r"
  shows "trace_inv tr (set_reader i r s)"
proof -
  have "announcement r = announcement (g_threads s ! i)"
    using announcement_in_loop[OF assms(5)] announcement_in_loop[OF assms(6)] by simp
  with quiet_trace[OF assms(1), of "[]" "set_reader i r s" i r] assms(2-4) show ?thesis
    by (simp add: set_reader_def)
qed

lemma trace_step:
  assumes "trace_inv tr s" and "gml_inv s" and "gml_step e s = Some (s', os)"
  shows "trace_inv (tr @ os) s'"
proof (cases e)
  case (AcceptClient rng fd)
  with assms accept_trace[OF assms(1,2)] show ?thesis by (auto split: if_splits)
next
  case TakeMessage
  with assms take_trace[OF assms(1,2)] show ?thesis by (auto split: if_splits prod.splits dequeued.splits)
next
  case (Start i)
  with assms(3) have pc: "pc_of i s = Some Starting" "s' = set_reader i (start_reader s (g_threads s ! i)) s" "os = []"
    by (auto split: if_splits)
  from pc_ofD[OF pc(1)] show ?thesis
    unfolding pc(2,3) append_Nil2
    by (intro move_trace[OF assms(1)]) (auto simp: start_reader_def same_out_def holds_def)
next
  case (Poll i res)
  with assms(3) have pc: "pc_of i s = Some AtPoll" "os = []" by (auto simp: Let_def split: if_splits sum.splits)
  from Poll assms(3) pc(1) obtain pc' where "s' = set_reader i ((g_threads s ! i)\<lparr>gr_pc := pc'\<rparr>) s"
    "pc' = AtPoll \<or> pc' = Leaving 0 \<or> (\<exists>p. pc' = AtMail p)"
    by (auto simp: Let_def split: sum.splits if_splits)
  with pc_ofD[OF pc(1)] pc(2) show ?thesis
    by (auto simp: same_out_def holds_def intro!: move_trace[OF assms(1)])
next
  case (MailWork i ws)
  with assms mail_trace[OF assms(1)] show ?thesis by (auto split: option.splits gml_pc.splits)
next
  case (SockWork i tls got draws ms)
  with assms sock_trace[OF assms(1,2)] show ?thesis by (auto split: option.splits gml_pc.splits if_splits)
next
  case (StopLoop i)
  with assms(3) have pc: "pc_of i s = Some AtPoll" "s' = set_reader i ((g_threads s ! i)\<lparr>gr_pc := Leaving 0\<rparr>) s" "os = []"
    by (auto split: if_splits)
  from pc_ofD[OF pc(1)] show ?thesis
    unfolding pc(2,3) append_Nil2
    by (intro move_trace[OF assms(1)]) (auto simp: same_out_def holds_def)
next
  case (Leaves i)
  with assms leave_trace[OF assms(1)] show ?thesis by (auto split: option.splits gml_pc.splits)
qed (use assms(3) in \<open>auto intro!: still_trace[OF assms(1)] still_trace_Nil[OF assms(1)]
    split: if_splits prod.splits option.splits\<close>)

lemma run_trace: "gml_run tr s \<Longrightarrow> trace_inv tr s"
proof (induction rule: gml_run.induct)
  case gml_start
  show ?case by (rule trace_inv_new)
next
  case (gml_next tr s e s' os)
  from trace_step[OF gml_next(3) gml_run_inv[OF gml_next(1)] gml_next(2)] show ?case .
qed

end
