(* ===== verification/Gml_Wire.thy ===== *)
theory Gml_Wire imports Gml_Theorems begin

text \<open>
  The queue to the bridge in \<open>gmlbroker\<close>: what is sent is what the readers queued, in that order, each
  as a datagram that parses.
\<close>

definition bridge_out :: "gml_obs list \<Rightarrow> BridgeMessage list" where
  "bridge_out tr = concat (map (\<lambda>x. case x of Queued i m \<Rightarrow> [m] | _ \<Rightarrow> []) tr)"

definition sent_datagrams :: "gml_obs list \<Rightarrow> string list" where
  "sent_datagrams tr = concat (map (\<lambda>x. case x of SentDatagram d \<Rightarrow> [d] | _ \<Rightarrow> []) tr)"

lemma wire_obs [simp]:
  "bridge_out [] = []" "bridge_out (xs @ ys) = bridge_out xs @ bridge_out ys"
  "bridge_out (Took m # xs) = bridge_out xs" "bridge_out (ClosedGml fd # xs) = bridge_out xs"
  "bridge_out (SentDatagram d # xs) = bridge_out xs" "bridge_out (Queued i m # xs) = m # bridge_out xs"
  "bridge_out (map (Queued j) ms) = ms" "bridge_out (map (Replied j) cs) = []"
  "bridge_out (map (Relayed j) cs) = []" "bridge_out (map ShutGml fds) = []"
  "sent_datagrams [] = []" "sent_datagrams (xs @ ys) = sent_datagrams xs @ sent_datagrams ys"
  "sent_datagrams (Took m # xs) = sent_datagrams xs" "sent_datagrams (ClosedGml fd # xs) = sent_datagrams xs"
  "sent_datagrams (SentDatagram d # xs) = d # sent_datagrams xs"
  "sent_datagrams (Queued i m # xs) = sent_datagrams xs" "sent_datagrams (map (Queued j) ms) = []" "sent_datagrams (map (Replied j) cs) = []"
  "sent_datagrams (map (Relayed j) cs) = []" "sent_datagrams (map ShutGml fds) = []"
  by (induction ms) (simp_all add: bridge_out_def sent_datagrams_def comp_def)

definition wire_inv :: "gml_obs list \<Rightarrow> gml \<Rightarrow> bool" where
  "wire_inv tr s \<longleftrightarrow> map Serialize (bridge_out tr) = sent_datagrams tr @ map Serialize (queue (g_send s)) \<and>
     (\<forall>m\<in>set (bridge_out tr). fits_payload m)"

text \<open>A step that only queues.\<close>

lemma wire_queue:
  assumes "wire_inv tr s" and "queue (g_send s') = queue (g_send s) @ bridge_out os"
    and "sent_datagrams os = []" and "\<forall>m\<in>set (bridge_out os). fits_payload m"
  shows "wire_inv (tr @ os) s'"
  using assms by (auto simp: wire_inv_def)

lemma sock_wire:
  assumes "wire_inv tr s" and "trace_inv tr s" and "pc_of i s = Some (AtSock p)" and "draws_ok draws"
    and "sock_step i tls got draws ms p s = (s', os)"
  shows "wire_inv (tr @ os) s'"
proof -
  let ?r = "g_threads s ! i" and ?f = "load_flag (gr_approved (g_threads s ! i)) (g_approvals s)"
  obtain r1 rid eff where w: "sock_work tls got draws ms ?f p ?r = ((r1, rid), eff)" by (metis prod.exhaust)
  from assms(2) pc_ofD[OF assms(3)] have "mem_ok (gr_keepalive ?r)" by (simp add: trace_inv_def outs_ok_def)
  from sock_out[OF this assms(4) w] have f: "\<forall>m\<in>set (to_bridge eff). fits_payload m" by (simp add: step_out_def)
  from assms(5) w have "queue (g_send s') = queue (g_send s) @ to_bridge eff"
    "os = map (Replied i) (to_browser eff) @ map (Queued i) (to_bridge eff)"
    by (auto simp: sock_step_def Let_def commit_def set_reader_def split: option.splits)
  with f show ?thesis by (intro wire_queue[OF assms(1)]) auto
qed

lemma mail_wire:
  assumes "wire_inv tr s" and "mail_step i ws p s = Some (s', os)"
  shows "wire_inv (tr @ os) s'"
proof -
  let ?r = "g_threads s ! i"
  have "g_send s' = g_send s \<and> os = [] \<or> (\<exists>cs. queue (g_send s') = queue (g_send s) \<and> os = map (Relayed i) cs)"
  proof (cases "s' = set_reader i (?r\<lparr>gr_pc := AtSock p\<rparr>) s \<and> os = []")
    case True
    then show ?thesis by (simp add: set_reader_def)
  next
    case False
    with assms(2) obtain b where b: "gr_mailbox ?r = Some b" "mail_ready p"
      by (auto simp: mail_step_def Let_def split: option.splits if_splits)
    obtain c m where d: "Drain (boxes (g_mail s) b) = (c, m)" by fastforce
    from b d assms(2) obtain r1 eff where w: "mail_work ws c p ?r = Some (r1, eff)"
      "(s', os) = commit Relayed i r1 eff (s\<lparr>g_mail := on_box b (\<lambda>_. m) (g_mail s)\<rparr>)"
      by (auto simp: mail_step_def Let_def split: option.splits)
    with mail_out[OF w(1)] show ?thesis by (auto simp: commit_def set_reader_def)
  qed
  then show ?thesis by (intro wire_queue[OF assms(1)]) auto
qed

lemma leave_wire:
  assumes "wire_inv tr s" and "leave_step i n s = Some (s', os)"
  shows "wire_inv (tr @ os) s'"
  using assms(2)
  by (intro wire_queue[OF assms(1)])
    (auto simp: leave_step_def Let_def set_reader_def commit_def no_effects_def fits_payload_def split: if_splits)

lemma take_wire:
  assumes "wire_inv tr s"
  shows "wire_inv (tr @ [Took m]) (gml_message m (s\<lparr>g_recv := q\<rparr>))"
  using message_regs[of "s\<lparr>g_recv := q\<rparr>" m] by (intro wire_queue[OF assms]) auto

lemma send_wire:
  assumes "wire_inv tr s" and "gml_step GUdpSend s = Some (s', os)"
  shows "wire_inv (tr @ os) s'"
proof (cases "queue (g_send s)")
  case Nil
  with assms(2) show ?thesis by (auto simp: udp_send_step_def Dequeue_def split: if_splits)
next
  case (Cons m ms)
  with assms show ?thesis by (auto simp: wire_inv_def udp_send_step_def Dequeue_def)
qed

lemma wire_still:
  assumes "wire_inv tr s" and "queue (g_send s') = queue (g_send s)" and "bridge_out os = []"
    and "sent_datagrams os = []"
  shows "wire_inv (tr @ os) s'"
  using assms by (intro wire_queue[OF assms(1)]) auto

lemma wire_step:
  assumes "wire_inv tr s" and "trace_inv tr s" and "gml_step e s = Some (s', os)"
  shows "wire_inv (tr @ os) s'"
proof (cases e)
  case (AcceptClient rng fd)
  with assms(3) show ?thesis
    by (intro wire_still[OF assms(1)]) (auto simp: accept_client_def split: if_splits prod.splits option.splits)
next
  case TakeMessage
  with assms take_wire[OF assms(1)] show ?thesis by (auto split: if_splits prod.splits dequeued.splits)
next
  case GUdpSend
  with assms send_wire[OF assms(1)] show ?thesis by simp
next
  case (MailWork i ws)
  with assms mail_wire[OF assms(1)] show ?thesis by (auto split: option.splits gml_pc.splits)
next
  case (SockWork i tls got draws ms)
  with assms sock_wire[OF assms(1,2)] show ?thesis by (auto split: option.splits gml_pc.splits if_splits)
next
  case (Leaves i)
  with assms leave_wire[OF assms(1)] show ?thesis by (auto split: option.splits gml_pc.splits)
qed (use assms(3) in \<open>auto simp: set_reader_def CloseQueue_def Let_def
    intro!: wire_still[OF assms(1)] wire_still[OF assms(1), where os = "[]", unfolded append_Nil2]
    split: if_splits prod.splits option.splits sum.splits\<close>)

lemma run_wire: "gml_run tr s \<Longrightarrow> wire_inv tr s"
proof (induction rule: gml_run.induct)
  case gml_start
  show ?case by (simp add: wire_inv_def new_gml_def new_NetQueue_def)
next
  case (gml_next tr s e s' os)
  from wire_step[OF gml_next(3) run_trace[OF gml_next(1)] gml_next(2)] show ?case .
qed

end
