(* ===== verification/Gml_Return.thy ===== *)
theory Gml_Return imports Gml_Theorems begin

text \<open>
  Return traffic in \<open>gmlbroker\<close>: what a reader writes to its browser from its mailbox. The mailbox of
  reader \<open>i\<close> holds only what was taken from the bridge for the channel of reader \<open>i\<close>; every relayed write
  is a prefix of such a chunk.
\<close>

section \<open>Chunks and the messages they come from\<close>

text \<open>A chunk for \<open>ch\<close>: a suffix of the payload of a \<open>NONE\<close> message, or the screen of a denial.\<close>

definition denial :: "BridgeMessage \<Rightarrow> bool" where
  "denial m \<longleftrightarrow> action m = APPROVAL \<and> (payload m = [] \<or> hd (payload m) \<noteq> APPROVAL_APPROVE)"

definition gives_chunk :: "BridgeMessage \<Rightarrow> string \<Rightarrow> bool" where
  "gives_chunk m c \<longleftrightarrow>
     action m = NONE \<and> (\<exists>k. c = drop k (payload m)) \<or>
     denial m \<and> c = DeniedScreen"

definition returned :: "gml_obs list \<Rightarrow> channel \<Rightarrow> string \<Rightarrow> bool" where
  "returned tr ch c \<longleftrightarrow> (\<exists>m. Took m \<in> set tr \<and> channel m = ch \<and> gives_chunk m c)"

lemma returned_append: "returned tr ch c \<Longrightarrow> returned (tr @ os) ch c"
  by (auto simp: returned_def)

definition boxes_ok :: "gml_obs list \<Rightarrow> gml_reader list \<Rightarrow> (nat \<Rightarrow> ChannelMailbox) \<Rightarrow> bool" where
  "boxes_ok tr ts bx \<longleftrightarrow>
     (\<forall>i < length ts. \<forall>c \<in> set (outbox (bx i)). returned tr (gr_channel (ts ! i)) c)"

definition relays_ok :: "gml_obs list \<Rightarrow> gml_reader list \<Rightarrow> bool" where
  "relays_ok tr ts \<longleftrightarrow> (\<forall>pre i x post. tr = pre @ Relayed i x # post \<longrightarrow>
     i < length ts \<and> (\<exists>c n. x = take n c \<and> returned pre (gr_channel (ts ! i)) c))"

definition return_inv :: "gml_obs list \<Rightarrow> gml \<Rightarrow> bool" where
  "return_inv tr s \<longleftrightarrow> boxes_ok tr (g_threads s) (boxes (g_mail s)) \<and> relays_ok tr (g_threads s)"

text \<open>The readers a later state still has.\<close>

definition keeps :: "gml_reader list \<Rightarrow> gml_reader list \<Rightarrow> bool" where
  "keeps ts ts' \<longleftrightarrow> length ts \<le> length ts' \<and> (\<forall>i < length ts. gr_channel (ts' ! i) = gr_channel (ts ! i))"

lemma keeps_refl [simp]: "keeps ts ts" by (simp add: keeps_def)

lemma keeps_update: "gr_channel r = gr_channel (ts ! i) \<Longrightarrow> keeps ts (ts[i := r])"
  by (cases "i < length ts") (auto simp: keeps_def nth_list_update)

lemma keeps_append: "keeps ts (ts @ rs)"
  by (simp add: keeps_def nth_append)

lemma relays_extend:
  assumes "relays_ok tr ts" and "keeps ts ts'"
    and "\<And>i x. Relayed i x \<in> set os \<Longrightarrow>
      i < length ts' \<and> (\<exists>c n. x = take n c \<and> returned tr (gr_channel (ts' ! i)) c)"
  shows "relays_ok (tr @ os) ts'"
  unfolding relays_ok_def
proof (intro allI impI)
  fix pre i x post
  assume "tr @ os = pre @ Relayed i x # post"
  then consider us where "tr = pre @ Relayed i x # us" | us where "pre = tr @ us" "os = us @ Relayed i x # post"
    by (auto simp: append_eq_append_conv2 append_eq_Cons_conv)
  then show "i < length ts' \<and> (\<exists>c n. x = take n c \<and> returned pre (gr_channel (ts' ! i)) c)"
  proof cases
    case 1
    with assms(1) have "i < length ts \<and> (\<exists>c n. x = take n c \<and> returned pre (gr_channel (ts ! i)) c)"
      unfolding relays_ok_def by blast
    with assms(2) show ?thesis by (auto simp: keeps_def)
  next
    case (2 us)
    then have "Relayed i x \<in> set os" by simp
    from assms(3)[OF this] 2(1) returned_append show ?thesis by metis
  qed
qed

text \<open>A step that writes nothing from a mailbox and adds no chunk to one.\<close>

lemma return_quiet:
  assumes "return_inv tr s" and "keeps (g_threads s) (g_threads s')"
    and "length (g_threads s') = length (g_threads s)"
    and "\<And>i. i < length (g_threads s) \<Longrightarrow> set (outbox (boxes (g_mail s') i)) \<subseteq> set (outbox (boxes (g_mail s) i))"
    and "\<And>i x. Relayed i x \<notin> set os"
  shows "return_inv (tr @ os) s'"
proof -
  have "relays_ok (tr @ os) (g_threads s')"
    using assms(1,2,5) by (intro relays_extend) (auto simp: return_inv_def)
  moreover have "boxes_ok (tr @ os) (g_threads s') (boxes (g_mail s'))"
    using assms(1-4) by (fastforce simp: return_inv_def boxes_ok_def keeps_def intro: returned_append)
  ultimately show ?thesis by (simp add: return_inv_def)
qed

lemma return_inv_new: "return_inv [] new_gml"
  by (simp add: return_inv_def boxes_ok_def relays_ok_def new_gml_def)

section \<open>Taking a message\<close>

lemma outbox_signals [simp]:
  "outbox (Post c m) = outbox m @ [c]" "outbox (RequestTeardown b m) = outbox m"
  by (simp_all add: Post_def RequestTeardown_def Signal_def post_locked_def teardown_locked_def)

text \<open>Posting on a channel reaches only the mailbox registered for it.\<close>

lemma post_to_boxes:
  "boxes (g_mail (post_to ch f s)) j =
     (if mailboxes (g_mail s) ch = Some j then f (boxes (g_mail s) j) else boxes (g_mail s) j)"
  by (auto simp: post_to_def MGet_def on_box_def split: option.splits)

lemma post_to_mailboxes [simp]: "mailboxes (g_mail (post_to ch f s)) = mailboxes (g_mail s)"
  using post_to_regs(1)[of s ch f] by (simp add: same_regs_def)

lemma ret_Feed_suffix: "\<exists>k. fst (ret_Feed flt data) = drop k data"
  by (auto simp: ret_Feed_def Let_def intro: exI[of _ 0] exI[of _ "length data"])

lemma message_chunks:
  assumes "c \<in> set (outbox (boxes (g_mail (gml_message m s)) j))" and "c \<notin> set (outbox (boxes (g_mail s) j))"
  shows "mailboxes (g_mail s) (channel m) = Some j \<and> gives_chunk m c"
proof (cases "action m")
  case NONE
  obtain flt' k where f: "ret_Feed (the (g_filters s (channel m))) (payload m) = (drop k (payload m), flt')"
    using ret_Feed_suffix by (metis prod.collapse)
  have "\<exists>k. payload m = drop k (payload m)" by (rule exI[of _ 0]) simp
  with NONE assms f show ?thesis
    by (auto simp: gml_message_def return_data_def Let_def gives_chunk_def post_to_boxes
        split: option.splits prod.splits if_splits)
next
  case APPROVAL
  with assms show ?thesis
    by (auto simp: gml_message_def approval_arrived_def Let_def gives_chunk_def denial_def post_to_boxes
        split: prod.splits bool.splits if_splits)
qed (use assms in \<open>auto simp: gml_message_def post_to_boxes split: if_splits\<close>)

lemma take_return:
  assumes "return_inv tr s" and "gml_inv s" and "s1 = gml_message m (s\<lparr>g_recv := q\<rparr>)"
  shows "return_inv (tr @ [Took m]) s1"
proof -
  have th: "g_threads s1 = g_threads s"
    using message_regs[of "s\<lparr>g_recv := q\<rparr>" m] by (simp add: assms(3) same_regs_def)
  have "boxes_ok (tr @ [Took m]) (g_threads s) (boxes (g_mail s1))"
    unfolding boxes_ok_def
  proof (intro allI impI ballI)
    fix i c
    assume i: "i < length (g_threads s)" and c: "c \<in> set (outbox (boxes (g_mail s1) i))"
    show "returned (tr @ [Took m]) (gr_channel (g_threads s ! i)) c"
    proof (cases "c \<in> set (outbox (boxes (g_mail s) i))")
      case True
      with assms(1) i returned_append show ?thesis by (simp add: return_inv_def boxes_ok_def)
    next
      case False
      with message_chunks[of c m "s\<lparr>g_recv := q\<rparr>" i] c assms(3)
      have "mailboxes (g_mail s) (channel m) = Some i" "gives_chunk m c" by simp_all
      moreover have "gr_channel (g_threads s ! i) = channel m"
        using calculation(1) assms(2) unfolding gml_inv_def regs_ok_def owned_def by blast
      ultimately show ?thesis by (auto simp: returned_def)
    qed
  qed
  moreover have "relays_ok (tr @ [Took m]) (g_threads s)"
    using assms(1) by (intro relays_extend[of tr "g_threads s"]) (auto simp: return_inv_def)
  ultimately show ?thesis by (simp add: return_inv_def th)
qed

section \<open>Draining a mailbox\<close>

lemma write_chunks_prefix:
  "write_chunks fd ws cs = Some (failed, sls) \<Longrightarrow> x \<in> set sls \<Longrightarrow> \<exists>c \<in> set cs. \<exists>n. x = take n c"
proof (induction fd ws cs arbitrary: failed sls rule: write_chunks.induct)
  case (3 fd w ws c cs)
  obtain rc sl where w: "server_Send (fst w) fd c (snd w) = (rc, sl)" by fastforce
  have p: "\<exists>n. concat sl = take n c"
    using w send_loop_prefix[of c 0 "snd w"]
    by (auto simp: server_Send_def split: if_splits option.splits intro: exI[of _ 0] exI[of _ "length c"])
  from 3(2) w obtain k where k: "rc = Some k" by (auto split: option.splits)
  show ?case
  proof (cases "k < 0")
    case True
    with 3(2,3) w k p show ?thesis by auto
  next
    case False
    with 3(2) w k obtain f ss where r: "write_chunks fd ws cs = Some (f, ss)" "sls = concat sl # ss"
      by (auto split: option.splits)
    from 3(3) r(2) p 3(1)[OF w[symmetric] k False r(1)] show ?thesis by auto
  qed
qed auto

lemma mail_work_browser:
  "mail_work ws (chunks, down, an) p r = Some (r', eff) \<Longrightarrow> x \<in> set (to_browser eff) \<Longrightarrow>
   \<exists>c \<in> set chunks. \<exists>n. x = take n c"
  using write_chunks_prefix by (fastforce simp: mail_work_def no_effects_def split: option.splits prod.splits)

lemma mail_return:
  assumes "return_inv tr s" and "gml_inv s" and "pc_of i s = Some (AtMail p)" and "mail_step i ws p s = Some (s', os)"
  shows "return_inv (tr @ os) s'"
proof -
  let ?r = "g_threads s ! i"
  from pc_ofD[OF assms(3)] have i: "i < length (g_threads s)" "gr_pc ?r = AtMail p" by auto
  from inv_started[OF assms(2) i(1)] i(2) have b: "gr_mailbox ?r = Some i" by (simp add: started_ok_def)
  show ?thesis
  proof (cases "mail_ready p")
    case False
    with assms(4) b have "s' = set_reader i (?r\<lparr>gr_pc := AtSock p\<rparr>) s" "os = []" by (auto simp: mail_step_def)
    with return_quiet[OF assms(1), of s' "[]"] show ?thesis by (simp add: set_reader_def keeps_update)
  next
    case True
    let ?cs = "outbox (boxes (g_mail s) i)"
    obtain down an m where d: "Drain (boxes (g_mail s) i) = ((?cs, down, an), m)" "outbox m = []"
      by (simp add: Drain_def clear_wake_def take_locked_def)
    from True b d assms(4) obtain r1 eff where w: "mail_work ws (?cs, down, an) p ?r = Some (r1, eff)"
      "(s', os) = commit Relayed i r1 eff (s\<lparr>g_mail := on_box i (\<lambda>_. m) (g_mail s)\<rparr>)"
      by (auto simp: mail_step_def Let_def split: option.splits)
    have ch: "gr_channel r1 = gr_channel ?r" using mail_work_holder[OF w(1)] by (simp add: same_holder_def)
    have s': "g_threads s' = (g_threads s)[i := r1]"
      "boxes (g_mail s') = (boxes (g_mail s))(i := m)" "os = map (Relayed i) (to_browser eff)"
      using w(2) mail_out[OF w(1)] by (simp_all add: commit_def set_reader_def on_box_def)
    have kp: "keeps (g_threads s) (g_threads s')" using ch by (simp add: s' keeps_update)
    have "relays_ok (tr @ os) (g_threads s')"
    proof (rule relays_extend[OF _ kp])
      show "relays_ok tr (g_threads s)" using assms(1) by (simp add: return_inv_def)
      fix j x
      assume "Relayed j x \<in> set os"
      then have j: "j = i" "x \<in> set (to_browser eff)" by (auto simp: s')
      from mail_work_browser[OF w(1) j(2)] obtain c n where c: "c \<in> set ?cs" "x = take n c" by blast
      with assms(1) i(1) have "returned tr (gr_channel ?r) c" by (simp add: return_inv_def boxes_ok_def)
      with c(2) i(1) j(1) ch show "j < length (g_threads s') \<and>
          (\<exists>c n. x = take n c \<and> returned tr (gr_channel (g_threads s' ! j)) c)" by (auto simp: s')
    qed
    moreover have "boxes_ok (tr @ os) (g_threads s') (boxes (g_mail s'))"
      using assms(1) ch d(2) by (auto simp: s' return_inv_def boxes_ok_def nth_list_update intro: returned_append)
    ultimately show ?thesis by (simp add: return_inv_def)
  qed
qed

section \<open>The other steps\<close>

lemma accept_return:
  assumes "return_inv tr s" and "gml_inv s" and "accept_client rng fd s = (s', os)"
  shows "return_inv (tr @ os) s'"
proof (cases "g_threads s' = g_threads s")
  case True
  with assms(3) have "g_mail s' = g_mail s" "os = [] \<or> (\<exists>f. os = [ClosedGml f])"
    by (auto simp: accept_client_def split: if_splits prod.splits option.splits)
  with True show ?thesis by (intro return_quiet[OF assms(1)]) auto
next
  case False
  with assms(3) obtain ch where n: "g_threads s' = g_threads s @ [new_gml_reader rng ch fd]"
    "g_mail s' = snd (MCreate ch (g_mail s))" "os = []"
    by (auto simp: accept_client_def split: if_splits prod.splits option.splits)
  have nb: "next_box (g_mail s) = length (g_threads s)" using assms(2) by (simp add: gml_inv_def regs_ok_def)
  have "boxes_ok tr (g_threads s') (boxes (g_mail s'))"
    using assms(1) nb
    by (auto simp: n return_inv_def boxes_ok_def MCreate_def Let_def new_ChannelMailbox_def nth_append less_Suc_eq)
  moreover have "relays_ok tr (g_threads s')"
    using relays_extend[of tr "g_threads s" "g_threads s'" "[]"] assms(1) keeps_append
    by (simp add: n return_inv_def)
  ultimately show ?thesis by (simp add: return_inv_def n(3))
qed

lemma sock_return:
  assumes "return_inv tr s" and "sock_step i tls got draws ms p s = (s', os)"
  shows "return_inv (tr @ os) s'"
proof -
  let ?r = "g_threads s ! i"
  obtain r1 rid eff where w: "sock_work tls got draws ms (load_flag (gr_approved ?r) (g_approvals s)) p ?r =
      ((r1, rid), eff)" by (metis prod.exhaust)
  from assms(2) w have s': "g_threads s' = (g_threads s)[i := r1]" "g_mail s' = g_mail s"
    "os = map (Replied i) (to_browser eff) @ map (Queued i) (to_bridge eff)"
    by (auto simp: sock_step_def Let_def commit_def set_reader_def split: option.splits)
  have "gr_channel r1 = gr_channel ?r" using sock_work_holder[OF w] by (simp add: same_holder_def)
  then show ?thesis by (intro return_quiet[OF assms(1)]) (auto simp: s' keeps_update)
qed

lemma leave_return:
  assumes "return_inv tr s" and "leave_step i n s = Some (s', os)"
  shows "return_inv (tr @ os) s'"
proof -
  have "keeps (g_threads s) (g_threads s') \<and> length (g_threads s') = length (g_threads s) \<and>
      boxes (g_mail s') = boxes (g_mail s) \<and> (\<forall>j x. Relayed j x \<notin> set os)"
    using assms(2)
    by (auto simp: leave_step_def Let_def set_reader_def commit_def MRemove_def no_effects_def keeps_update
        split: if_splits)
  then show ?thesis by (intro return_quiet[OF assms(1)]) auto
qed

lemma return_still:
  assumes "return_inv tr s" and "g_mail s' = g_mail s"
    and "g_threads s' = g_threads s \<or> (\<exists>i r. g_threads s' = (g_threads s)[i := r] \<and>
      gr_channel r = gr_channel (g_threads s ! i))"
    and "\<And>i x. Relayed i x \<notin> set os"
  shows "return_inv (tr @ os) s'"
  using assms by (intro return_quiet[OF assms(1)]) (auto simp: keeps_update)

lemma return_move:
  assumes "return_inv tr s" and "gr_channel r = gr_channel (g_threads s ! i)"
  shows "return_inv tr (set_reader i r s)"
  using return_still[OF assms(1), of "set_reader i r s" "[]"] assms(2) by (auto simp: set_reader_def)

lemma return_step:
  assumes "return_inv tr s" and "gml_inv s" and "gml_step e s = Some (s', os)"
  shows "return_inv (tr @ os) s'"
proof (cases e)
  case (AcceptClient rng fd)
  with assms accept_return[OF assms(1,2)] show ?thesis by (auto split: if_splits)
next
  case TakeMessage
  with assms take_return[OF assms(1,2)] show ?thesis by (auto split: if_splits prod.splits dequeued.splits)
next
  case (Start i)
  with assms(3) have "s' = set_reader i (start_reader s (g_threads s ! i)) s" "os = []" by (auto split: if_splits)
  with return_move[OF assms(1)] show ?thesis by (simp add: start_reader_def)
next
  case (Poll i res)
  with assms(3) obtain pc' where "s' = set_reader i ((g_threads s ! i)\<lparr>gr_pc := pc'\<rparr>) s" "os = []"
    by (auto simp: Let_def split: if_splits sum.splits)
  with return_move[OF assms(1)] show ?thesis by simp
next
  case (MailWork i ws)
  with assms mail_return[OF assms(1,2)] show ?thesis by (auto split: option.splits gml_pc.splits)
next
  case (SockWork i tls got draws ms)
  with assms sock_return[OF assms(1)] show ?thesis by (auto split: option.splits gml_pc.splits if_splits)
next
  case (StopLoop i)
  with assms(3) have "s' = set_reader i ((g_threads s ! i)\<lparr>gr_pc := Leaving 0\<rparr>) s" "os = []"
    by (auto split: if_splits)
  with return_move[OF assms(1)] show ?thesis by simp
next
  case (Leaves i)
  with assms leave_return[OF assms(1)] show ?thesis by (auto split: option.splits gml_pc.splits)
qed (use assms(3) in \<open>auto intro!: return_still[OF assms(1)] return_still[OF assms(1), where os = "[]", unfolded append_Nil2]
    split: if_splits prod.splits option.splits\<close>)

lemma run_return: "gml_run tr s \<Longrightarrow> return_inv tr s"
proof (induction rule: gml_run.induct)
  case gml_start
  show ?case by (rule return_inv_new)
next
  case (gml_next tr s e s' os)
  from return_step[OF gml_next(3) gml_run_inv[OF gml_next(1)] gml_next(2)] show ?case .
qed

end
