(* ===== verification/Gml_Provenance.thy ===== *)
theory Gml_Provenance imports Gml_Wire Gml_Return begin

text \<open>
  Where the messages \<open>gmlbroker\<close> takes come from: the bridge, or its own clipboard acknowledgements.
\<close>

definition clip_acks :: "string \<Rightarrow> bool" where
  "clip_acks x \<longleftrightarrow> (\<exists>idxs. x = concat (map make_ack idxs))"

lemma clip_acks_snoc: "clip_acks x \<Longrightarrow> clip_acks (x @ make_ack i)"
  unfolding clip_acks_def
proof (elim exE)
  fix idxs
  assume "x = concat (map make_ack idxs)"
  then show "\<exists>idxs. x @ make_ack i = concat (map make_ack idxs)" by (intro exI[of _ "idxs @ [i]"]) simp
qed

lemma clip_keep: "hooks_keep clip_hooks (\<lambda>h. clip_acks (acks h))"
  using clip_acks_snoc
  by (auto simp: hooks_keep_def clip_OnInstructionBegin_def clip_OnArgument_def Let_def)

lemma clip_Feed_acks: "clip_acks (fst (clip_Feed p data))"
proof -
  have "clip_acks []" unfolding clip_acks_def by (intro exI[of _ "[]"]) simp
  then show ?thesis
    using resync_keep[OF clip_keep, of "p\<lparr>sub := (sub p)\<lparr>acks := []\<rparr>\<rparr>" data 0]
    by (simp add: clip_Feed_def Let_def)
qed

definition own_ack :: "BridgeMessage \<Rightarrow> bool" where
  "own_ack m \<longleftrightarrow> action m = NONE \<and> clip_acks (payload m)"

lemma sock_own:
  assumes "sock_work tls got draws ms flag p r = ((r', rid), eff)"
  shows "\<forall>m\<in>set (to_self eff). own_ack m"
proof -
  have "clip_acks aks" if "clip_Feed c d = (aks, c')" for c d aks c'
    using clip_Feed_acks[of c d] that by simp
  with assms show ?thesis
    by (auto simp: sock_work_def idle_work_def forge_work_def pipe_work_def no_effects_def own_ack_def Let_def
        split: prod.splits if_splits)
qed

definition gml_input :: "gml_event \<Rightarrow> string option" where
  "gml_input e = (case e of GUdpRecv r \<Rightarrow> arriving r | _ \<Rightarrow> None)"

definition gml_gets :: "gml \<Rightarrow> gml_obs list \<Rightarrow> BridgeMessage \<Rightarrow> bool" where
  "gml_gets s os m \<longleftrightarrow> m \<in> set (queue (g_recv s)) \<or> Took m \<in> set os"

lemma gml_step_gets:
  assumes "gml_step e s = Some (s', os)" and "gml_gets s' os m"
  shows "m \<in> set (queue (g_recv s)) \<or> own_ack m \<or> from_outside (gml_input e) m"
proof (cases e)
  case (GUdpRecv r)
  with assms show ?thesis by (auto simp: gml_gets_def gml_input_def dest: udp_recv_new split: if_splits)
next
  case TakeMessage
  with assms(1) obtain m' q where t: "Dequeue (g_recv s) = (Got m', q)" "s' = gml_message m' (s\<lparr>g_recv := q\<rparr>)"
    "os = [Took m']" by (auto split: if_splits prod.splits dequeued.splits)
  have "queue (g_recv s) = m' # queue q" using t(1) by (auto simp: Dequeue_def split: if_splits)
  with t assms(2) message_regs[of "s\<lparr>g_recv := q\<rparr>" m'] show ?thesis by (auto simp: gml_gets_def)
next
  case (AcceptClient rng fd)
  with assms show ?thesis
    by (auto simp: gml_gets_def accept_client_def split: if_splits prod.splits option.splits)
next
  case (SockWork i tls got draws ms)
  with assms(1) obtain p where ss: "sock_step i tls got draws ms p s = (s', os)"
    by (auto split: option.splits gml_pc.splits if_splits)
  let ?r = "g_threads s ! i"
  obtain r1 rid eff where w: "sock_work tls got draws ms (load_flag (gr_approved ?r) (g_approvals s)) p ?r =
      ((r1, rid), eff)" by (metis prod.exhaust)
  from ss w have "queue (g_recv s') = queue (g_recv s) @ to_self eff" "\<forall>m. Took m \<notin> set os"
    by (auto simp: sock_step_def Let_def commit_def set_reader_def split: option.splits)
  with sock_own[OF w] assms(2) show ?thesis by (auto simp: gml_gets_def)
next
  case (MailWork i ws)
  with assms show ?thesis
    by (auto simp: gml_gets_def mail_step_def mail_work_def Let_def commit_def set_reader_def no_effects_def
        split: option.splits gml_pc.splits prod.splits if_splits)
next
  case (Leaves i)
  with assms show ?thesis
    by (auto simp: gml_gets_def leave_step_def Let_def commit_def set_reader_def no_effects_def
        split: option.splits gml_pc.splits if_splits)
qed (use assms in \<open>auto simp: gml_gets_def set_reader_def CloseQueue_def Let_def
    split: if_splits prod.splits option.splits sum.splits\<close>)

section \<open>What the readers queue\<close>

lemma bridge_out_queued: "m \<in> set (bridge_out tr) \<longleftrightarrow> (\<exists>i. Queued i m \<in> set tr)"
  by (force simp: bridge_out_def split: gml_obs.splits)

lemma queued_in: "m \<in> set (queued i tr) \<longleftrightarrow> Queued i m \<in> set tr"
  by (force simp: queued_def split: gml_obs.splits if_splits)

lemma body_actions: "body_ok r f \<Longrightarrow> m \<in> set f \<Longrightarrow> action m \<noteq> APPROVAL"
  by (auto simp: body_ok_def split: if_splits)

text \<open>No reader ever queues an \<open>APPROVAL\<close>.\<close>

lemma queued_action:
  assumes "gml_run tr s" and "m \<in> set (bridge_out tr)"
  shows "action m \<noteq> APPROVAL"
proof -
  from assms(2) obtain i where i: "m \<in> set (queued i tr)" by (auto simp: bridge_out_queued queued_in)
  from run_trace[OF assms(1)] have o: "outs_ok tr (g_threads s)" by (simp add: trace_inv_def)
  have lt: "i < length (g_threads s)"
  proof (rule ccontr)
    assume "\<not> i < length (g_threads s)"
    with o have "queued i tr = []" by (simp add: outs_ok_def)
    with i show False by simp
  qed
  with o obtain f where "queued i tr = f @ announcement (g_threads s ! i)" "body_ok (g_threads s ! i) f"
    by (auto simp: outs_ok_def out_ok_def)
  with i body_actions show ?thesis by (auto simp: announcement_def split: if_splits)
qed

text \<open>What was sent is a message some reader queued, and fits.\<close>

lemma sent_queued:
  assumes "gml_run tr s" and "d \<in> set (sent_datagrams tr)"
  obtains m where "m \<in> set (bridge_out tr)" "d = Serialize m" "length (payload m) \<le> MAX_PAYLOAD_SIZE"
proof -
  have w: "map Serialize (bridge_out tr) = sent_datagrams tr @ map Serialize (queue (g_send s))"
    "\<forall>m\<in>set (bridge_out tr). fits_payload m"
    using run_wire[OF assms(1)] by (simp_all add: wire_inv_def)
  from assms(2) w(1) have "d \<in> set (map Serialize (bridge_out tr))" by simp
  with w(2) that show ?thesis by (auto simp: fits_payload_def)
qed

end
