(* ===== verification/Bridge_System.thy ===== *)
theory Bridge_System imports Guard_Theorems Gcd_Provenance Gml_Provenance begin

text \<open>
  The three processes together. Two one-way links and the return link are networks that may lose, repeat,
  delay and reorder datagrams but make none up: a process receives only what its neighbour has sent. Each
  process keeps its own steps; \<open>gmlbroker\<close> sends to the guard, the guard to \<open>gcdbroker\<close>, \<open>gcdbroker\<close> to
  \<open>gmlbroker\<close>. Browsers, guacd and the operator's toggle are unconstrained.
\<close>

section \<open>The composition\<close>

definition gcd_sent :: "obs list \<Rightarrow> string list" where
  "gcd_sent tr = concat (map (\<lambda>x. case x of Datagram d \<Rightarrow> [d] | _ \<Rightarrow> []) tr)"

lemma gcd_sent_in: "d \<in> set (gcd_sent tr) \<longleftrightarrow> Datagram d \<in> set tr"
  by (force simp: gcd_sent_def split: obs.splits)

lemma gcd_sent_append [simp]: "gcd_sent (xs @ ys) = gcd_sent xs @ gcd_sent ys"
  by (simp add: gcd_sent_def)

record bridge =
  low :: gml
  low_trace :: "gml_obs list"
  gate :: gsys
  gate_trace :: "(event \<times> string list) list"
  high :: gcd
  high_trace :: "obs list"

definition new_bridge :: "string option \<Rightarrow> bridge" where
  "new_bridge env =
     \<lparr>low = new_gml, low_trace = [], gate = new_gsys, gate_trace = [], high = new_gcd env, high_trace = []\<rparr>"

datatype bridge_event = Low gml_event | Gate event | High gcd_event

definition guard_input :: "event \<Rightarrow> string option" where
  "guard_input e = (case e of Recv r \<Rightarrow> arriving r | _ \<Rightarrow> None)"

definition carried :: "string option \<Rightarrow> string list \<Rightarrow> bool" where
  "carried d ds \<longleftrightarrow> (case d of None \<Rightarrow> True | Some b \<Rightarrow> b \<in> set ds)"

fun bridge_step :: "bridge_event \<Rightarrow> bridge \<Rightarrow> bridge option" where
  "bridge_step (Low e) b =
     (if carried (gml_input e) (gcd_sent (high_trace b)) then
        (case gml_step e (low b) of
           None \<Rightarrow> None
         | Some (a, os) \<Rightarrow> Some (b\<lparr>low := a, low_trace := low_trace b @ os\<rparr>))
      else None)"
| "bridge_step (Gate e) b =
     (if carried (guard_input e) (sent_datagrams (low_trace b)) then
        (case guard_step e (gate b) of
           None \<Rightarrow> None
         | Some (g, sds) \<Rightarrow> Some (b\<lparr>gate := g, gate_trace := gate_trace b @ [(e, sds)]\<rparr>))
      else None)"
| "bridge_step (High e) b =
     (if carried (gcd_input e) (sent (gate_trace b)) then
        (case gcd_step e (high b) of
           None \<Rightarrow> None
         | Some (c, os) \<Rightarrow> Some (b\<lparr>high := c, high_trace := high_trace b @ os\<rparr>))
      else None)"

inductive bridge_run :: "bridge \<Rightarrow> bool" where
  bridge_start: "bridge_run (new_bridge env)"
| bridge_next: "bridge_run b \<Longrightarrow> bridge_step e b = Some b' \<Longrightarrow> bridge_run b'"

fun bridge_exec :: "bridge_event list \<Rightarrow> bridge \<Rightarrow> bridge option" where
  "bridge_exec [] b = Some b"
| "bridge_exec (e # es) b = (case bridge_step e b of None \<Rightarrow> None | Some b' \<Rightarrow> bridge_exec es b')"

lemma bridge_exec_run: "bridge_run b \<Longrightarrow> bridge_exec es b = Some b' \<Longrightarrow> bridge_run b'"
proof (induction es arbitrary: b)
  case (Cons e es)
  from Cons.prems(2) obtain b1 where "bridge_step e b = Some b1" "bridge_exec es b1 = Some b'"
    by (auto split: option.splits)
  with Cons.IH bridge_next[OF Cons.prems(1)] show ?case by blast
qed simp

section \<open>The guard makes the approvals\<close>

text \<open>Taking one event out of a run of the guard.\<close>

lemma guard_run_at:
  assumes "guard_run tr s" and "(e, sds) \<in> set tr"
  obtains pre post t t' where "tr = pre @ (e, sds) # post" "guard_run pre t" "guard_step e t = Some (t', sds)"
proof -
  from assms have "\<exists>pre post t t'. tr = pre @ (e, sds) # post \<and> guard_run pre t \<and> guard_step e t = Some (t', sds)"
  proof (induction rule: guard_run.induct)
    case (run_step tr s e' s' sds')
    show ?case
    proof (cases "(e, sds) \<in> set tr")
      case True
      with run_step(3) obtain pre post t t' where
        p: "tr = pre @ (e, sds) # post" "guard_run pre t" "guard_step e t = Some (t', sds)" by blast
      then show ?thesis by (intro exI[of _ pre] exI[of _ "post @ [(e', sds')]"]) auto
    next
      case False
      with run_step show ?thesis by auto
    qed
  qed simp
  with that show ?thesis by blast
qed

definition verdict_for :: "bool \<Rightarrow> channel \<Rightarrow> string \<Rightarrow> BridgeMessage" where
  "verdict_for ok ch rid = mk_msg ch APPROVAL ((if ok then APPROVAL_APPROVE else APPROVAL_DENY) # rid)"

lemma datagram_approvals:
  assumes "TryCast (Some b) = Some x" and "action x \<noteq> APPROVAL" and "Serialize m \<in> set (snd (handle_datagram b g))"
    and "action m = APPROVAL"
  shows "action x = CREATE_CHANNEL \<and> is_valid_request_id (payload x) \<and>
    m = verdict_for (approve_flag (approver g)) (channel x) (payload x)"
proof -
  from TryCast_SomeD[OF assms(1)] have b: "b = Serialize x" by simp
  have own: "Serialize m \<noteq> Serialize y" if "action y \<noteq> APPROVAL" for y
    using that assms(4) Serialize_inj by blast
  show ?thesis
  proof (cases "action x")
    case CREATE_CHANNEL
    with assms(1,3) own[of x] own[of "mk_msg (channel x) SHUTDOWN_CHANNEL []"] show ?thesis
      by (auto simp: handle_datagram_def handle_create_def HandleRequest_def verdict_for_def Let_def b shutdown_wire_def
          split: if_splits dest: Serialize_inj)
  next
    case SHUTDOWN_CHANNEL
    with assms(1,3) own[of x] show ?thesis by (auto simp: handle_datagram_def handle_shutdown_def Let_def b)
  next
    case NONE
    have cut: "Serialize m \<noteq> Serialize (x\<lparr>payload := p\<rparr>)" for p using own[of "x\<lparr>payload := p\<rparr>"] NONE by simp
    have down: "Serialize m \<noteq> shutdown_wire ch" for ch unfolding shutdown_wire_def using own by simp
    from NONE assms(1,3) own[of x] cut down show ?thesis
      by (auto simp: handle_datagram_def handle_payload_def Let_def b split: if_splits prod.splits)
  qed (use assms(2) in simp)
qed

lemma only_shutdowns:
  assumes "set sds \<subseteq> range shutdown_wire" and "Serialize m \<in> set sds"
  shows "action m = SHUTDOWN_CHANNEL"
proof -
  from assms obtain ch where "Serialize m = Serialize (mk_msg ch SHUTDOWN_CHANNEL [])"
    by (auto simp: shutdown_wire_def)
  from Serialize_inj[OF this] show ?thesis by simp
qed

lemma guard_step_approvals:
  assumes "guard_step e s = Some (s', sds)" and "inert e" and "Serialize m \<in> set sds" and "action m = APPROVAL"
  shows "\<exists>r x. e = Recv r \<and> from_outside (arriving r) x \<and> action x = CREATE_CHANNEL \<and>
    is_valid_request_id (payload x) \<and> m = verdict_for (approve_flag (approver (gst s))) (channel x) (payload x)"
proof (cases e)
  case (Recv r)
  from assms(1) Recv obtain g where g: "guard_receive r (gst s) = (g, sds)" by (auto split: if_splits prod.splits)
  obtain n b where rc: "Receive (MAX_DATAGRAM_SIZE + 1) r = (n, b)" by fastforce
  with g assms(3) have pos: "n > 0" and h: "handle_datagram b (gst s) = (g, sds)"
    by (auto simp: guard_receive_def split: if_splits)
  from h assms(3) obtain x where x: "TryCast (Some b) = Some x" by (auto simp: handle_datagram_def split: option.splits)
  have "action x \<noteq> APPROVAL" using assms(2) Recv rc x by (simp add: inert_def)
  from datagram_approvals[OF x this, of m "gst s"] h assms(3,4) have
    "action x = CREATE_CHANNEL \<and> is_valid_request_id (payload x) \<and>
     m = verdict_for (approve_flag (approver (gst s))) (channel x) (payload x)" by simp
  moreover have "from_outside (arriving r) x"
    using rc pos x by (auto simp: Receive_def arriving_def from_outside_def Let_def split: sum.splits if_splits)
  ultimately show ?thesis using Recv by blast
next
  case (DenyCheck order)
  with assms(1) have "set sds \<subseteq> range shutdown_wire"
    by (auto simp: act_on_deny_def teardown_loop_eq split: if_splits prod.splits)
  from only_shutdowns[OF this assms(3)] assms(4) show ?thesis by simp
next
  case (Stop order)
  with assms(1) have "set sds \<subseteq> range shutdown_wire" by (auto simp: announce_stop_def split: if_splits)
  from only_shutdowns[OF this assms(3)] assms(4) show ?thesis by simp
qed (use assms in \<open>auto split: if_splits\<close>)

section \<open>The invariant of the composition\<close>

definition links_ok :: "bridge \<Rightarrow> bool" where
  "links_ok b \<longleftrightarrow>
     (\<forall>e sds. (e, sds) \<in> set (gate_trace b) \<longrightarrow> carried (guard_input e) (sent_datagrams (low_trace b))) \<and>
     (\<forall>m. gcd_gets (high b) (high_trace b) m \<longrightarrow>
        Serialize m \<in> set (sent (gate_trace b)) \<or> action m = NONE \<and> sync_acks (payload m)) \<and>
     (\<forall>m. gml_gets (low b) (low_trace b) m \<longrightarrow> Datagram (Serialize m) \<in> set (high_trace b) \<or> own_ack m)"

definition bridge_inv :: "bridge \<Rightarrow> bool" where
  "bridge_inv b \<longleftrightarrow> gml_run (low_trace b) (low b) \<and> guard_run (gate_trace b) (gate b) \<and>
     gcd_run (high_trace b) (high b) \<and> links_ok b"

lemma carried_append: "carried d ds \<Longrightarrow> carried d (ds @ es)"
  by (auto simp: carried_def split: option.splits)

text \<open>A datagram one process sent is read by the next as the very message it was made from.\<close>

lemma link_read:
  assumes "carried d ds" and "from_outside d m" and "\<And>x. x \<in> set ds \<Longrightarrow>
    \<exists>m'. x = Serialize m' \<and> length (payload m') \<le> MAX_PAYLOAD_SIZE"
  shows "Serialize m \<in> set ds"
proof -
  from assms(1,2) obtain x where x: "d = Some x" "x \<in> set ds"
    by (cases d) (auto simp: carried_def from_outside_def)
  from assms(3)[OF x(2)] obtain m' where "x = Serialize m'" "length (payload m') \<le> MAX_PAYLOAD_SIZE" by blast
  with x assms(2) show ?thesis by (simp add: from_outside_Serialize)
qed

lemma guard_sent_fits: "guard_run tr s \<Longrightarrow> d \<in> set (sent tr) \<Longrightarrow>
  \<exists>m. d = Serialize m \<and> length (payload m) \<le> MAX_PAYLOAD_SIZE"
  using guard_run_wf[of tr s] TryCast_SomeD by (fastforce simp: sends_well_def list_all_iff)

lemma gcd_sent_fits: "gcd_run tr s \<Longrightarrow> d \<in> set (gcd_sent tr) \<Longrightarrow>
  \<exists>m. d = Serialize m \<and> length (payload m) \<le> MAX_PAYLOAD_SIZE"
  using run_sized[of tr s] TryCast_SomeD by (fastforce simp: sized_def gcd_sent_in)

lemma gml_sent_fits: "gml_run tr s \<Longrightarrow> d \<in> set (sent_datagrams tr) \<Longrightarrow>
  \<exists>m. d = Serialize m \<and> length (payload m) \<le> MAX_PAYLOAD_SIZE"
  using sent_queued by metis

lemma low_links:
  assumes "bridge_inv b" and "carried (gml_input x) (gcd_sent (high_trace b))" and "gml_step x (low b) = Some (a, os)"
    and "gml_gets a (low_trace b @ os) m"
  shows "Datagram (Serialize m) \<in> set (high_trace b) \<or> own_ack m"
proof (cases "gml_gets (low b) (low_trace b) m")
  case True
  with assms(1) show ?thesis by (simp add: bridge_inv_def links_ok_def)
next
  case False
  with assms(4) have "gml_gets a os m" by (auto simp: gml_gets_def)
  with gml_step_gets[OF assms(3) this] False have "own_ack m \<or> from_outside (gml_input x) m"
    by (auto simp: gml_gets_def)
  with link_read[OF assms(2), of m] gcd_sent_fits[of "high_trace b" "high b"] assms(1) show ?thesis
    by (auto simp: gcd_sent_in bridge_inv_def)
qed

lemma high_links:
  assumes "bridge_inv b" and "carried (gcd_input x) (sent (gate_trace b))" and "gcd_step x (high b) = Some (c, os)"
    and "gcd_gets c (high_trace b @ os) m"
  shows "Serialize m \<in> set (sent (gate_trace b)) \<or> action m = NONE \<and> sync_acks (payload m)"
proof (cases "gcd_gets (high b) (high_trace b) m")
  case True
  with assms(1) show ?thesis by (simp add: bridge_inv_def links_ok_def)
next
  case False
  have r: "guard_run (gate_trace b) (gate b)" "gcd_run (high_trace b) (high b)" using assms(1) by (simp_all add: bridge_inv_def)
  from assms(4) False have "gcd_gets c os m" by (auto simp: gcd_gets_def)
  with gcd_step_gets[OF assms(3)] run_verdicts[OF r(2)] False
  have "action m = NONE \<and> sync_acks (payload m) \<or> from_outside (gcd_input x) m"
    by (auto simp: gcd_gets_def)
  with link_read[OF assms(2), of m] guard_sent_fits[OF r(1)] show ?thesis by blast
qed

lemma bridge_step_inv:
  assumes "bridge_inv b" and "bridge_step e b = Some b'"
  shows "bridge_inv b'"
proof -
  from assms(1) have r: "gml_run (low_trace b) (low b)" "guard_run (gate_trace b) (gate b)"
    "gcd_run (high_trace b) (high b)" "links_ok b" by (simp_all add: bridge_inv_def)
  show ?thesis
  proof (cases e)
    case (Low x)
    with assms(2) obtain a os where s: "carried (gml_input x) (gcd_sent (high_trace b))"
      "gml_step x (low b) = Some (a, os)" "b' = b\<lparr>low := a, low_trace := low_trace b @ os\<rparr>"
      by (auto split: if_splits option.splits)
    with r gml_next[OF r(1) s(2)] carried_append low_links[OF assms(1) s(1,2)] show ?thesis
      by (auto simp: bridge_inv_def links_ok_def)
  next
    case (Gate x)
    with assms(2) obtain g sds where s: "carried (guard_input x) (sent_datagrams (low_trace b))"
      "guard_step x (gate b) = Some (g, sds)" "b' = b\<lparr>gate := g, gate_trace := gate_trace b @ [(x, sds)]\<rparr>"
      by (auto split: if_splits option.splits)
    with r run_step[OF r(2) s(2)] show ?thesis by (auto simp: bridge_inv_def links_ok_def)
  next
    case (High x)
    with assms(2) obtain c os where s: "carried (gcd_input x) (sent (gate_trace b))"
      "gcd_step x (high b) = Some (c, os)" "b' = b\<lparr>high := c, high_trace := high_trace b @ os\<rparr>"
      by (auto split: if_splits option.splits)
    with r gcd_next[OF r(3) s(2)] high_links[OF assms(1) s(1,2)] show ?thesis
      by (auto simp: bridge_inv_def links_ok_def)
  qed
qed
lemma bridge_run_inv: "bridge_run b \<Longrightarrow> bridge_inv b"
proof (induction rule: bridge_run.induct)
  case (bridge_start env)
  show ?case
    by (auto simp: bridge_inv_def links_ok_def new_bridge_def gcd_gets_def gml_gets_def new_gcd_def new_gml_def
        new_NetQueue_def gcd_start[unfolded new_gcd_def new_NetQueue_def] intro!: gml_start[unfolded new_gml_def new_NetQueue_def] run_start gcd_start[unfolded new_gcd_def new_NetQueue_def])
next
  case (bridge_next b e b')
  from bridge_step_inv[OF bridge_next(3,2)] show ?case .
qed

text \<open>What reaches the guard is never an \<open>APPROVAL\<close> frame.\<close>

lemma bridge_inert:
  assumes "bridge_inv b" and "(e, sds) \<in> set (gate_trace b)"
  shows "inert e"
proof (cases "\<exists>d. e = Recv (Inr d)")
  case True
  then obtain d where e: "e = Recv (Inr d)" by blast
  with assms have "d \<in> set (sent_datagrams (low_trace b))" and g: "gml_run (low_trace b) (low b)"
    by (auto simp: bridge_inv_def links_ok_def guard_input_def arriving_def carried_def)
  then obtain m where m: "m \<in> set (bridge_out (low_trace b))" "d = Serialize m" "length (payload m) \<le> MAX_PAYLOAD_SIZE"
    using sent_queued by metis
  from queued_action[OF g m(1)] have "action m \<noteq> APPROVAL" .
  with m(2,3) e show ?thesis
    by (auto simp: inert_def Receive_def Let_def size_defs)
next
  case False
  have "TryCast (Some []) = None" by (simp add: TryCast_def HEADER_SIZE_def)
  with False show ?thesis by (auto simp: inert_def Receive_def split: event.splits sum.splits)
qed

end
