(* ===== verification/Gml_Claims.thy ===== *)
theory Gml_Claims imports Gml_Return Gml_Wire begin

text \<open>
  The properties of \<open>gmlbroker\<close>, each over every run of the process, with an example session on which
  they are applied.
\<close>

section \<open>An example session\<close>

definition gml_ran :: "gml_event list \<Rightarrow> (gml \<Rightarrow> gml_obs list \<Rightarrow> bool) \<Rightarrow> bool" where
  "gml_ran es P = (case gml_exec es new_gml of None \<Rightarrow> False | Some (s, tr) \<Rightarrow> P s tr)"

lemma gml_ranE:
  assumes "gml_ran es P"
  obtains s tr where "gml_run tr s" "P s tr"
proof -
  from assms obtain s tr where "gml_exec es new_gml = Some (s, tr)" "P s tr"
    by (auto simp: gml_ran_def split: option.splits)
  with gml_exec_run show ?thesis by (intro that)
qed

definition from_bridge :: "channel \<Rightarrow> ChannelAction \<Rightarrow> string \<Rightarrow> gml_event list" where
  "from_bridge ch a p = [GUdpRecv (Inr (Serialize (mk_msg ch a p))), TakeMessage]"

definition turn :: "nat \<Rightarrow> bool \<Rightarrow> bool \<Rightarrow> send_result list \<Rightarrow> string \<Rightarrow> gml_event list" where
  "turn i sock mail ws bytes =
     [Poll i (Inr \<lparr>sock_ready = sock, mail_ready = mail, other_event = False, ssl_pending = False\<rparr>),
      MailWork i ws, SockWork i None (Inr bytes) (replicate 12 10) 1000]"

definition ex_hello :: string where
  "ex_hello = ''7.connect,1.x;''"

text \<open>A browser on descriptor 7 sends its \<open>connect\<close>; its request is approved; the handshake is replayed.\<close>

definition ex_open :: "gml_event list" where
  "ex_open = [AcceptClient (\<lambda>_. 5) 7, Start 0] @ turn 0 True False [] ex_hello @
     from_bridge 0 APPROVAL ''Aaaaaaaaaaaaa'' @ turn 0 False False [] []"

text \<open>Output of guacd reaches it, its input goes out, and the process stops.\<close>

definition ex_talk :: "gml_event list" where
  "ex_talk = from_bridge 0 NONE ''5.ready,1.x;4.sync,1.7;'' @ turn 0 False True [(None, [Inr 11])] [] @
     turn 0 True False [] ''5.mouse,1.0,1.0;'' @ [GUdpSend, GUdpSend, GUdpSend]"

definition ex_close :: "gml_event list" where
  "ex_close = [GInterrupt, AcceptEnd, GUdpRecvEnd, TakeEnd, GJoin, GShutdownFds [0], StopLoop 0] @
     replicate 6 (Leaves 0) @ [GWaitReaders, GCloseSend]"

lemma ex_open_ran:
  "gml_ran ex_open (\<lambda>s tr. tr \<noteq> [] \<and> last tr = Queued 0 (mk_msg 0 NONE ex_hello) \<and> length (g_threads s) = 1 \<and>
     gr_channel (g_threads s ! 0) = 0)"
  by code_simp

lemma ex_talk_ran:
  "gml_ran (ex_open @ ex_talk) (\<lambda>s tr. tr = take 5 tr @ Relayed 0 ''4.sync,1.7;'' # drop 6 tr \<and>
     last tr = SentDatagram (Serialize (mk_msg 0 NONE ''5.mouse,1.0,1.0;'')) \<and> tr \<noteq> [])"
  by code_simp

lemma ex_close_ran: "gml_ran (ex_open @ ex_talk @ ex_close) (\<lambda>s tr. g_main s = GSendClosed)"
  by code_simp

text \<open>The id after the verdict byte.\<close>

lemma verdict_id: "(if length p > 1 then drop 1 p else []) = drop 1 p" for p :: string
  by simp

section \<open>Properties\<close>

text \<open>
  C16: nothing of a session crosses the bridge before its approval. In every run of gmlbroker, however the
  threads interleave, each \<open>NONE\<close> message a reader queues comes after an \<open>APPROVAL\<close> with verdict \<open>A\<close> was
  taken for that channel, and the id it names is of a request this very reader had queued before (or is
  empty).
\<close>

theorem gml_gate:
  assumes "gml_run (pre @ Queued i m # post) s" and "action m = NONE"
  shows "\<exists>a rid b. pre = a @ Took (mk_msg (channel m) APPROVAL (APPROVAL_APPROVE # rid)) # b \<and>
    (rid = [] \<or> mk_msg (channel m) CREATE_CHANNEL rid \<in> set (queued i a))"
  using run_trace[OF assms(1)] assms(2)
  unfolding trace_inv_def gate_ok_def approved_in_def by blast

lemma gml_gate_witness:
  "\<exists>s tr. gml_run (tr @ [Queued 0 (mk_msg 0 NONE ex_hello)]) s \<and> (\<exists>a rid b.
     tr = a @ Took (mk_msg 0 APPROVAL (APPROVAL_APPROVE # rid)) # b \<and>
     (rid = [] \<or> mk_msg 0 CREATE_CHANNEL rid \<in> set (queued 0 a)))"
proof (rule gml_ranE[OF ex_open_ran])
  fix s tr
  assume r: "gml_run tr s" "tr \<noteq> [] \<and> last tr = Queued 0 (mk_msg 0 NONE ex_hello) \<and>
    length (g_threads s) = 1 \<and> gr_channel (g_threads s ! 0) = 0"
  then have "tr = butlast tr @ [Queued 0 (mk_msg 0 NONE ex_hello)]"
    using append_butlast_last_id[of tr] by metis
  with r(1) have g: "gml_run (butlast tr @ Queued 0 (mk_msg 0 NONE ex_hello) # []) s" by simp
  from gml_gate[OF g] have "\<exists>a rid b. butlast tr = a @ Took (mk_msg 0 APPROVAL (APPROVAL_APPROVE # rid)) # b \<and>
      (rid = [] \<or> mk_msg 0 CREATE_CHANNEL rid \<in> set (queued 0 a))" by simp
  with g show ?thesis by blast
qed

text \<open>
  C20: the shape of what each reader sends. In every run, reader \<open>i\<close> has queued, on its own channel only:
  nothing before the forged handshake is complete; then one \<open>CREATE\<close> with a fresh twelve-digit id; then
  \<open>NONE\<close> messages only if it has replayed, starting with exactly the captured handshake; and at most one
  \<open>SHUTDOWN\<close>, last.
\<close>

theorem gml_reader_output:
  assumes "gml_run tr s" and "i < length (g_threads s)"
  shows "\<exists>create nones stop. queued i tr = create @ nones @ stop \<and>
    (if established (g_threads s ! i)
     then \<exists>draws. draws_ok draws \<and>
       create = [mk_msg (gr_channel (g_threads s ! i)) CREATE_CHANNEL (make_request_id draws)]
     else create = [] \<and> nones = []) \<and>
    (\<forall>m\<in>set nones. action m = NONE \<and> channel m = gr_channel (g_threads s ! i)) \<and>
    (if replayed (g_threads s ! i)
     then \<exists>rest. concat (map payload nones) = handshake_raw (sub (gr_forger (g_threads s ! i))) @ rest
     else nones = []) \<and>
    (stop = [] \<or> stop = [mk_msg (gr_channel (g_threads s ! i)) SHUTDOWN_CHANNEL []])"
proof -
  let ?r = "g_threads s ! i"
  from run_trace[OF assms(1)] assms(2) obtain f where f: "queued i tr = f @ announcement ?r" "body_ok ?r f"
    by (auto simp: trace_inv_def outs_ok_def out_ok_def)
  have stop: "announcement ?r = [] \<or> announcement ?r = [mk_msg (gr_channel ?r) SHUTDOWN_CHANNEL []]"
    by (simp add: announcement_def)
  show ?thesis
  proof (cases "established ?r")
    case False
    with f stop show ?thesis by (intro exI[of _ "[]"] exI[of _ "announcement ?r"]) (simp add: body_ok_def)
  next
    case True
    with f(2) obtain draws nones where d: "draws_ok draws"
      "f = mk_msg (gr_channel ?r) CREATE_CHANNEL (make_request_id draws) # nones"
      "\<forall>m\<in>set nones. action m = NONE \<and> channel m = gr_channel ?r"
      "if replayed ?r then \<exists>rest. concat (map payload nones) = handshake_raw (sub (gr_forger ?r)) @ rest
       else nones = []" by (auto simp: body_ok_def)
    with f(1) stop True show ?thesis
      by (intro exI[of _ "[mk_msg (gr_channel ?r) CREATE_CHANNEL (make_request_id draws)]"] exI[of _ nones]
          exI[of _ "announcement ?r"]) auto
  qed
qed

lemma gml_reader_output_witness:
  "\<exists>s tr. gml_run tr s \<and> length (g_threads s) = 1 \<and> (\<exists>create nones stop. queued 0 tr = create @ nones @ stop)"
proof (rule gml_ranE[OF ex_open_ran])
  fix s tr
  assume r: "gml_run tr s" "tr \<noteq> [] \<and> last tr = Queued 0 (mk_msg 0 NONE ex_hello) \<and>
    length (g_threads s) = 1 \<and> gr_channel (g_threads s ! 0) = 0"
  then have "0 < length (g_threads s)" by simp
  from gml_reader_output[OF r(1) this] r show ?thesis by blast
qed

text \<open>
  C21: return traffic never reaches another browser. In every run, whatever a reader writes to its browser
  from its mailbox is a prefix of a chunk that an earlier message on that reader's own channel gave: a
  suffix of the payload of a \<open>NONE\<close> message (the rest of it being guacd's swallowed handshake), or the
  screen of a denial.
\<close>

theorem gml_return_isolated:
  assumes "gml_run (pre @ Relayed i x # post) s"
  shows "i < length (g_threads s) \<and> (\<exists>m c n. Took m \<in> set pre \<and> channel m = gr_channel (g_threads s ! i) \<and>
    gives_chunk m c \<and> x = take n c)"
proof -
  from run_return[OF assms] have "relays_ok (pre @ Relayed i x # post) (g_threads s)"
    by (simp add: return_inv_def)
  then have "i < length (g_threads s) \<and> (\<exists>c n. x = take n c \<and> returned pre (gr_channel (g_threads s ! i)) c)"
    unfolding relays_ok_def by blast
  then show ?thesis by (auto simp: returned_def)
qed

lemma gml_return_isolated_witness:
  "\<exists>pre post s. gml_run (pre @ Relayed 0 ''4.sync,1.7;'' # post) s \<and>
     (\<exists>m c n. Took m \<in> set pre \<and> gives_chunk m c \<and> ''4.sync,1.7;'' = take n c)"
proof (rule gml_ranE[OF ex_talk_ran])
  fix s tr
  assume r: "gml_run tr s" "tr = take 5 tr @ Relayed 0 ''4.sync,1.7;'' # drop 6 tr \<and>
     last tr = SentDatagram (Serialize (mk_msg 0 NONE ''5.mouse,1.0,1.0;'')) \<and> tr \<noteq> []"
  then have g: "gml_run (take 5 tr @ Relayed 0 ''4.sync,1.7;'' # drop 6 tr) s" by metis
  from gml_return_isolated[OF g] g show ?thesis by blast
qed

text \<open>
  C22: the bridge gets what the readers queued, unchanged and in order. In every run, the datagrams sent so
  far, followed by the messages still queued, are the readers' messages in the order they were queued;
  and each fits, so the other side parses it back.
\<close>

theorem gml_sends_in_order:
  assumes "gml_run tr s"
  shows "map Serialize (bridge_out tr) = sent_datagrams tr @ map Serialize (queue (g_send s)) \<and>
    (\<forall>d\<in>set (sent_datagrams tr). \<exists>m\<in>set (bridge_out tr). TryCast (Some d) = Some m)"
proof -
  have w: "map Serialize (bridge_out tr) = sent_datagrams tr @ map Serialize (queue (g_send s))"
    "\<forall>m\<in>set (bridge_out tr). fits_payload m"
    using run_wire[OF assms] by (simp_all add: wire_inv_def)
  have "\<exists>m\<in>set (bridge_out tr). TryCast (Some d) = Some m" if "d \<in> set (sent_datagrams tr)" for d
  proof -
    from that w(1) have "d \<in> set (map Serialize (bridge_out tr))" by simp
    then obtain m where "m \<in> set (bridge_out tr)" "d = Serialize m" by auto
    with w(2) show ?thesis by (auto simp: fits_payload_def)
  qed
  with w(1) show ?thesis by blast
qed

lemma gml_sends_in_order_witness:
  "\<exists>tr s. gml_run tr s \<and> sent_datagrams tr \<noteq> [] \<and>
     map Serialize (bridge_out tr) = sent_datagrams tr @ map Serialize (queue (g_send s))"
proof (rule gml_ranE[OF ex_talk_ran])
  fix s tr
  assume r: "gml_run tr s" "tr = take 5 tr @ Relayed 0 ''4.sync,1.7;'' # drop 6 tr \<and>
     last tr = SentDatagram (Serialize (mk_msg 0 NONE ''5.mouse,1.0,1.0;'')) \<and> tr \<noteq> []"
  then obtain xs where "tr = xs @ [SentDatagram (Serialize (mk_msg 0 NONE ''5.mouse,1.0,1.0;''))]"
    using append_butlast_last_id[of tr] by metis
  then have "sent_datagrams tr \<noteq> []" by simp
  with gml_sends_in_order[OF r(1)] r(1) show ?thesis by blast
qed

text \<open>
  C24: a channel leads to one browser. In every run, a reader that has not yet given up its place is the one
  its channel's entries lead to: its descriptor in the table, its own flag and its own mailbox; and two
  such readers have different channels and different descriptors.
\<close>

theorem gml_channel_owner:
  assumes "gml_run tr s" and "i < length (g_threads s)" and "\<forall>n. gr_pc (g_threads s ! i) \<noteq> Leaving n"
  shows "Get (gr_channel (g_threads s ! i)) (g_table s) = Some (gr_fd (g_threads s ! i)) \<and>
    Flag (gr_channel (g_threads s ! i)) (g_approvals s) = Some i \<and>
    MGet (gr_channel (g_threads s ! i)) (g_mail s) = Some i \<and>
    (\<forall>j < length (g_threads s). j \<noteq> i \<longrightarrow> (\<forall>n. gr_pc (g_threads s ! j) \<noteq> Leaving n) \<longrightarrow>
      gr_channel (g_threads s ! j) \<noteq> gr_channel (g_threads s ! i) \<and>
      gr_fd (g_threads s ! j) \<noteq> gr_fd (g_threads s ! i))"
proof -
  let ?ts = "g_threads s"
  have live: "holds k (?ts ! j)" if "\<forall>n. gr_pc (?ts ! j) \<noteq> Leaving n" for j k
    using that by (cases "gr_pc (?ts ! j)") (auto simp: holds_def)
  from gml_run_inv[OF assms(1)] have inv: "regs_ok s" by (simp add: gml_inv_def)
  then obtain reg where reg: "owned 2 reg ?ts" "Get c (g_table s) = map_option (\<lambda>i. gr_fd (?ts ! i)) (reg c)" for c
    unfolding regs_ok_def table_owned_def by blast
  have o: "owned 0 (keys (g_approvals s)) ?ts" "owned 1 (mailboxes (g_mail s)) ?ts"
    "owned 2 reg ?ts" using inv reg(1) by (simp_all add: regs_ok_def)
  have at: "keys (g_approvals s) (gr_channel (?ts ! j)) = Some j \<and> MGet (gr_channel (?ts ! j)) (g_mail s) = Some j \<and>
      reg (gr_channel (?ts ! j)) = Some j" if "j < length ?ts" "\<forall>n. gr_pc (?ts ! j) \<noteq> Leaving n" for j
    using o that live unfolding owned_def MGet_def by blast
  have "g_fds_distinct ?ts" using inv by (simp add: regs_ok_def)
  with at assms(2,3) live have d: "gr_channel (?ts ! j) \<noteq> gr_channel (?ts ! i) \<and> gr_fd (?ts ! j) \<noteq> gr_fd (?ts ! i)"
    if "j < length ?ts" "j \<noteq> i" "\<forall>n. gr_pc (?ts ! j) \<noteq> Leaving n" for j
    using that unfolding g_fds_distinct_def by (metis option.inject)
  from at[OF assms(2,3)] reg(2) d show ?thesis by (auto simp: keys_def Flag_def)
qed

lemma ex_open_alive: "gml_ran ex_open (\<lambda>s tr. gr_pc (g_threads s ! 0) = AtPoll \<and> length (g_threads s) = 1)"
  by code_simp

lemma gml_channel_owner_witness:
  "\<exists>tr s. gml_run tr s \<and> MGet (gr_channel (g_threads s ! 0)) (g_mail s) = Some 0"
proof (rule gml_ranE[OF ex_open_alive])
  fix s tr
  assume r: "gml_run tr s" "gr_pc (g_threads s ! 0) = AtPoll \<and> length (g_threads s) = 1"
  then have "0 < length (g_threads s)" "\<forall>n. gr_pc (g_threads s ! 0) \<noteq> Leaving n" by simp_all
  from gml_channel_owner[OF r(1) this] r(1) show ?thesis by blast
qed

text \<open>
  C28: the shutdown waits for every reader. Once \<open>WaitAll\<close> has returned, in any run, every reader ever
  started has left, no browser connection is open, and the table and both registries are empty.
\<close>

theorem gml_shutdown_complete:
  assumes "gml_run tr s" and "g_main s = GReadersLeft \<or> g_main s = GSendClosed"
  shows "(\<forall>r\<in>set (g_threads s). \<exists>n > 5. gr_pc r = Leaving n) \<and> g_open_fds s = [] \<and>
    (\<forall>c. Get c (g_table s) = None \<and> Flag c (g_approvals s) = None \<and> MGet c (g_mail s) = None)"
proof -
  let ?ts = "g_threads s"
  from gml_run_inv[OF assms(1)] have inv: "regs_ok s" "g_main_ok s" by (simp_all add: gml_inv_def)
  with assms(2) have gone: "\<forall>r\<in>set ?ts. \<not> holds 5 r" by (auto simp: g_main_ok_def)
  then have none: "\<not> holds k (?ts ! i)" if "i < length ?ts" "k \<le> 5" for i k
    using that holds_mono[of k "?ts ! i" 5] by auto
  have empty: "reg c = None" if "owned k reg ?ts" "k \<le> 5" for k reg c
    using that none unfolding owned_def by (metis not_None_eq)
  from inv(1) obtain reg where reg: "owned 2 reg ?ts" "\<forall>c. Get c (g_table s) = map_option (\<lambda>i. gr_fd (?ts ! i)) (reg c)"
    unfolding regs_ok_def table_owned_def by blast
  have "Get c (g_table s) = None" for c using reg(2) empty[OF reg(1), of c] by simp
  moreover have "Flag c (g_approvals s) = None" for c
    using empty[of 0 "keys (g_approvals s)" c] inv(1) by (auto simp: regs_ok_def keys_def Flag_def)
  moreover have "MGet c (g_mail s) = None" for c
    using empty[of 1 "mailboxes (g_mail s)" c] inv(1) by (simp add: regs_ok_def MGet_def)
  moreover have "\<exists>n > 5. gr_pc r = Leaving n" if "r \<in> set ?ts" for r
    using gone that by (cases "gr_pc r") (auto simp: holds_def)
  moreover have "g_open_fds s = []"
    using gone holds_mono[of 4 _ 5] by (auto simp: g_open_fds_def g_open_holds filter_empty_conv)
  ultimately show ?thesis by blast
qed

lemma gml_shutdown_complete_witness: "\<exists>tr s. gml_run tr s \<and> g_main s = GSendClosed \<and> g_open_fds s = []"
proof (rule gml_ranE[OF ex_close_ran])
  fix s tr
  assume r: "gml_run tr s" "g_main s = GSendClosed"
  then have "g_main s = GReadersLeft \<or> g_main s = GSendClosed" by simp
  from gml_shutdown_complete[OF r(1) this] r show ?thesis by blast
qed

text \<open>
  An approved session comes to life by itself. When a reader whose handshake is complete finds its flag
  up on an idle turn, it queues the captured handshake, cut into payloads that fit, and from then on it
  is piping; it happens once: a reader that has replayed queues nothing on an idle turn.
\<close>

theorem approved_reader_replays:
  assumes "poll_timeout p" and "\<not> ssl_pending p" and "established r"
    and "sock_work tls got draws ms True p r = ((r', rid), eff)"
  shows "replayed r' \<and> gr_pc r' = AtPoll \<and> rid = None \<and> to_browser eff = [] \<and>
    (if replayed r then to_bridge eff = []
     else concat (map payload (to_bridge eff)) = handshake_raw (sub (gr_forger r)) \<and>
       (\<forall>m\<in>set (to_bridge eff). channel m = gr_channel r \<and> action m = NONE \<and>
          length (payload m) \<le> MAX_PAYLOAD_SIZE))"
  using assms replay_spec
  by (auto simp: sock_work_def poll_timeout_def idle_work_def maybe_replay_def no_effects_def established_def)

definition ex_waiting :: gml_reader where
  "ex_waiting = (new_gml_reader (\<lambda>_. 5) 3 7)
     \<lparr>gr_forger := new_parser (new_forger_fields\<lparr>hs_state := ESTABLISHED, handshake_raw := ''7.connect;''\<rparr>)\<rparr>"

lemma approved_reader_replays_witness:
  "concat (map payload (to_bridge (snd (sock_work None (Inr []) [] 0 True
     \<lparr>sock_ready = False, mail_ready = False, other_event = False, ssl_pending = False\<rparr> ex_waiting)))) =
   ''7.connect;''"
proof -
  let ?p = "\<lparr>sock_ready = False, mail_ready = False, other_event = False, ssl_pending = False\<rparr>"
  obtain r' rid eff where w: "sock_work None (Inr []) [] 0 True ?p ex_waiting = ((r', rid), eff)"
    by (metis prod.exhaust)
  have "poll_timeout ?p" "\<not> ssl_pending ?p" "established ex_waiting" "\<not> replayed ex_waiting"
    by (simp_all add: poll_timeout_def established_def ex_waiting_def new_parser_def new_gml_reader_def)
  with approved_reader_replays[OF _ _ _ w] w show ?thesis by (simp add: ex_waiting_def new_parser_def)
qed

text \<open>
  A denial ends the session. A denial that names the outstanding request puts the denied screen last in
  the mailbox, asks for the teardown with an announcement, wakes the reader and approves nothing; and a
  reader that drains the mailbox then leaves the loop, to announce the \<open>SHUTDOWN\<close>.
\<close>

theorem denial_ends_session:
  assumes "denial m" and "Matches (channel m) (drop 1 (payload m)) (g_approvals s)"
    and "MGet (channel m) (g_mail s) = Some b"
  shows "let s' = gml_message m s; bx = boxes (g_mail s') b in
    fst (Drain bx) = (outbox (boxes (g_mail s) b) @ [DeniedScreen], True, True) \<and> counter bx > 0 \<and>
    g_approvals s' = g_approvals s \<and> g_filters s' = g_filters s \<and>
    (\<forall>ws p r r' eff. mail_work ws (fst (Drain bx)) p r = Some (r', eff) \<longrightarrow>
       gr_pc r' = Leaving 0 \<and> gr_announce r')"
proof -
  let ?b0 = "boxes (g_mail s) b"
  have sig: "counter (Signal m) > 0" for m by (auto simp: Signal_def COUNTER_MAX_def)
  have s': "gml_message m s = post_to (channel m) (RequestTeardown True) (post_to (channel m) (Post DeniedScreen) s)"
    using assms(1,2) unfolding gml_message_def approval_arrived_def Let_def verdict_id
    by (auto simp: denial_def APPROVAL_APPROVE_def APPROVAL_DENY_def)
  have bx: "boxes (g_mail (gml_message m s)) b = RequestTeardown True (Post DeniedScreen ?b0)"
    using assms(3) unfolding s' by (simp add: post_to_boxes MGet_def)
  have dr: "fst (Drain (RequestTeardown True (Post DeniedScreen ?b0))) = (outbox ?b0 @ [DeniedScreen], True, True)"
    by (simp add: Drain_def clear_wake_def take_locked_def RequestTeardown_def Post_def post_locked_def
        teardown_locked_def Signal_def)
  have "gr_pc r' = Leaving 0 \<and> gr_announce r'" if "mail_work ws (cs, True, True) p r = Some (r', eff)" for ws cs p r r' eff
    using that by (auto simp: mail_work_def split: option.splits)
  moreover have "g_filters (gml_message m s) = g_filters s"
    unfolding s' by (simp add: post_to_def split: option.splits)
  moreover have "counter (RequestTeardown True (Post DeniedScreen ?b0)) > 0"
    unfolding RequestTeardown_def by (rule sig)
  moreover have "g_approvals (gml_message m s) = g_approvals s" by (simp add: s' post_to_regs)
  ultimately show ?thesis unfolding Let_def bx dr by blast
qed

definition ex_pending :: gml where
  "ex_pending = new_gml\<lparr>g_approvals := SetRequestId 3 ''ab'' (ACreate 3 new_ApprovalRegistry),
     g_mail := snd (MCreate 3 new_MailboxRegistry)\<rparr>"

lemma denial_ends_session_witness:
  "fst (Drain (boxes (g_mail (gml_message (mk_msg 3 APPROVAL ''Dab'') ex_pending)) 0)) = ([DeniedScreen], True, True)"
proof -
  have "denial (mk_msg 3 APPROVAL ''Dab'')" "MGet (channel (mk_msg 3 APPROVAL ''Dab'')) (g_mail ex_pending) = Some 0"
    "Matches (channel (mk_msg 3 APPROVAL ''Dab'')) (drop 1 (payload (mk_msg 3 APPROVAL ''Dab''))) (g_approvals ex_pending)"
    "outbox (boxes (g_mail ex_pending) 0) = []"
    by code_simp+
  with denial_ends_session[of "mk_msg 3 APPROVAL ''Dab''" ex_pending 0] show ?thesis by (simp add: Let_def)
qed

text \<open>
  A verdict that does not name the outstanding request of its channel changes nothing, whether it
  approves or denies, and also when the channel has no session.
\<close>

theorem unmatched_verdict_ignored:
  assumes "action m = APPROVAL" and "\<not> Matches (channel m) (drop 1 (payload m)) (g_approvals s)"
  shows "gml_message m s = s"
proof -
  from assms(2) have "Approve (channel m) (drop 1 (payload m)) (g_approvals s) = (False, g_approvals s)"
    by (auto simp: Matches_def Approve_def split: option.splits)
  with assms show ?thesis unfolding gml_message_def approval_arrived_def Let_def verdict_id by simp
qed

lemma unmatched_verdict_ignored_witness:
  "gml_message (mk_msg 3 APPROVAL ''Aac'') ex_pending = ex_pending"
proof (rule unmatched_verdict_ignored)
  show "\<not> Matches (channel (mk_msg 3 APPROVAL ''Aac'')) (drop 1 (payload (mk_msg 3 APPROVAL ''Aac'')))
    (g_approvals ex_pending)" by code_simp
qed simp

end
