(* ===== verification/Bridge_Claims.thy ===== *)
theory Bridge_Claims imports Bridge_System Gml_Claims begin

text \<open>
  The properties of the whole bridge, over every run of the three processes joined by their links, with
  an example session that crosses all of them.
\<close>

section \<open>An example session\<close>

definition bridge_ran :: "bridge_event list \<Rightarrow> (bridge \<Rightarrow> bool) \<Rightarrow> bool" where
  "bridge_ran es P = (case bridge_exec es (new_bridge None) of None \<Rightarrow> False | Some b \<Rightarrow> P b)"

lemma bridge_ranE:
  assumes "bridge_ran es P"
  obtains b where "bridge_run b" "P b"
proof -
  from assms obtain b where "bridge_exec es (new_bridge None) = Some b" "P b"
    by (auto simp: bridge_ran_def split: option.splits)
  with bridge_exec_run[OF bridge_start] show ?thesis by (intro that) blast
qed

definition ex_create :: BridgeMessage where "ex_create = mk_msg 0 CREATE_CHANNEL ''aaaaaaaaaaaa''"
definition ex_verdict :: BridgeMessage where "ex_verdict = mk_msg 0 APPROVAL ''Aaaaaaaaaaaaa''"
definition ex_input :: BridgeMessage where "ex_input = mk_msg 0 NONE ex_hello"
definition ex_output :: BridgeMessage where "ex_output = mk_msg 0 NONE ''5.ready,1.x;4.sync,1.7;''"

definition to_gate :: "BridgeMessage \<Rightarrow> bridge_event list" where
  "to_gate m = [Low GUdpSend, Gate (Recv (Inr (Serialize m)))]"

definition to_high :: "BridgeMessage \<Rightarrow> int \<Rightarrow> (errno + nat) list \<Rightarrow> bridge_event list" where
  "to_high m cfd rs = [High (UdpRecv (Inr (Serialize m))), High (Handle cfd 0 rs)]"

definition to_low :: "BridgeMessage \<Rightarrow> bridge_event list" where
  "to_low m = [High UdpSend, Low (GUdpRecv (Inr (Serialize m))), Low TakeMessage]"

text \<open>The request goes up, the verdict comes round, the handshake follows; guacd answers.\<close>

definition ex_bridge :: "bridge_event list" where
  "ex_bridge = map Low ([AcceptClient (\<lambda>_. 5) 7, Start 0] @ turn 0 True False [] ex_hello) @
     [Gate (DenyCheck [])] @ to_gate ex_create @ to_high ex_create (-1) [] @ to_high ex_verdict 9 [] @
     to_low ex_verdict @ map Low (turn 0 False False [] []) @
     [Gate (DenyCheck [0])] @ to_gate ex_input @ to_high ex_input (-1) [Inr 14] @
     [High (Read 0 (Inr (payload ex_output)) 5)] @ to_low ex_output @
     map Low (turn 0 False True [(None, [Inr 11])] [])"

lemma ex_bridge_ran:
  "bridge_ran ex_bridge (\<lambda>b. Queued 0 ex_input \<in> set (low_trace b) \<and> SentTo 9 ex_hello \<in> set (high_trace b) \<and>
     Relayed 0 ''4.sync,1.7;'' \<in> set (low_trace b) \<and> bytes (view_of 0 (sent (gate_trace b))) = ex_hello)"
  by code_simp

section \<open>Properties\<close>

lemma bridge_guard_inv:
  assumes "bridge_run b"
  shows "sys_inv (gate b) (\<lambda>ch. view_of ch (sent (gate_trace b)))"
proof -
  have i: "bridge_inv b" by (rule bridge_run_inv[OF assms])
  have "\<forall>e\<in>set (map fst (gate_trace b)). inert e" using bridge_inert[OF i] by auto
  moreover have "guard_run (gate_trace b) (gate b)" using i by (simp add: bridge_inv_def)
  ultimately show ?thesis using guard_run_inv by blast
qed

text \<open>
  C1: end to end, the policy holds without any assumption on what the guard receives. In every run of the
  three processes, the Guacamole bytes the guard has sent on a channel since its \<open>CREATE\<close> are whole
  well-formed instructions that the policy accepts in that order, then one unfinished instruction whose
  closed elements it still accepts; and they were sent only under an approval, none after a \<open>SHUTDOWN\<close>.
\<close>

theorem bridge_policy:
  assumes "bridge_run b"
  shows "(\<exists>kept cur pt sidx.
      bytes (view_of ch (sent (gate_trace b))) = wire kept @ wire_open cur @ wire_partial pt \<and>
      list_all (instr_ok guard_hooks) kept \<and> list_all (elem_ok guard_hooks) cur \<and>
      partial_ok guard_hooks pt \<and> policies (-1) (map elems kept) = Some sidx \<and>
      policy sidx (elems cur) \<noteq> None) \<and>
    (bytes (view_of ch (sent (gate_trace b))) \<noteq> [] \<longrightarrow> verdict (view_of ch (sent (gate_trace b))) = Some True) \<and>
    \<not> late (view_of ch (sent (gate_trace b)))"
proof -
  let ?v = "view_of ch (sent (gate_trace b))"
  from bridge_guard_inv[OF assms] have c: "stream_ok (gst (gate b)) ch ?v" "session_ok (gst (gate b)) ch ?v"
    by (simp_all add: sys_inv_def chan_inv_def)
  have "(bytes ?v \<noteq> [] \<longrightarrow> verdict ?v = Some True) \<and> \<not> late ?v" using c(2) by (simp add: session_ok_def)
  with stream_policies[OF c(1)] show ?thesis by blast
qed

lemma bridge_policy_witness: "\<exists>b. bridge_run b \<and> verdict (view_of 0 (sent (gate_trace b))) = Some True"
proof (rule bridge_ranE[OF ex_bridge_ran])
  fix b
  assume r: "bridge_run b" "Queued 0 ex_input \<in> set (low_trace b) \<and> SentTo 9 ex_hello \<in> set (high_trace b) \<and>
     Relayed 0 ''4.sync,1.7;'' \<in> set (low_trace b) \<and> bytes (view_of 0 (sent (gate_trace b))) = ex_hello"
  then have "bytes (view_of 0 (sent (gate_trace b))) \<noteq> []" by (simp add: ex_hello_def)
  with bridge_policy[OF r(1), of 0] r(1) show ?thesis by blast
qed

lemma approval_minted:
  assumes "bridge_inv b" and "Took m \<in> set (low_trace b)" and "approval m"
  shows "\<exists>e sds pre post s x. gate_trace b = pre @ (e, sds) # post \<and> guard_run pre s \<and>
    approve_flag (approver (gst s)) \<and> guard_input e = Some (Serialize x) \<and> Serialize m \<in> set sds \<and>
    x \<in> set (bridge_out (low_trace b)) \<and> x = mk_msg (channel m) CREATE_CHANNEL (tl (payload m)) \<and>
    is_valid_request_id (tl (payload m))"
proof -
  from assms(1) have r: "guard_run (gate_trace b) (gate b)" "gml_run (low_trace b) (low b)"
    "gcd_run (high_trace b) (high b)" "links_ok b" by (simp_all add: bridge_inv_def)
  have "gml_gets (low b) (low_trace b) m" using assms(2) by (simp add: gml_gets_def)
  with r(4) have "Datagram (Serialize m) \<in> set (high_trace b) \<or> own_ack m" by (simp add: links_ok_def)
  with assms(3) have "Datagram (Serialize m) \<in> set (high_trace b)" by (auto simp: own_ack_def approval_def)
  with run_verdicts[OF r(3)] assms(3) have "Dequeued m \<in> set (high_trace b)" by (auto simp: verdicts_ok_def)
  then have "gcd_gets (high b) (high_trace b) m" by (simp add: gcd_gets_def)
  with r(4) assms(3) have "Serialize m \<in> set (sent (gate_trace b))" by (auto simp: links_ok_def approval_def)
  then obtain e sds where e: "(e, sds) \<in> set (gate_trace b)" "Serialize m \<in> set sds" by (auto simp: sent_def)
  from guard_run_at[OF r(1) e(1)] obtain pre post s s' where
    t: "gate_trace b = pre @ (e, sds) # post" "guard_run pre s" "guard_step e s = Some (s', sds)" by blast
  have am: "action m = APPROVAL" using assms(3) by (simp add: approval_def)
  from guard_step_approvals[OF t(3) bridge_inert[OF assms(1) e(1)] e(2) am] obtain rr x where
    x: "e = Recv rr" "from_outside (arriving rr) x" "action x = CREATE_CHANNEL" "is_valid_request_id (payload x)"
      "m = verdict_for (approve_flag (approver (gst s))) (channel x) (payload x)" by blast
  from r(4) e(1) have car: "carried (guard_input e) (sent_datagrams (low_trace b))" by (auto simp: links_ok_def)
  from x(1,2) obtain d where d: "guard_input e = Some d" "from_outside (Some d) x" "d \<in> set (sent_datagrams (low_trace b))"
    using car by (cases "arriving rr") (auto simp: guard_input_def carried_def from_outside_def)
  from sent_queued[OF r(2) d(3)] obtain y where
    y: "y \<in> set (bridge_out (low_trace b))" "d = Serialize y" "length (payload y) \<le> MAX_PAYLOAD_SIZE" by blast
  with d(2) have xy: "x = y" by (simp add: from_outside_Serialize)
  have flag: "approve_flag (approver (gst s))" and m: "channel m = channel x" "tl (payload m) = payload x"
    using assms(3) x(5) by (auto simp: approval_def verdict_for_def split: if_splits)
  have "x = mk_msg (channel m) CREATE_CHANNEL (tl (payload m))" using x(3) m by simp
  with t(1,2) flag d(1) y xy e(2) x(4) m(2) show ?thesis by metis
qed

text \<open>
  C2: no session without the guard's own consent. In every run, when a gmlbroker reader has queued a \<open>NONE\<close>
  message, that reader had requested its channel with a valid twelve-digit id, and the guard had answered
  that very request with an approval, in a state in which the operator's switch stood on approve.
\<close>

theorem bridge_consent:
  assumes "bridge_run b" and "Queued i m \<in> set (low_trace b)" and "action m = NONE"
  shows "\<exists>request pre e sds post s. is_valid_request_id request \<and>
    Queued i (mk_msg (channel m) CREATE_CHANNEL request) \<in> set (low_trace b) \<and>
    gate_trace b = pre @ (e, sds) # post \<and> guard_run pre s \<and> approve_flag (approver (gst s)) \<and>
    guard_input e = Some (Serialize (mk_msg (channel m) CREATE_CHANNEL request)) \<and>
    Serialize (mk_msg (channel m) APPROVAL (APPROVAL_APPROVE # request)) \<in> set sds"
proof -
  have inv: "bridge_inv b" by (rule bridge_run_inv[OF assms(1)])
  then have "gml_run (low_trace b) (low b)" by (simp add: bridge_inv_def)
  from run_trace[OF this] have g: "gate_ok (low_trace b)" by (simp add: trace_inv_def)
  from assms(2) obtain us vs where "low_trace b = us @ Queued i m # vs" by (meson split_list)
  with g assms(3) have "approved_in us i (channel m)" unfolding gate_ok_def by blast
  then obtain a request c where u: "us = a @ Took (mk_msg (channel m) APPROVAL (APPROVAL_APPROVE # request)) # c"
    "request = [] \<or> mk_msg (channel m) CREATE_CHANNEL request \<in> set (queued i a)"
    unfolding approved_in_def by blast
  let ?v = "mk_msg (channel m) APPROVAL (APPROVAL_APPROVE # request)"
  have "Took ?v \<in> set (low_trace b)" "approval ?v"
    using u(1) \<open>low_trace b = _\<close> by (simp_all add: approval_def)
  from approval_minted[OF inv this] obtain e sds pre post s where
    g: "gate_trace b = pre @ (e, sds) # post" "guard_run pre s" "approve_flag (approver (gst s))"
      "guard_input e = Some (Serialize (mk_msg (channel m) CREATE_CHANNEL request))" "Serialize ?v \<in> set sds"
      "is_valid_request_id request" by auto
  have "request \<noteq> []" using valid_id_length[OF g(6)] by auto
  with u(2) have "Queued i (mk_msg (channel m) CREATE_CHANNEL request) \<in> set a" by (simp add: queued_in)
  with u(1) \<open>low_trace b = _\<close> g show ?thesis by (metis UnCI list.set_intros(2) set_append)
qed

lemma bridge_consent_witness:
  "\<exists>b s pre post e sds. bridge_run b \<and> gate_trace b = pre @ (e, sds) # post \<and> approve_flag (approver (gst s)) \<and>
     guard_run pre s"
proof (rule bridge_ranE[OF ex_bridge_ran])
  fix b
  assume r: "bridge_run b" "Queued 0 ex_input \<in> set (low_trace b) \<and> SentTo 9 ex_hello \<in> set (high_trace b) \<and>
     Relayed 0 ''4.sync,1.7;'' \<in> set (low_trace b) \<and> bytes (view_of 0 (sent (gate_trace b))) = ex_hello"
  then have "Queued 0 ex_input \<in> set (low_trace b)" "action ex_input = NONE" by (simp_all add: ex_input_def)
  from bridge_consent[OF r(1) this] r(1) show ?thesis by blast
qed

text \<open>
  C3: guacd hears only what the guard let through. In every run, whatever gcdbroker writes to a guacd
  connection is a prefix of the payload of a \<open>NONE\<close> message the guard sent, or of gcdbroker's own
  acknowledgement, which is a list of whole \<open>sync\<close> instructions.
\<close>

theorem bridge_guacd_input:
  assumes "bridge_run b" and "SentTo fd bs \<in> set (high_trace b)"
  shows "\<exists>m n. bs = take n (payload m) \<and> action m = NONE \<and>
    (Serialize m \<in> set (sent (gate_trace b)) \<or> (\<exists>tss. payload m = wire (map sync_instr tss)))"
proof -
  have inv: "bridge_inv b" by (rule bridge_run_inv[OF assms(1)])
  then have g: "gcd_run (high_trace b) (high b)" and l: "links_ok b" by (simp_all add: bridge_inv_def)
  from assms(2) obtain us vs where tr: "high_trace b = us @ SentTo fd bs # vs" by (meson split_list)
  with run_gate[OF g] obtain front m n where m: "us = front @ [Dequeued m]" "action m = NONE" "bs = take n (payload m)"
    unfolding gate_inv_def sends_ok_def by blast
  with tr have "gcd_gets (high b) (high_trace b) m" by (simp add: gcd_gets_def)
  with l have "Serialize m \<in> set (sent (gate_trace b)) \<or> sync_acks (payload m)" by (auto simp: links_ok_def)
  with m(2,3) show ?thesis unfolding sync_acks_def by blast
qed

lemma bridge_guacd_input_witness:
  "\<exists>b m n. bridge_run b \<and> ex_hello = take n (payload m) \<and> action m = NONE \<and>
     (Serialize m \<in> set (sent (gate_trace b)) \<or> (\<exists>tss. payload m = wire (map sync_instr tss)))"
proof (rule bridge_ranE[OF ex_bridge_ran])
  fix b
  assume r: "bridge_run b" "Queued 0 ex_input \<in> set (low_trace b) \<and> SentTo 9 ex_hello \<in> set (high_trace b) \<and>
     Relayed 0 ''4.sync,1.7;'' \<in> set (low_trace b) \<and> bytes (view_of 0 (sent (gate_trace b))) = ex_hello"
  then have "SentTo 9 ex_hello \<in> set (high_trace b)" by simp
  from bridge_guacd_input[OF r(1) this] r(1) show ?thesis by blast
qed

text \<open>
  C4: a browser hears only its own session. In every run, whatever a reader relays to its browser is a
  prefix of a chunk given by a message on that reader's own channel which gcdbroker sent, or which is
  gmlbroker's own clipboard acknowledgement.
\<close>

theorem bridge_browser_output:
  assumes "bridge_run b" and "Relayed i x \<in> set (low_trace b)"
  shows "i < length (g_threads (low b)) \<and> (\<exists>m c n. channel m = gr_channel (g_threads (low b) ! i) \<and>
    gives_chunk m c \<and> x = take n c \<and>
    (Datagram (Serialize m) \<in> set (high_trace b) \<or>
     action m = NONE \<and> (\<exists>idxs. payload m = concat (map make_ack idxs))))"
proof -
  have inv: "bridge_inv b" by (rule bridge_run_inv[OF assms(1)])
  then have g: "gml_run (low_trace b) (low b)" and l: "links_ok b" by (simp_all add: bridge_inv_def)
  from assms(2) obtain us vs where tr: "low_trace b = us @ Relayed i x # vs" by (meson split_list)
  with run_return[OF g] have i: "i < length (g_threads (low b))" and
    "\<exists>c n. x = take n c \<and> returned us (gr_channel (g_threads (low b) ! i)) c"
    unfolding return_inv_def relays_ok_def by blast+
  then obtain c n m where m: "x = take n c" "Took m \<in> set us" "channel m = gr_channel (g_threads (low b) ! i)"
    "gives_chunk m c" by (auto simp: returned_def)
  have "gml_gets (low b) (low_trace b) m" using m(2) tr by (simp add: gml_gets_def)
  with l have "Datagram (Serialize m) \<in> set (high_trace b) \<or> own_ack m" by (simp add: links_ok_def)
  with i m show ?thesis unfolding own_ack_def clip_acks_def by blast
qed

lemma bridge_browser_output_witness:
  "\<exists>b m c n. bridge_run b \<and> channel m = gr_channel (g_threads (low b) ! 0) \<and> gives_chunk m c \<and>
     ''4.sync,1.7;'' = take n c"
proof (rule bridge_ranE[OF ex_bridge_ran])
  fix b
  assume r: "bridge_run b" "Queued 0 ex_input \<in> set (low_trace b) \<and> SentTo 9 ex_hello \<in> set (high_trace b) \<and>
     Relayed 0 ''4.sync,1.7;'' \<in> set (low_trace b) \<and> bytes (view_of 0 (sent (gate_trace b))) = ex_hello"
  then have "Relayed 0 ''4.sync,1.7;'' \<in> set (low_trace b)" by simp
  from bridge_browser_output[OF r(1) this] r(1) show ?thesis by blast
qed

end
