(* ===== verification/Bridge_Limits.thy ===== *)
theory Bridge_Limits imports Bridge_System begin

text \<open>
  Where components meet: the operator's toggle relayed by \<open>gmlbroker\<close> to the guard, the request ids
  \<open>gmlbroker\<close> makes and the guard checks, and two ways in which the bytes of an innocent browser reach the
  guard out of frame.
\<close>

section \<open>The relay of toggles\<close>

lemma relayed_words: "ParseApprovalToggle ''approve'' = Some True" "ParseApprovalToggle ''deny'' = Some False"
  by code_simp+

lemma Receive_words:
  "Receive CONTROL_BUF (Inr ''approve'') = (7, ''approve'')" "Receive CONTROL_BUF (Inr ''deny'') = (4, ''deny'')"
  by code_simp+

text \<open>
  The relay neither adds nor loses a toggle. Whatever a datagram on gmlbroker's control port holds, what
  the relay makes of it has on the guard exactly the effect the datagram itself would have had; when it
  relays nothing the datagram would have had none.
\<close>

theorem toggle_relay_transparent:
  "control_receive r s = (case control_relay r of None \<Rightarrow> s | Some d \<Rightarrow> control_receive (Inr d) s)"
proof -
  obtain n raw where rc: "Receive 256 r = (n, raw)" by fastforce
  have rc': "Receive CONTROL_BUF r = (n, raw)" using rc by (simp add: CONTROL_BUF_def)
  show ?thesis
  proof (cases "n \<le> 0 \<or> ParseApprovalToggle raw = None")
    case True
    then show ?thesis by (auto simp: control_receive_def control_relay_def rc rc')
  next
    case False
    then obtain mode where "ParseApprovalToggle raw = Some mode" by auto
    with False show ?thesis
      by (cases mode) (simp_all add: control_receive_def control_relay_def rc rc' Receive_words relayed_words)
  qed
qed

section \<open>Request ids\<close>

text \<open>
  Every request gmlbroker makes is one the guard answers: whatever the random draws, the id has the
  length and the digits the guard's check asks for, so the \<open>CREATE\<close> is forwarded and followed by a verdict
  that names the id.
\<close>

theorem request_answered:
  assumes "draws_ok draws" and "m = mk_msg ch CREATE_CHANNEL (make_request_id draws)"
  shows "take 2 (snd (handle_datagram (Serialize m) g)) =
    [Serialize m, Serialize (verdict_for (approve_flag (approver g)) ch (make_request_id draws))]"
proof -
  have hex: "is_hex (hex_digits ! d)" if "d \<le> 15" for d
  proof -
    have "list_all is_hex hex_digits" by code_simp
    moreover have "d < length hex_digits" using that by (simp add: hex_digits_def)
    ultimately show ?thesis by (simp add: list_all_length)
  qed
  have len: "length (make_request_id draws) = 12" by (rule length_make_request_id[OF assms(1)])
  have "list_all is_hex (make_request_id draws)"
    using assms(1) hex by (auto simp: make_request_id_eq draws_ok_def list_all_iff dest: in_set_takeD)
  with len have v: "is_valid_request_id (make_request_id draws)"
    by (simp add: is_valid_request_id_def REQUEST_ID_LEN_def)
  have "TryCast (Some (Serialize m)) = Some m" using len assms(2) by (simp add: size_defs)
  with v assms(2) show ?thesis
    by (simp add: handle_datagram_def handle_create_def HandleRequest_def verdict_for_def Let_def)
qed

lemma request_answered_witness:
  "take 2 (snd (handle_datagram (Serialize (mk_msg 3 CREATE_CHANNEL (make_request_id (replicate 12 10)))) new_guard)) =
   [Serialize (mk_msg 3 CREATE_CHANNEL (make_request_id (replicate 12 10))),
    Serialize (mk_msg 3 APPROVAL (APPROVAL_APPROVE # make_request_id (replicate 12 10)))]"
proof -
  have "draws_ok (replicate 12 10)" by (simp add: draws_ok_def list_all_iff)
  from request_answered[OF this refl, of 3 new_guard] show ?thesis
    by (simp add: verdict_for_def new_guard_def new_Approver_def)
qed

section \<open>Bytes out of frame\<close>

text \<open>What \<open>pipe_work\<close> sends of successive reads.\<close>

fun filtered :: "unit parser \<Rightarrow> string list \<Rightarrow> string list" where
  "filtered p [] = []"
| "filtered p (d # ds) =
     (case keepalive_Filter p d (length d) of
        (d', len, p') \<Rightarrow> (if len > 0 then [take len d'] else []) @ filtered p' ds)"

definition guard_states :: "string list \<Rightarrow> ParserState list" where
  "guard_states ds = fst (parse_chunks guard_hooks (new_parser new_guard_fields) ds)"


definition ex_waiting_reader :: gml_reader where
  "ex_waiting_reader = (new_gml_reader (\<lambda>_. 5) 3 7)
     \<lparr>gr_forger := new_parser (new_forger_fields\<lparr>hs_state := ESTABLISHED, handshake_raw := ''7.connect;''\<rparr>)\<rparr>"

text \<open>
  Input that straddles the approval corrupts the stream as well: the first part of an instruction is
  dropped while the session waits, the rest is piped once the flag is up, and the guard, which has just
  seen the whole replay, is handed the tail of an instruction.
\<close>

theorem straddling_input_corrupts:
  "let r0 = ex_waiting_reader; (r1, e1) = pipe_work False ''3.ke'' r0; (r2, e2) = pipe_work True ''y,2.65,1.1;'' r1
   in map payload (to_bridge e1) = [] \<and> map payload (to_bridge e2) = [''7.connect;'', ''y,2.65,1.1;''] \<and>
      guard_states [''7.connect;'', ''y,2.65,1.1;''] = [READING_LENGTH, STREAM_CORRUPTED]"
  by code_simp

end
