(* ===== verification/Bridge_Smuggle.thy ===== *)
theory Bridge_Smuggle imports Bridge_Limits Guard_Theorems Gcd_Theorems begin

text \<open>
  What a compromised low side can do with a second \<open>CREATE\<close> on a channel that is in use: the guard starts that
  channel's parser afresh, \<open>gcdbroker\<close> keeps the connection to guacd it has, and from then on the two read the
  same bytes differently.
\<close>

definition other_rid :: string where "other_rid = ''ba9876543210''"

definition ex_smuggle :: "event list" where
  "ex_smuggle =
     [DenyCheck [], recv_msg 7 CREATE_CHANNEL ex_rid, DenyCheck [7], recv_msg 7 NONE ''3.key,10.'', DenyCheck [7],
      recv_msg 7 CREATE_CHANNEL other_rid, DenyCheck [7],
      recv_msg 7 NONE ''4.name,18.;3.put,1.0,1.x,1.y;'']"

text \<open>\<open>gcdbroker\<close> takes the guard's datagrams, then handles them one by one; the second dial gives descriptor 10.\<close>

definition ex_relay :: "string list \<Rightarrow> gcd_event list" where
  "ex_relay ds = map (\<lambda>d. UdpRecv (Inr d)) ds @
     [Handle (-1) 0 [], Handle 9 0 [], Handle (-1) 0 [Inr 10], Handle (-1) 0 [], Handle 10 0 [], Handle (-1) 0 [Inr 29]]"

fun given :: "fd \<Rightarrow> obs list \<Rightarrow> string" where
  "given fd [] = []"
| "given fd (SentTo fd' bs # os) = (if fd' = fd then bs else []) @ given fd os"
| "given fd (_ # os) = given fd os"

definition smuggled :: "instr list" where
  "smuggled =
     [[(''3'', ''key''), (''10'', ''4.name,18.'')], [(''3'', ''put''), (''1'', ''0''), (''1'', ''x''), (''1'', ''y'')]]"

lemma ex_smuggle_ran:
  "ran ex_smuggle (\<lambda>s tr. 7 \<in> approved (gst s) \<and>
     gcd_ran (ex_relay (sent tr)) (\<lambda>c os. open_fds c = [9] \<and> given 9 os = wire smuggled))"
  by code_simp

text \<open>
  C39: a forged \<open>CREATE\<close> does reset a live channel, and with it what the policy guarantees of the stream. There is
  a run of the guard, under the default policy, in which a second well-formed request for an approved
  channel arrives in the middle of an instruction, and a run of gcdbroker on exactly the datagrams the
  guard sent, in order, after which guacd has been handed, on one connection that is still open, the
  complete instruction \<open>put\<close>, an opcode the guard denies. The same two payloads without the request between
  them are denied.
\<close>

theorem second_create_smuggles:
  "\<exists>tr s os c. guard_run tr s \<and> map fst tr = ex_smuggle \<and> 7 \<in> approved (gst s) \<and>
     gcd_exec (ex_relay (sent tr)) (new_gcd None) = Some (c, os) \<and> open_fds c = [9] \<and>
     given 9 os = wire smuggled \<and> map (snd \<circ> hd) smuggled = [''key'', ''put''] \<and> \<not> IsAllowedOpcode ''put'' \<and>
     guard_states [''3.key,10.'', ''4.name,18.;3.put,1.0,1.x,1.y;''] = [READING_DATA, DENIED_DATA]"
proof (rule ranE[OF ex_smuggle_ran])
  fix s tr
  assume r: "guard_run tr s" "map fst tr = ex_smuggle" "7 \<in> approved (gst s) \<and>
     gcd_ran (ex_relay (sent tr)) (\<lambda>c os. open_fds c = [9] \<and> given 9 os = wire smuggled)"
  then obtain c os where "gcd_exec (ex_relay (sent tr)) (new_gcd None) = Some (c, os)"
    "open_fds c = [9]" "given 9 os = wire smuggled"
    by (auto simp: gcd_ran_def split: option.splits)
  moreover have "map (snd \<circ> hd) smuggled = [''key'', ''put'']" "\<not> IsAllowedOpcode ''put''"
    "guard_states [''3.key,10.'', ''4.name,18.;3.put,1.0,1.x,1.y;''] = [READING_DATA, DENIED_DATA]" by code_simp+
  ultimately show ?thesis using r(1,2) conjunct1[OF r(3)] by (intro exI conjI)
qed

end
