(* ===== verification/Stage.thy ===== *)
theory Stage imports Prelude begin

text \<open>
  One process of a pipeline, seen from one session. A run of the process takes in a list of items and makes
  a list of items; \<open>conserved\<close> relates the two to the state, up to a step after which the session is over
  and stays so. What holds after each step then holds of the lists of a whole run.
\<close>

section \<open>Runs with what they take in\<close>

fun stage_run ::
  "('e \<Rightarrow> 's \<Rightarrow> ('s \<times> 'o list) option) \<Rightarrow> ('s \<Rightarrow> 'e \<Rightarrow> 'a list) \<Rightarrow> 'e list \<Rightarrow> 's \<Rightarrow> ('s \<times> 'a list \<times> 'o list) option" where
  "stage_run step arr [] s = Some (s, [], [])"
| "stage_run step arr (e # es) s =
     (case step e s of
        None \<Rightarrow> None
      | Some (s1, os) \<Rightarrow>
          (case stage_run step arr es s1 of
             None \<Rightarrow> None
           | Some (s2, xs, tr) \<Rightarrow> Some (s2, arr s e @ xs, os @ tr)))"

locale stage =
  fixes step :: "'e \<Rightarrow> 's \<Rightarrow> ('s \<times> 'o list) option"
    and arr :: "'s \<Rightarrow> 'e \<Rightarrow> 'a list"
    and made :: "'o list \<Rightarrow> 'b list"
    and ok :: "'s \<Rightarrow> bool"
    and good :: "'a \<Rightarrow> bool"
    and dead :: "'s \<Rightarrow> bool"
    and conserved :: "'a list \<Rightarrow> 's \<Rightarrow> 'b list \<Rightarrow> bool"
  assumes made_append: "made (os @ tr) = made os @ made tr" and made_Nil: "made [] = []"
    and ok_step: "ok s \<Longrightarrow> step e s = Some (s', os) \<Longrightarrow> ok s'"
    and dead_step: "ok s \<Longrightarrow> dead s \<Longrightarrow> step e s = Some (s', os) \<Longrightarrow> list_all good (arr s e) \<Longrightarrow> dead s'"
    and conserved_step: "ok s \<Longrightarrow> \<not> dead s \<Longrightarrow> conserved xs s ys \<Longrightarrow> step e s = Some (s', os) \<Longrightarrow>
      list_all good (arr s e) \<Longrightarrow> dead s' \<or> conserved (xs @ arr s e) s' (ys @ made os)"
begin

lemma run_dead:
  "stage_run step arr es s = Some (s', xs, tr) \<Longrightarrow> ok s \<Longrightarrow> dead s \<Longrightarrow> list_all good xs \<Longrightarrow> dead s'"
proof (induction es arbitrary: s xs tr)
  case (Cons e es)
  from Cons.prems(1) obtain s1 os xs1 tr1 where
    st: "step e s = Some (s1, os)" "stage_run step arr es s1 = Some (s', xs1, tr1)" "xs = arr s e @ xs1"
    by (auto split: option.splits)
  with Cons.prems Cons.IH[OF st(2) ok_step[OF Cons.prems(2) st(1)] dead_step[OF Cons.prems(2,3) st(1)]]
  show ?case by simp
qed simp

theorem run_conserved:
  "stage_run step arr es s = Some (s', xs, tr) \<Longrightarrow> ok s \<Longrightarrow> conserved xs0 s ys0 \<Longrightarrow> list_all good xs \<Longrightarrow> \<not> dead s' \<Longrightarrow>
   conserved (xs0 @ xs) s' (ys0 @ made tr)"
proof (induction es arbitrary: s xs tr xs0 ys0)
  case Nil
  then show ?case by (simp add: made_Nil)
next
  case (Cons e es)
  from Cons.prems(1) obtain s1 os xs1 tr1 where
    st: "step e s = Some (s1, os)" "stage_run step arr es s1 = Some (s', xs1, tr1)" "xs = arr s e @ xs1" "tr = os @ tr1"
    by (auto split: option.splits)
  have g: "list_all good (arr s e)" "list_all good xs1" using Cons.prems(4) st(3) by simp_all
  have ok1: "ok s1" by (rule ok_step[OF Cons.prems(2) st(1)])
  have "\<not> dead s1" using run_dead[OF st(2) ok1 _ g(2)] Cons.prems(5) by blast
  moreover have "\<not> dead s" using dead_step[OF Cons.prems(2) _ st(1) g(1)] calculation by blast
  ultimately have "conserved (xs0 @ arr s e) s1 (ys0 @ made os)"
    using conserved_step[OF Cons.prems(2) _ Cons.prems(3) st(1) g(1)] by blast
  from Cons.IH[OF st(2) ok1 this g(2) Cons.prems(5)] show ?case by (simp add: st(3,4) made_append)
qed

end

end
