(* ===== verification/Delivery.thy ===== *)
theory Delivery imports Bridge_Claims begin

text \<open>
  Delivery over the whole bridge when nothing is lost: the other half of the safety properties. Once a
  session is open at all three processes, what the browser types reaches guacd, less what the filters are
  there to remove, and what guacd draws reaches the browser unchanged. The schedule is given: it is
  each process's turn in the order of the path.
\<close>

section \<open>Events of one process inside the bridge\<close>

lemma bridge_exec_trans:
  "bridge_exec es b = Some b1 \<Longrightarrow> bridge_exec fs b1 = Some b2 \<Longrightarrow> bridge_exec (es @ fs) b = Some b2"
  by (induction es arbitrary: b) (auto split: option.splits)

lemma gml_exec_append:
  "gml_exec (es @ fs) s = (case gml_exec es s of
     None \<Rightarrow> None
   | Some (s', tr) \<Rightarrow> (case gml_exec fs s' of None \<Rightarrow> None | Some (s'', tr') \<Rightarrow> Some (s'', tr @ tr')))"
  by (induction es arbitrary: s) (auto split: option.splits)

lemma bridge_exec_low:
  assumes "gml_exec es (low b) = Some (s, tr)" and "\<forall>e\<in>set es. gml_input e = None"
  shows "bridge_exec (map Low es) b = Some (b\<lparr>low := s, low_trace := low_trace b @ tr\<rparr>)"
  using assms
proof (induction es arbitrary: b tr)
  case (Cons e es)
  from Cons.prems(1) obtain s1 os tr1 where
    e: "gml_step e (low b) = Some (s1, os)" "gml_exec es s1 = Some (s, tr1)" "tr = os @ tr1"
    by (auto split: option.splits)
  with Cons.prems(2) Cons.IH[of "b\<lparr>low := s1, low_trace := low_trace b @ os\<rparr>" tr1] show ?case
    by (simp add: carried_def)
qed simp

section \<open>From the browser to the bridge\<close>

definition only_sock :: polled where
  "only_sock = \<lparr>sock_ready = True, mail_ready = False, other_event = False, ssl_pending = False\<rparr>"

text \<open>One iteration of reader \<open>i\<close> that reads \<open>data\<close>.\<close>

definition reads :: "nat \<Rightarrow> string \<Rightarrow> gml_event list" where
  "reads i data = [Poll i (Inr only_sock), MailWork i [], SockWork i None (Inr data) (replicate 12 0) 0]"

text \<open>Reader \<open>i\<close> serves a session that has been approved and replayed, and stands between instructions.\<close>

definition open_low :: "nat \<Rightarrow> channel \<Rightarrow> gml \<Rightarrow> bool" where
  "open_low i ch s \<longleftrightarrow> i < length (g_threads s) \<and> queue (g_send s) = [] \<and>
     (let r = g_threads s ! i in gr_channel r = ch \<and> gr_pc r = AtPoll \<and> replayed r \<and> established r \<and>
        at_pos (gr_keepalive r) [] (PLen []))"

text \<open>The message that carries instructions, if there are any.\<close>

definition packet :: "channel \<Rightarrow> instr list \<Rightarrow> BridgeMessage list" where
  "packet ch is = (if is = [] then [] else [mk_msg ch NONE (wire is)])"

abbreviation typed :: "channel \<Rightarrow> instr list \<Rightarrow> BridgeMessage list" where
  "typed ch is \<equiv> packet ch (filter (\<lambda>i. \<not> is_keepalive i) is)"

lemma instr_ok_keepalive: "instr_ok guard_hooks i \<Longrightarrow> instr_ok keepalive_hooks i"
  by (auto simp: instr_ok_def elem_ok_def limit_def list_all_iff MAX_ELEMENT_SIZE_def)

lemma wire_filter_le: "length (wire (filter P is)) \<le> length (wire is)"
  by (induction "is") auto

lemma pipe_typed:
  assumes "replayed r" and "at_pos (gr_keepalive r) [] (PLen [])" and "list_all (instr_ok guard_hooks) is"
  shows "\<exists>r' acked. pipe_work flag (wire is) r = (r', no_effects\<lparr>to_self := acked, to_bridge := typed (gr_channel r) is\<rparr>) \<and>
    gr_channel r' = gr_channel r \<and> gr_pc r' = AtPoll \<and> replayed r' \<and> established r' = established r \<and>
    at_pos (gr_keepalive r') [] (PLen [])"
proof -
  obtain aks cp where c: "clip_Feed (gr_clip r) (wire is) = (aks, cp)" by fastforce
  obtain data len kp where k: "keepalive_Filter (gr_keepalive r) (wire is) (length (wire is)) = (data, len, kp)"
    by (metis prod_cases3)
  have "list_all (instr_ok keepalive_hooks) is" using assms(3) instr_ok_keepalive by (auto simp: list_all_iff)
  from keepalive_instrs[OF assms(2) this k] have
    t: "take len data = wire (filter (\<lambda>i. \<not> is_keepalive i) is)" "at_pos kp [] (PLen [])" "len \<le> length data"
    by simp_all
  then have "len > 0 \<longleftrightarrow> wire (filter (\<lambda>i. \<not> is_keepalive i) is) \<noteq> []"
    by (cases "len = 0") (auto simp del: at_pos.simps)
  with assms(1) c k t show ?thesis
    by (auto simp: pipe_work_def maybe_replay_def packet_def Let_def established_def wire_eq_Nil)
qed

lemma low_reads:
  assumes o: "open_low i ch s" and ok: "list_all (instr_ok guard_hooks) is" and ne: "is \<noteq> []"
    and len: "length (wire is) \<le> MAX_PAYLOAD_SIZE"
  shows "\<exists>s'. gml_exec (reads i (wire is)) s = Some (s', map (Queued i) (typed ch is)) \<and>
    queue (g_send s') = typed ch is \<and> (\<forall>q. open_low i ch (s'\<lparr>g_send := q\<lparr>queue := []\<rparr>\<rparr>))"
proof -
  let ?r = "g_threads s ! i"
  have r: "i < length (g_threads s)" "queue (g_send s) = []" "gr_channel ?r = ch" "gr_pc ?r = AtPoll" "replayed ?r"
    "established ?r" "at_pos (gr_keepalive ?r) [] (PLen [])"
    using o by (simp_all add: open_low_def Let_def)
  let ?r1 = "?r\<lparr>gr_pc := AtSock only_sock\<rparr>"
  let ?s1 = "set_reader i ?r1 s"
  have p: "gml_exec [Poll i (Inr only_sock), MailWork i []] s = Some (?s1, [])"
    using r by (auto simp: pc_of_def set_reader_def mail_step_def poll_ok_def only_sock_def Let_def
        split: option.splits)
  have rc: "server_Receive None (MAX_PAYLOAD_SIZE + 1) (Inr (wire is)) = (int (length (wire is)), wire is)"
    using len by (simp add: server_Receive_def Let_def)
  have pos: "length (wire is) > 0" using ne wire_eq_Nil[of "is"] by simp
  define flag where "flag = load_flag (gr_approved ?r) (g_approvals s)"
  obtain r' acked where w: "pipe_work flag (wire is) ?r1 = (r', no_effects\<lparr>to_self := acked, to_bridge := typed ch is\<rparr>)"
    "gr_channel r' = ch" "gr_pc r' = AtPoll" "replayed r'" "established r'" "at_pos (gr_keepalive r') [] (PLen [])"
    using pipe_typed[of ?r1 "is" flag] r ok by (auto simp: established_def)
  have sw: "sock_work None (Inr (wire is)) (replicate 12 0) 0 flag only_sock ?r1 =
      ((r', None), no_effects\<lparr>to_self := acked, to_bridge := typed ch is\<rparr>)"
    using rc pos w(1) r by (simp add: sock_work_def only_sock_def RETRY_def established_def)
  have d: "draws_ok (replicate 12 0)" by (simp add: draws_ok_def list_all_iff)
  have g: "g_threads ?s1 ! i = ?r1" "g_approvals ?s1 = g_approvals s" "gr_approved ?r1 = gr_approved ?r"
    "pc_of i ?s1 = Some (AtSock only_sock)"
    using r by (simp_all add: set_reader_def pc_of_def)
  let ?e = "SockWork i None (Inr (wire is)) (replicate 12 0) 0"
  obtain s2 os where c: "commit Replied i r' (no_effects\<lparr>to_self := acked, to_bridge := typed ch is\<rparr>) ?s1 = (s2, os)"
    by fastforce
  have "gml_step ?e ?s1 = Some (s2, os)" using d g sw c by (simp add: sock_step_def flag_def Let_def)
  then have "gml_exec [?e] ?s1 = Some (s2, os)" by (simp del: gml_step.simps)
  with p gml_exec_append[of "[Poll i (Inr only_sock), MailWork i []]" "[?e]" s]
  have "gml_exec (reads i (wire is)) s = Some (s2, os)"
    by (simp only: reads_def append.simps option.case prod.case append_Nil)
  then show ?thesis using r w c by (auto simp: commit_def no_effects_def set_reader_def open_low_def Let_def)
qed

section \<open>Through the guard\<close>

text \<open>Channel \<open>ch\<close> is approved, stands between instructions, and has the clipboard stream \<open>sidx\<close> open.\<close>

definition open_gate :: "channel \<Rightarrow> int \<Rightarrow> gsys \<Rightarrow> bool" where
  "open_gate ch sidx s \<longleftrightarrow> mpc s = AtDenyCheck \<and> \<not> deny_teardown (gst s) \<and> ch \<in> approved (gst s) \<and>
     ch \<notin> poisoned (gst s) \<and>
     (case parsers (gst s) ch of
        None \<Rightarrow> False
      | Some p \<Rightarrow> at_pos p [] (PLen []) \<and> clipboard_sidx (sub p) = sidx)"

lemma gate_passes:
  assumes o: "open_gate ch sidx s" and ok: "list_all (instr_ok guard_hooks) is" and ne: "is \<noteq> []"
    and len: "length (wire is) \<le> MAX_PAYLOAD_SIZE"
  shows "\<exists>order s1 s2. guard_step (DenyCheck order) s = Some (s1, []) \<and>
    guard_step (Recv (Inr (Serialize (mk_msg ch NONE (wire is))))) s1 =
      Some (s2, map Serialize (packet ch (policy_filter sidx is))) \<and>
    open_gate ch (policy_state sidx is) s2"
proof -
  from o obtain p where p: "parsers (gst s) ch = Some p" "at_pos p [] (PLen [])" "clipboard_sidx (sub p) = sidx"
    by (auto simp: open_gate_def split: option.splits)
  obtain order where "traverses order (approved (gst s))"
    using finite_distinct_list[of "approved (gst s)"] by (auto simp: traverses_def)
  moreover have "act_on_deny order (gst s) = (gst s, [])" using o by (simp add: open_gate_def act_on_deny_def)
  ultimately have d: "guard_step (DenyCheck order) s = Some (s\<lparr>mpc := AtReceive\<rparr>, [])"
    using o by (simp add: open_gate_def)
  let ?m = "mk_msg ch NONE (wire is)"
  from instrs_payload[OF _ _ p(1,2) ok] o p(3) ne obtain p' where
    h: "handle_payload (Serialize ?m) ?m (gst s) = ((gst s)\<lparr>parsers := (parsers (gst s))(ch := Some p')\<rparr>,
        map Serialize (packet ch (policy_filter sidx is)))"
      "at_pos p' [] (PLen [])" "clipboard_sidx (sub p') = policy_state sidx is"
    by (auto simp: open_gate_def packet_def Let_def simp del: at_pos.simps)
  let ?s2 = "s\<lparr>gst := (gst s)\<lparr>parsers := (parsers (gst s))(ch := Some p')\<rparr>, mpc := AtDenyCheck\<rparr>"
  have "guard_step (Recv (Inr (Serialize ?m))) (s\<lparr>mpc := AtReceive\<rparr>) =
      Some (?s2, map Serialize (packet ch (policy_filter sidx is)))"
    using len h(1) by (simp add: guard_receive_msg handle_msg)
  moreover have "open_gate ch (policy_state sidx is) ?s2"
    using o h(2,3) by (simp add: open_gate_def del: at_pos.simps)
  ultimately show ?thesis using d by blast
qed

section \<open>To guacd\<close>

definition open_high :: "channel \<Rightarrow> fd \<Rightarrow> gcd \<Rightarrow> bool" where
  "open_high ch fd s \<longleftrightarrow> \<not> guacd_send_done s \<and> \<not> udp_recv_done s \<and> queue (recv_queue s) = [] \<and>
     Get ch (tbl s) = Some fd \<and> fd \<ge> 0"

lemma high_writes:
  assumes o: "open_high ch fd s" and m: "m = mk_msg ch NONE p" "p \<noteq> []" "length p \<le> MAX_PAYLOAD_SIZE"
  shows "\<exists>cfd s1 s2. gcd_step (UdpRecv (Inr (Serialize m))) s = Some (s1, []) \<and>
    gcd_step (Handle cfd 0 [Inr (length p)]) s1 = Some (s2, [Dequeued m, SentTo fd p]) \<and> open_high ch fd s2"
proof -
  obtain cfd where cfd: "cfd \<notin> set (open_fds s)" using ex_new_if_finite[OF infinite_UNIV_int] by blast
  let ?s1 = "s\<lparr>recv_queue := Enqueue m (recv_queue s)\<rparr>"
  have r: "gcd_step (UdpRecv (Inr (Serialize m))) s = Some (?s1, [])"
    using o m by (simp add: open_high_def udp_recv_Serialize)
  have q: "Dequeue (recv_queue ?s1) = (Got m, (recv_queue ?s1)\<lparr>queue := []\<rparr>)"
    using o by (simp add: open_high_def Dequeue_def)
  have w: "guacd_Send fd p [Inr (length p)] = (Some (int (length p)), [p])"
    using o m(2) by (simp add: open_high_def guacd_Send_def)
  have "cfd \<notin> set (open_fds ?s1)" using cfd by (simp add: open_fds_def)
  with o q w m have "gcd_step (Handle cfd 0 [Inr (length p)]) ?s1 =
      Some (?s1\<lparr>recv_queue := (recv_queue ?s1)\<lparr>queue := []\<rparr>\<rparr>, [Dequeued m, SentTo fd p])"
    by (simp add: open_high_def handle_message_def handle_data_def)
  with r o show ?thesis by (intro exI conjI) (assumption | simp add: open_high_def)+
qed

section \<open>The whole way up\<close>

definition open_session :: "nat \<Rightarrow> channel \<Rightarrow> fd \<Rightarrow> int \<Rightarrow> bridge \<Rightarrow> bool" where
  "open_session i ch fd sidx b \<longleftrightarrow>
     open_low i ch (low b) \<and> open_gate ch sidx (gate b) \<and> open_high ch fd (high b)"

text \<open>What the reader \<open>i\<close> was given in a schedule, and what guacd was given on a connection.\<close>

definition read_by :: "nat \<Rightarrow> bridge_event \<Rightarrow> string list" where
  "read_by i e = (case e of
     Low (SockWork j tls (Inr data) draws ms) \<Rightarrow> if j = i then [data] else []
   | _ \<Rightarrow> [])"

definition guacd_got :: "fd \<Rightarrow> obs list \<Rightarrow> string" where
  "guacd_got fd tr = concat (map (\<lambda>x. case x of SentTo g bs \<Rightarrow> if g = fd then bs else [] | _ \<Rightarrow> []) tr)"

lemma guacd_got_append [simp]: "guacd_got fd (xs @ ys) = guacd_got fd xs @ guacd_got fd ys"
  by (simp add: guacd_got_def)

lemma keepalive_denied: "is_keepalive i \<Longrightarrow> policy s (elems i) = None"
  by (cases "elems i") (auto simp: is_keepalive_def allowlist_def)

lemma policy_filter_keepalive: "policy_filter s (filter (\<lambda>i. \<not> is_keepalive i) is) = policy_filter s is"
proof (induction "is" arbitrary: s)
  case (Cons i "is")
  with keepalive_denied[of i s] show ?case by (auto split: option.splits)
qed simp

lemma policy_state_keepalive: "policy_state s (filter (\<lambda>i. \<not> is_keepalive i) is) = policy_state s is"
proof (induction "is" arbitrary: s)
  case (Cons i "is")
  with keepalive_denied[of i s] show ?case by auto
qed simp

lemma policy_filter_le: "length (wire (policy_filter s is)) \<le> length (wire is)"
  by (induction "is" arbitrary: s) (auto split: option.splits intro: le_trans[OF _ le_add2])

text \<open>One datagram from the guard on.\<close>

lemma upper_half:
  assumes "open_gate ch sidx (gate b)" and "open_high ch fd (high b)" and "list_all (instr_ok guard_hooks) is"
    and "is \<noteq> []" and "length (wire is) \<le> MAX_PAYLOAD_SIZE"
    and "Serialize (mk_msg ch NONE (wire is)) \<in> set (sent_datagrams (low_trace b))"
  shows "\<exists>es b'. bridge_exec es b = Some b' \<and> concat (map (read_by i) es) = [] \<and> low b' = low b \<and>
    low_trace b' = low_trace b \<and> open_gate ch (policy_state sidx is) (gate b') \<and> open_high ch fd (high b') \<and>
    guacd_got fd (high_trace b') = guacd_got fd (high_trace b) @ wire (policy_filter sidx is)"
proof -
  let ?m = "mk_msg ch NONE (wire is)" and ?kept = "policy_filter sidx is"
  from gate_passes[OF assms(1,3-5)] obtain order s1 s2 where
    g: "guard_step (DenyCheck order) (gate b) = Some (s1, [])"
      "guard_step (Recv (Inr (Serialize ?m))) s1 = Some (s2, map Serialize (packet ch ?kept))"
      "open_gate ch (policy_state sidx is) s2" by blast
  let ?es = "[Gate (DenyCheck order), Gate (Recv (Inr (Serialize ?m)))]"
  let ?b = "b\<lparr>gate := s2, gate_trace := (gate_trace b @ [(DenyCheck order, [])]) @
    [(Recv (Inr (Serialize ?m)), map Serialize (packet ch ?kept))]\<rparr>"
  have e: "bridge_exec ?es b = Some ?b"
    using g assms(6) by (simp add: carried_def guard_input_def arriving_def del: guard_step.simps)
  show ?thesis
  proof (cases "?kept = []")
    case True
    with e g(3) assms(2) show ?thesis
      by (intro exI[of _ ?es] exI[of _ ?b]) (simp add: read_by_def del: bridge_exec.simps)
  next
    case False
    then have k: "wire ?kept \<noteq> []" "length (wire ?kept) \<le> MAX_PAYLOAD_SIZE" "packet ch ?kept = [mk_msg ch NONE (wire ?kept)]"
      using wire_eq_Nil policy_filter_le[of sidx "is"] assms(5) by (auto simp: packet_def)
    from high_writes[OF assms(2) refl k(1,2)] obtain cfd h1 h2 where
      h: "gcd_step (UdpRecv (Inr (Serialize (mk_msg ch NONE (wire ?kept))))) (high b) = Some (h1, [])"
        "gcd_step (Handle cfd 0 [Inr (length (wire ?kept))]) h1 =
           Some (h2, [Dequeued (mk_msg ch NONE (wire ?kept)), SentTo fd (wire ?kept)])" "open_high ch fd h2" by blast
    let ?fs = "[High (UdpRecv (Inr (Serialize (mk_msg ch NONE (wire ?kept))))), High (Handle cfd 0 [Inr (length (wire ?kept))])]"
    let ?c = "?b\<lparr>high := h2, high_trace := high_trace b @ [Dequeued (mk_msg ch NONE (wire ?kept)), SentTo fd (wire ?kept)]\<rparr>"
    have f: "bridge_exec ?fs ?b = Some ?c"
      using h k(3) by (simp add: carried_def gcd_input_def arriving_def sent_def del: gcd_step.simps)
    note bridge_exec_trans[OF e f]
    moreover have "concat (map (read_by i) (?es @ ?fs)) = []" by (simp add: read_by_def)
    moreover have "guacd_got fd (high_trace ?c) = guacd_got fd (high_trace b) @ wire ?kept" by (simp add: guacd_got_def)
    ultimately show ?thesis using g(3) h(3) by (intro exI[of _ "?es @ ?fs"] exI[of _ ?c]) simp
  qed
qed

text \<open>The low half: the read, and the datagram it makes, if it makes one.\<close>

lemma low_half:
  assumes o: "open_session i ch fd sidx b" and "list_all (instr_ok guard_hooks) is" and "is \<noteq> []"
    and "length (wire is) \<le> MAX_PAYLOAD_SIZE"
  shows "\<exists>es c. bridge_exec es b = Some c \<and> concat (map (read_by i) es) = [wire is] \<and> open_session i ch fd sidx c \<and>
    guacd_got fd (high_trace c) = guacd_got fd (high_trace b) \<and>
    (\<forall>m\<in>set (typed ch is). Serialize m \<in> set (sent_datagrams (low_trace c)))"
proof -
  from low_reads[of i ch "low b" "is"] assms obtain s' where
    l: "gml_exec (reads i (wire is)) (low b) = Some (s', map (Queued i) (typed ch is))"
      "queue (g_send s') = typed ch is" "\<forall>q. open_low i ch (s'\<lparr>g_send := q\<lparr>queue := []\<rparr>\<rparr>)"
    by (auto simp: open_session_def)
  let ?b = "b\<lparr>low := s', low_trace := low_trace b @ map (Queued i) (typed ch is)\<rparr>"
  let ?s = "s'\<lparr>g_send := (g_send s')\<lparr>queue := []\<rparr>\<rparr>"
  have e: "bridge_exec (map Low (reads i (wire is))) b = Some ?b"
    using bridge_exec_low[OF l(1)] by (simp add: reads_def gml_input_def)
  have rd: "concat (map (read_by i) (map Low (reads i (wire is)))) = [wire is]"
    by (simp add: reads_def read_by_def)
  show ?thesis
  proof (cases "typed ch is = []")
    case True
    with l(2) have "s' = ?s" by simp
    with spec[OF l(3), of "g_send s'"] have "open_low i ch s'" by simp
    with e rd o True show ?thesis
      by (intro exI[of _ "map Low (reads i (wire is))"] exI[of _ ?b]) (simp add: open_session_def del: bridge_exec.simps)
  next
    case False
    then obtain m where m: "typed ch is = [m]" by (auto simp: packet_def split: if_splits)
    let ?c = "?b\<lparr>low := ?s, low_trace := low_trace ?b @ [SentDatagram (Serialize m)]\<rparr>"
    have "gml_step GUdpSend s' = Some (?s, [SentDatagram (Serialize m)])"
      using l(2) m by (simp add: udp_send_step_def Dequeue_def)
    then have f: "bridge_exec [Low GUdpSend] ?b = Some ?c"
      by (simp add: carried_def gml_input_def del: gml_step.simps)
    have "open_session i ch fd sidx ?c" using o spec[OF l(3), of "g_send s'"] by (simp add: open_session_def)
    with bridge_exec_trans[OF e f] rd m show ?thesis
      by (intro exI[of _ "map Low (reads i (wire is)) @ [Low GUdpSend]"] exI[of _ ?c]) (simp add: read_by_def del: bridge_exec.simps)
  qed
qed

lemma deliver_one:
  assumes "open_session i ch fd sidx b" and "list_all (instr_ok guard_hooks) is" and "is \<noteq> []"
    and "length (wire is) \<le> MAX_PAYLOAD_SIZE"
  shows "\<exists>es b' sidx'. bridge_exec es b = Some b' \<and> concat (map (read_by i) es) = [wire is] \<and>
    open_session i ch fd sidx' b' \<and> sidx' = policy_state sidx (filter (\<lambda>i. \<not> is_keepalive i) is) \<and>
    guacd_got fd (high_trace b') = guacd_got fd (high_trace b) @ wire (policy_filter sidx is)"
proof -
  let ?kept = "filter (\<lambda>i. \<not> is_keepalive i) is"
  from low_half[OF assms] obtain es c where
    c: "bridge_exec es b = Some c" "concat (map (read_by i) es) = [wire is]" "open_session i ch fd sidx c"
      "guacd_got fd (high_trace c) = guacd_got fd (high_trace b)"
      "\<forall>m\<in>set (typed ch is). Serialize m \<in> set (sent_datagrams (low_trace c))" by blast
  show ?thesis
  proof (cases "?kept = []")
    case True
    then have "policy_filter sidx is = []" using policy_filter_keepalive[of sidx "is"] by simp
    with c True show ?thesis by (intro exI[of _ es] exI[of _ c]) simp
  next
    case False
    have "list_all (instr_ok guard_hooks) ?kept" "length (wire ?kept) \<le> MAX_PAYLOAD_SIZE"
      using assms(2,4) wire_filter_le[of "\<lambda>i. \<not> is_keepalive i" "is"] by (auto simp: list_all_iff)
    moreover have "open_gate ch sidx (gate c)" "open_high ch fd (high c)" using c(3) by (simp_all add: open_session_def)
    moreover have "Serialize (mk_msg ch NONE (wire ?kept)) \<in> set (sent_datagrams (low_trace c))"
      using c(5) False by (simp add: packet_def)
    ultimately obtain gs b' where
      g: "bridge_exec gs c = Some b'" "concat (map (read_by i) gs) = []" "low b' = low c"
        "open_gate ch (policy_state sidx ?kept) (gate b')" "open_high ch fd (high b')"
        "guacd_got fd (high_trace b') = guacd_got fd (high_trace c) @ wire (policy_filter sidx ?kept)"
      using upper_half[of ch sidx c fd ?kept i] False by auto
    have "concat (map (read_by i) (es @ gs)) = [wire is]" using c(2) g(2) by simp
    moreover have "open_session i ch fd (policy_state sidx ?kept) b'" using c(3) g(3-5) by (simp add: open_session_def)
    ultimately show ?thesis
      using bridge_exec_trans[OF c(1) g(1)] g(6) c(4) unfolding policy_filter_keepalive by metis
  qed
qed


text \<open>The example session up to the replay of its handshake.\<close>

definition ex_ready :: "bridge_event list" where
  "ex_ready = map Low ([AcceptClient (\<lambda>_. 5) 7, Start 0] @ turn 0 True False [] ex_hello) @
     [Gate (DenyCheck [])] @ to_gate ex_create @ to_high ex_create (-1) [] @ to_high ex_verdict 9 [] @
     to_low ex_verdict @ map Low (turn 0 False False [] []) @
     [Gate (DenyCheck [0])] @ to_gate ex_input @ to_high ex_input (-1) [Inr 14]"

lemma ex_ready_ran:
  "bridge_ran ex_ready (\<lambda>b. open_session 0 0 9 (-1) b \<and> guacd_got 9 (high_trace b) = ex_hello)"
  by code_simp


end
