(* ===== verification/Flow_Low.thy ===== *)
theory Flow_Low imports Stage Delivery begin

text \<open>
  The gmlbroker stage of an open session: what reader \<open>i\<close> gets from its browser against what goes onto the
  queue to the bridge for its channel, whatever the other readers, the network and the mailboxes do.
\<close>

section \<open>The session at gmlbroker\<close>

text \<open>What \<open>Receive\<close> gave reader \<open>i\<close>, when the step read the socket and got data.\<close>

definition browser_read :: "nat \<Rightarrow> gml \<Rightarrow> gml_event \<Rightarrow> string list" where
  "browser_read i s e =
     (case e of
        SockWork j tls got draws ms \<Rightarrow>
          if j \<noteq> i then []
          else
            (case pc_of i s of
               Some (AtSock p) \<Rightarrow>
                 if sock_ready p \<or> ssl_pending p then
                   (case server_Receive tls (MAX_PAYLOAD_SIZE + 1) got of
                      (received, buffer) \<Rightarrow> if received > 0 then [buffer] else [])
                 else []
             | _ \<Rightarrow> [])
      | _ \<Rightarrow> [])"

text \<open>Reader \<open>i\<close> has replayed its handshake, and no reader that still announces anything has its channel.\<close>

definition line_low :: "nat \<Rightarrow> channel \<Rightarrow> gml_reader list \<Rightarrow> bool" where
  "line_low i ch ts \<longleftrightarrow> i < length ts \<and> gr_channel (ts ! i) = ch \<and> established (ts ! i) \<and> replayed (ts ! i) \<and>
     at_pos (gr_keepalive (ts ! i)) [] (PLen []) \<and>
     (\<forall>j < length ts. j \<noteq> i \<longrightarrow> holds 3 (ts ! j) \<longrightarrow> gr_channel (ts ! j) \<noteq> ch)"

definition left_low :: "nat \<Rightarrow> gml \<Rightarrow> bool" where
  "left_low i s \<longleftrightarrow> i < length (g_threads s) \<and> (\<exists>n. gr_pc (g_threads s ! i) = Leaving n)"

lemma left_low_code [code]:
  "left_low i s = (i < length (g_threads s) \<and> (case gr_pc (g_threads s ! i) of Leaving n \<Rightarrow> True | _ \<Rightarrow> False))"
  by (auto simp: left_low_def split: gml_pc.splits)

definition chunk_ok :: "instr list \<Rightarrow> bool" where
  "chunk_ok is \<longleftrightarrow> is \<noteq> [] \<and> list_all (instr_ok guard_hooks) is"

definition on_channel :: "channel \<Rightarrow> BridgeMessage list \<Rightarrow> BridgeMessage list" where
  "on_channel ch ms = filter (\<lambda>m. channel m = ch) ms"

lemma on_channel_simps [simp]:
  "on_channel ch [] = []" "on_channel ch (xs @ ys) = on_channel ch xs @ on_channel ch ys"
  "on_channel ch (m # xs) = (if channel m = ch then m # on_channel ch xs else on_channel ch xs)"
  by (simp_all add: on_channel_def)

lemma on_channel_all: "\<forall>m\<in>set ms. channel m = c \<Longrightarrow> on_channel ch ms = (if c = ch then ms else [])"
  by (auto simp: on_channel_def intro!: filter_True filter_False)

definition kept_low :: "nat \<Rightarrow> channel \<Rightarrow> string list \<Rightarrow> gml \<Rightarrow> BridgeMessage list \<Rightarrow> bool" where
  "kept_low i ch rs s ms \<longleftrightarrow> (\<forall>iss. rs = map wire iss \<longrightarrow> list_all chunk_ok iss \<longrightarrow>
     line_low i ch (g_threads s) \<and> ms = concat (map (typed ch) iss))"

section \<open>Each step keeps it\<close>

lemma line_other:
  assumes "line_low i ch ts" and "j \<noteq> i" and "j < length ts" and "gr_channel r = gr_channel (ts ! j)"
    and "holds 3 r \<Longrightarrow> holds 3 (ts ! j)"
  shows "line_low i ch (ts[j := r])"
  using assms by (auto simp: line_low_def nth_list_update simp del: at_pos.simps)

lemma line_self:
  assumes "line_low i ch ts" and "gr_channel r = ch" and "established r" and "replayed r"
    and "at_pos (gr_keepalive r) [] (PLen [])"
  shows "line_low i ch (ts[i := r])"
  using assms by (auto simp: line_low_def simp del: at_pos.simps)

lemma line_pc: "line_low i ch ts \<Longrightarrow> line_low i ch (ts[i := (ts ! i)\<lparr>gr_pc := pc\<rparr>])"
  by (intro line_self) (auto simp: line_low_def established_def simp del: at_pos.simps)

lemma line_new: "line_low i ch ts \<Longrightarrow> gr_channel r \<noteq> ch \<Longrightarrow> line_low i ch (ts @ [r])"
  by (auto simp: line_low_def nth_append less_Suc_eq simp del: at_pos.simps)

lemma sock_channel:
  assumes "sock_work tls got draws ms flag p r = ((r', rid), eff)"
  shows "\<forall>m\<in>set (to_bridge eff). channel m = gr_channel r"
proof -
  obtain r1 replay where m: "maybe_replay flag r = (r1, replay)" by fastforce
  have c: "gr_channel r1 = gr_channel r" "\<forall>m\<in>set replay. channel m = gr_channel r"
    using replay_holder[OF m] replay_none[OF m] by simp_all
  have i: "\<forall>m\<in>set (to_bridge (snd (idle_work flag ms p r))). channel m = gr_channel r"
    using c(2) by (simp add: idle_work_def m no_effects_def)
  have "\<forall>m\<in>set (to_bridge (snd (pipe_work flag b r))). channel m = gr_channel r" for b
    using c by (auto simp: pipe_work_def m no_effects_def split: prod.splits)
  moreover have "\<forall>m\<in>set (to_bridge (snd (forge_work draws b r))). channel m = gr_channel r" for b
    by (auto simp: forge_work_def no_effects_def Let_def split: prod.splits)
  ultimately show ?thesis
    using assms i unfolding sock_work_def
    by (auto simp: no_effects_def split: if_splits prod.splits) (metis snd_conv)+
qed

text \<open>A step that queues nothing: who moves, if anyone.\<close>

lemma kept_quiet:
  assumes "kept_low i ch rs s ms" and "bridge_out os = []"
    and "\<And>ts. ts = g_threads s \<Longrightarrow> line_low i ch ts \<Longrightarrow> line_low i ch (g_threads s')"
  shows "kept_low i ch (rs @ []) s' (ms @ on_channel ch (bridge_out os))"
  using assms by (simp add: kept_low_def)

lemma kept_sock_self:
  assumes "kept_low i ch rs s ms" and "pc_of i s = Some (AtSock p)" and "sock_step i tls got draws t p s = (s', os)"
  shows "left_low i s' \<or> kept_low i ch (rs @ browser_read i s (SockWork i tls got draws t)) s' (ms @ on_channel ch (bridge_out os))"
proof -
  let ?r = "g_threads s ! i" and ?f = "load_flag (gr_approved (g_threads s ! i)) (g_approvals s)"
  obtain r1 rid eff where w: "sock_work tls got draws t ?f p ?r = ((r1, rid), eff)" by (metis prod.exhaust)
  obtain n b where g: "server_Receive tls (MAX_PAYLOAD_SIZE + 1) got = (n, b)" by fastforce
  have pc: "i < length (g_threads s)" using pc_ofD[OF assms(2)] by simp
  have out: "g_threads s' = (g_threads s)[i := r1]" "bridge_out os = to_bridge eff"
    using assms(3) w by (auto simp: sock_step_def Let_def commit_def set_reader_def split: option.splits)
  let ?new = "browser_read i s (SockWork i tls got draws t)"
  have "left_low i s' \<or> line_low i ch (g_threads s') \<and> on_channel ch (to_bridge eff) = concat (map (typed ch) jss)"
    if l: "line_low i ch (g_threads s)" and r: "?new = map wire jss" "list_all chunk_ok jss" for jss
  proof -
    from l have r0: "gr_channel ?r = ch" "established ?r" "replayed ?r" "at_pos (gr_keepalive ?r) [] (PLen [])"
      by (simp_all add: line_low_def del: at_pos.simps)
    have m: "maybe_replay ?f ?r = (?r, [])" using r0(3) by (simp add: maybe_replay_def)
    show ?thesis
    proof (cases "(sock_ready p \<or> ssl_pending p) \<and> n > 0")
      case False
      with assms(2) g r have "jss = []" by (auto simp: browser_read_def simp del: One_nat_def split: if_splits)
      moreover have "to_bridge eff = [] \<and> (\<exists>q. r1 = ?r\<lparr>gr_pc := q\<rparr>)"
        using False w g m by (auto simp: sock_work_def idle_work_def no_effects_def split: if_splits)
      ultimately show ?thesis using line_pc[OF l] by (auto simp: out)
    next
      case True
      then have "map wire jss = [b]" using assms(2) g r(1) by (simp add: browser_read_def del: One_nat_def)
      then obtain js where j: "jss = [js]" "b = wire js" by (cases jss) auto
      have ok: "list_all (instr_ok guard_hooks) js" using r(2) j(1) by (simp add: chunk_ok_def)
      from True have nr: "n \<noteq> RETRY" "\<not> n \<le> 0" by (simp_all add: RETRY_def)
      from pipe_typed[OF r0(3,4) ok, of ?f] obtain r' acked where
        pw: "pipe_work ?f (wire js) ?r = (r', no_effects\<lparr>to_self := acked, to_bridge := typed (gr_channel ?r) js\<rparr>)"
          "gr_channel r' = gr_channel ?r" "replayed r'" "established r' = established ?r" "at_pos (gr_keepalive r') [] (PLen [])"
        by blast
      have e: "r1 = r'" "to_bridge eff = typed ch js"
        using True w g nr r0(1,2) pw(1) by (auto simp: sock_work_def j(2))
      have "line_low i ch (g_threads s')" unfolding out(1) e(1) by (rule line_self[OF l]) (use pw r0 in simp_all)
      then show ?thesis by (simp add: e(2) j(1) packet_def)
    qed
  qed
  then show ?thesis
    using assms(1) unfolding kept_low_def out(2) by (auto simp: append_eq_map_conv)
qed

lemma kept_sock_other:
  assumes "kept_low i ch rs s ms" and "j \<noteq> i" and "pc_of j s = Some (AtSock p)" and "sock_step j tls got draws t p s = (s', os)"
  shows "kept_low i ch (rs @ []) s' (ms @ on_channel ch (bridge_out os))"
proof -
  let ?r = "g_threads s ! j" and ?f = "load_flag (gr_approved (g_threads s ! j)) (g_approvals s)"
  obtain r1 rid eff where w: "sock_work tls got draws t ?f p ?r = ((r1, rid), eff)" by (metis prod.exhaust)
  have out: "g_threads s' = (g_threads s)[j := r1]" "bridge_out os = to_bridge eff"
    using assms(4) w by (auto simp: sock_step_def Let_def commit_def set_reader_def split: option.splits)
  have pc: "j < length (g_threads s)" "holds 3 ?r" using pc_ofD[OF assms(3)] by (auto simp: holds_def)
  have "on_channel ch (to_bridge eff) = []" if "line_low i ch (g_threads s)"
  proof -
    have "gr_channel ?r \<noteq> ch" using that pc assms(2) by (auto simp: line_low_def)
    then show ?thesis using on_channel_all[OF sock_channel[OF w]] by simp
  qed
  moreover have "line_low i ch (g_threads s')" if "line_low i ch (g_threads s)"
    unfolding out(1) using sock_work_holder[OF w] pc by (intro line_other[OF that assms(2)]) (auto simp: same_holder_def)
  ultimately show ?thesis using assms(1) by (simp add: kept_low_def out(2))
qed

lemma kept_leave:
  assumes "kept_low i ch rs s ms" and "j \<noteq> i" and "pc_of j s = Some (Leaving n)" and "leave_step j n s = Some (s', os)"
  shows "kept_low i ch (rs @ []) s' (ms @ on_channel ch (bridge_out os))"
proof -
  let ?r = "g_threads s ! j"
  have pc: "j < length (g_threads s)" "gr_pc ?r = Leaving n" using pc_ofD[OF assms(3)] by simp_all
  have th: "g_threads s' = (g_threads s)[j := ?r\<lparr>gr_pc := Leaving (n + 1)\<rparr>]"
    using assms(4) by (auto simp: leave_step_def Let_def set_reader_def commit_def split: if_splits)
  have "bridge_out os = [] \<or> n = 3 \<and> (\<forall>m\<in>set (bridge_out os). channel m = gr_channel ?r)"
    using assms(4) by (auto simp: leave_step_def Let_def set_reader_def commit_def no_effects_def split: if_splits)
  moreover have "gr_channel ?r \<noteq> ch" if "line_low i ch (g_threads s)" "n = 3"
    using that pc assms(2) by (auto simp: line_low_def holds_def)
  ultimately have "on_channel ch (bridge_out os) = []" if "line_low i ch (g_threads s)"
    using that on_channel_all[of "bridge_out os" "gr_channel ?r" ch] by auto
  moreover have "line_low i ch (g_threads s')" if "line_low i ch (g_threads s)"
    unfolding th using pc by (intro line_other[OF that assms(2)]) (auto simp: holds_def)
  ultimately show ?thesis using assms(1) by (simp add: kept_low_def)
qed

lemma line_accept:
  assumes "line_low i ch (g_threads s)" and "gml_inv s" and "\<not> left_low i s" and "accept_client rng fd s = (s', os)"
  shows "line_low i ch (g_threads s') \<and> bridge_out os = []"
proof (cases "fd < 0")
  case True
  with assms show ?thesis by (simp add: accept_client_def)
next
  case False
  obtain r t where al: "Allocate fd (g_table s) = (r, t)" by fastforce
  have i: "i < length (g_threads s)" "gr_channel (g_threads s ! i) = ch" using assms(1) by (simp_all add: line_low_def)
  have "holds 2 (g_threads s ! i)" using assms(3) i(1) by (auto simp: left_low_def holds_def split: gml_pc.splits)
  with i assms(2) have bound: "Get ch (g_table s) \<noteq> None"
    unfolding gml_inv_def regs_ok_def table_owned_def owned_def by force
  have "c \<noteq> ch" if "r = Some c" for c
    using Allocate_Some[of fd "g_table s" c t] al that bound by (auto simp: Get_def)
  with False al assms(4) line_new[OF assms(1), of "new_gml_reader rng (the r) fd"] assms(1) show ?thesis
    by (auto simp: accept_client_def new_gml_reader_def split: option.splits)
qed

text \<open>A reader moves and keeps what the line looks at.\<close>

lemma line_moves:
  assumes "line_low i ch ts" and "j < length ts" and "holds 3 (ts ! j)" and "same_out (ts ! j) r"
    and "gr_keepalive r = gr_keepalive (ts ! j)"
  shows "line_low i ch (ts[j := r])"
proof (cases "j = i")
  case True
  show ?thesis
    unfolding True by (rule line_self[OF assms(1)])
      (use assms True in \<open>auto simp: line_low_def same_out_def established_def simp del: at_pos.simps\<close>)
next
  case False
  with line_other[OF assms(1) False assms(2)] assms(3,4) show ?thesis by (simp add: same_out_def)
qed

lemma line_mail:
  assumes "line_low i ch (g_threads s)" and "pc_of j s = Some (AtMail p)" and "mail_step j ws p s = Some (s', os)"
  shows "line_low i ch (g_threads s') \<and> bridge_out os = []"
proof -
  let ?r = "g_threads s ! j"
  from pc_ofD[OF assms(2)] have j: "j < length (g_threads s)" "holds 3 ?r" by (auto simp: holds_def)
  have "\<exists>r. g_threads s' = (g_threads s)[j := r] \<and> bridge_out os = [] \<and> same_out ?r r \<and> gr_keepalive r = gr_keepalive ?r"
    using assms(3)
    by (auto simp: mail_step_def Let_def commit_def set_reader_def same_out_def dest!: mail_out
        split: option.splits if_splits prod.splits)
  then obtain r where "g_threads s' = (g_threads s)[j := r]" "bridge_out os = []" "same_out ?r r" "gr_keepalive r = gr_keepalive ?r"
    by blast
  with line_moves[OF assms(1) j] show ?thesis by simp
qed

text \<open>Every step but the work on the socket and the leaving of a reader.\<close>

lemma line_step:
  assumes "line_low i ch (g_threads s)" and "gml_inv s" and "\<not> left_low i s" and "gml_step e s = Some (s', os)"
    and "\<And>j tls got draws t. e \<noteq> SockWork j tls got draws t" and "\<And>j. e \<noteq> Leaves j"
  shows "line_low i ch (g_threads s') \<and> bridge_out os = []"
proof (cases e)
  case (AcceptClient rng fd)
  with assms(4) line_accept[OF assms(1-3)] show ?thesis by (auto split: if_splits)
next
  case (MailWork j ws)
  with assms(4) line_mail[OF assms(1)] show ?thesis by (auto split: option.splits gml_pc.splits)
next
  case (Start j)
  with assms(4) have p: "pc_of j s = Some Starting" by (auto split: if_splits)
  with Start assms(4) pc_ofD[OF p] show ?thesis
    by (auto simp: set_reader_def start_reader_def same_out_def holds_def intro!: line_moves[OF assms(1)])
next
  case (Poll j res)
  with assms(4) have p: "pc_of j s = Some AtPoll" by (auto split: if_splits)
  with Poll assms(4) pc_ofD[OF p] show ?thesis
    by (auto simp: set_reader_def same_out_def holds_def Let_def intro!: line_moves[OF assms(1)]
        split: sum.splits if_splits)
next
  case (StopLoop j)
  with assms(4) have p: "pc_of j s = Some AtPoll" by (auto split: if_splits)
  with StopLoop assms(4) pc_ofD[OF p] show ?thesis
    by (auto simp: set_reader_def same_out_def holds_def intro!: line_moves[OF assms(1)] split: if_splits)
next
  case TakeMessage
  with assms(1,4) message_regs show ?thesis
    by (auto simp: same_regs_def split: if_splits prod.splits dequeued.splits)
qed (use assms in \<open>auto split: if_splits prod.splits option.splits\<close>)

lemma kept_step:
  assumes "gml_inv s" and "\<not> left_low i s" and "kept_low i ch rs s ms" and "gml_step e s = Some (s', os)"
  shows "left_low i s' \<or> kept_low i ch (rs @ browser_read i s e) s' (ms @ on_channel ch (bridge_out os))"
proof (cases "(\<exists>j tls got draws t. e = SockWork j tls got draws t) \<or> (\<exists>j. e = Leaves j)")
  case True
  then consider j tls got draws t where "e = SockWork j tls got draws t" | j where "e = Leaves j" by blast
  then show ?thesis
  proof cases
    case (1 j tls got draws t)
    with assms(4) obtain p where p: "pc_of j s = Some (AtSock p)" "sock_step j tls got draws t p s = (s', os)"
      by (auto split: option.splits gml_pc.splits if_splits)
    with 1 kept_sock_self[OF assms(3)] kept_sock_other[OF assms(3) _ p] show ?thesis
      by (cases "j = i") (auto simp: browser_read_def)
  next
    case (2 j)
    with assms(4) obtain n where n: "pc_of j s = Some (Leaving n)" "leave_step j n s = Some (s', os)"
      by (auto split: option.splits gml_pc.splits)
    with assms(2) have "j \<noteq> i" by (auto simp: left_low_def pc_of_def split: if_splits)
    from kept_leave[OF assms(3) this n] 2 show ?thesis by (simp add: browser_read_def)
  qed
next
  case False
  then have "browser_read i s e = []" by (auto simp: browser_read_def split: gml_event.splits)
  with False line_step[OF _ assms(1,2,4)] assms(3) show ?thesis by (auto simp: kept_low_def)
qed

lemma left_step: "left_low i s \<Longrightarrow> gml_step e s = Some (s', os) \<Longrightarrow> left_low i s'"
proof -
  assume l: "left_low i s" and st: "gml_step e s = Some (s', os)"
  show ?thesis
  proof (cases e)
    case (AcceptClient rng fd)
    with l st show ?thesis
      by (auto simp: left_low_def accept_client_def nth_append split: if_splits prod.splits option.splits)
  next
    case TakeMessage
    with l st message_regs show ?thesis
      by (auto simp: left_low_def same_regs_def split: if_splits prod.splits dequeued.splits)
  next
    case (Leaves j)
    with st obtain n where n: "pc_of j s = Some (Leaving n)" "leave_step j n s = Some (s', os)"
      by (auto split: option.splits gml_pc.splits)
    then have "g_threads s' = (g_threads s)[j := (g_threads s ! j)\<lparr>gr_pc := Leaving (n + 1)\<rparr>]"
      by (auto simp: leave_step_def Let_def set_reader_def commit_def split: if_splits)
    with l show ?thesis by (cases "j = i") (auto simp: left_low_def)
  qed (use l st in \<open>auto simp: set_reader_def Let_def mail_step_def sock_step_def commit_def left_low_def pc_of_def nth_list_update
      split: if_splits option.splits sum.splits gml_pc.splits prod.splits\<close>)
qed

interpretation low: stage gml_step "browser_read i" "\<lambda>os. on_channel ch (bridge_out os)" gml_inv "\<lambda>_. True"
  "left_low i" "kept_low i ch" for i ch
  by unfold_locales (auto intro: gml_step_inv left_step dest: kept_step)

end
