(* ===== verification/Flow_Gate.thy ===== *)
theory Flow_Gate imports Flow_Low begin

text \<open>
  The guard stage of an open session: what arrives for its channel against what is sent on for it, whatever
  arrives for other channels and whatever the operator does.
\<close>

section \<open>The messages of a channel among datagrams\<close>

text \<open>What either receiver makes of a datagram, if it is for \<open>ch\<close>.\<close>

definition message_for :: "channel \<Rightarrow> string \<Rightarrow> BridgeMessage list" where
  "message_for ch d =
     (case TryCast (Some (take MAX_DATAGRAM_SIZE d)) of
        None \<Rightarrow> []
      | Some m \<Rightarrow> on_channel ch [m])"

definition messages_for :: "channel \<Rightarrow> string list \<Rightarrow> BridgeMessage list" where
  "messages_for ch ds = concat (map (message_for ch) ds)"

lemma messages_for_simps [simp]:
  "messages_for ch [] = []" "messages_for ch (d # ds) = message_for ch d @ messages_for ch ds"
  "messages_for ch (xs @ ys) = messages_for ch xs @ messages_for ch ys"
  by (simp_all add: messages_for_def)

lemma message_for_Serialize [simp]:
  "message_for ch (Serialize m) =
     on_channel ch [m\<lparr>payload := take MAX_PAYLOAD_SIZE (payload m)\<rparr>]"
proof -
  let ?m = "m\<lparr>payload := take MAX_PAYLOAD_SIZE (payload m)\<rparr>"
  have cut: "take MAX_DATAGRAM_SIZE (Serialize m) = Serialize ?m" by (simp add: Serialize_def size_defs)
  have "TryCast (Some (Serialize ?m)) = Some ?m" by simp
  then show ?thesis unfolding message_for_def cut by simp
qed

lemma fits_cut: "fits_payload m \<Longrightarrow> m\<lparr>payload := take MAX_PAYLOAD_SIZE (payload m)\<rparr> = m"
  by (simp add: fits_payload_def)

lemma messages_for_Serialize:
  "\<forall>m\<in>set ms. fits_payload m \<Longrightarrow> messages_for ch (map Serialize ms) = on_channel ch ms"
  by (induction ms) (simp_all add: fits_cut)

lemma message_forD:
  assumes "m \<in> set (message_for ch d)"
  shows "channel m = ch \<and> fits_payload m"
  using assms TryCast_SomeD[of "take MAX_DATAGRAM_SIZE d"]
  by (auto simp: message_for_def fits_payload_def split: option.splits if_splits)

lemma messages_for_shutdowns [simp]: "ch \<notin> set order \<Longrightarrow> messages_for ch (map shutdown_wire order) = []"
  by (induction order) (auto simp: shutdown_wire_def)

section \<open>The session at the guard\<close>

definition gate_in :: "channel \<Rightarrow> gsys \<Rightarrow> event \<Rightarrow> BridgeMessage list" where
  "gate_in ch s e = (case guard_input e of None \<Rightarrow> [] | Some d \<Rightarrow> message_for ch d)"

definition line_gate :: "channel \<Rightarrow> int \<Rightarrow> guard \<Rightarrow> bool" where
  "line_gate ch sidx g \<longleftrightarrow> ch \<in> approved g \<and> ch \<notin> poisoned g \<and>
     (case parsers g ch of
        None \<Rightarrow> False
      | Some p \<Rightarrow> at_pos p [] (PLen []) \<and> clipboard_sidx (sub p) = sidx)"

text \<open>The payloads that are left of the chunks, in order, none for a chunk that is denied whole.\<close>

fun gated :: "int \<Rightarrow> instr list list \<Rightarrow> string list" where
  "gated sidx [] = []"
| "gated sidx (is # iss) =
     (let kept = policy_filter sidx is; rest = gated (policy_state sidx is) iss in
      if kept = [] then rest else wire kept # rest)"

lemma gated_append: "gated sidx (iss @ jss) = gated sidx iss @ gated (policy_state sidx (concat iss)) jss"
  by (induction iss arbitrary: sidx) (auto simp: Let_def policy_state_append)

lemma concat_gated: "concat (gated sidx iss) = wire (policy_filter sidx (concat iss))"
  by (induction iss arbitrary: sidx) (auto simp: Let_def policy_filter_append)

abbreviation carry :: "channel \<Rightarrow> string \<Rightarrow> BridgeMessage" where "carry ch p \<equiv> mk_msg ch NONE p"

definition kept_gate :: "channel \<Rightarrow> int \<Rightarrow> BridgeMessage list \<Rightarrow> gsys \<Rightarrow> BridgeMessage list \<Rightarrow> bool" where
  "kept_gate ch sidx ms s bs \<longleftrightarrow> (\<forall>jss. ms = map (carry ch \<circ> wire) jss \<longrightarrow> list_all chunk_ok jss \<longrightarrow>
     line_gate ch (policy_state sidx (concat jss)) (gst s) \<and> bs = map (carry ch) (gated sidx jss))"

section \<open>Each step keeps it\<close>

definition same_gate :: "channel \<Rightarrow> guard \<Rightarrow> guard \<Rightarrow> bool" where
  "same_gate ch g g' \<longleftrightarrow> (ch \<in> approved g' \<longleftrightarrow> ch \<in> approved g) \<and> (ch \<in> poisoned g' \<longleftrightarrow> ch \<in> poisoned g) \<and>
     parsers g' ch = parsers g ch"

lemma same_gate_line: "same_gate ch g g' \<Longrightarrow> line_gate ch sidx g' = line_gate ch sidx g"
  by (simp add: same_gate_def line_gate_def)

lemma other_datagram:
  assumes "handle_datagram (Serialize m) g = (g', sds)" and "TryCast (Some (Serialize m)) = Some m" and "channel m \<noteq> ch"
  shows "same_gate ch g g' \<and> messages_for ch sds = []"
  using assms
  by (auto simp: handle_datagram_def handle_create_def handle_shutdown_def handle_payload_def same_gate_def
      shutdown_wire_def Let_def split: ChannelAction.splits if_splits prod.splits)

lemma own_datagram:
  assumes "line_gate ch sidx g" and "list_all (instr_ok guard_hooks) is" and "is \<noteq> []"
    and "length (wire is) \<le> MAX_PAYLOAD_SIZE" and "handle_datagram (Serialize (carry ch (wire is))) g = (g', sds)"
  shows "line_gate ch (policy_state sidx is) g' \<and> messages_for ch sds = map (carry ch) (gated sidx [is])"
proof -
  from assms(1) obtain p where p: "ch \<in> approved g" "ch \<notin> poisoned g" "parsers g ch = Some p"
    "at_pos p [] (PLen [])" "clipboard_sidx (sub p) = sidx"
    by (auto simp: line_gate_def split: option.splits)
  from instrs_payload[OF p(1-4) assms(2)] obtain p' where
    h: "handle_payload (Serialize (carry ch (wire is))) (carry ch (wire is)) g =
        (g\<lparr>parsers := (parsers g)(ch := Some p')\<rparr>,
         if policy_filter sidx is = [] then [] else [Serialize (carry ch (wire (policy_filter sidx is)))])"
      "at_pos p' [] (PLen [])" "clipboard_sidx (sub p') = policy_state sidx is"
    using assms(3) p(5) by (auto simp: Let_def simp del: at_pos.simps)
  have "length (wire (policy_filter sidx is)) \<le> MAX_PAYLOAD_SIZE"
    using policy_filter_le[of sidx "is"] assms(4) by simp
  with assms(5) h p(1,2) assms(4) show ?thesis
    by (auto simp: handle_msg line_gate_def Let_def simp del: at_pos.simps)
qed

lemma receive_cast:
  "guard_receive (Inr d) g =
     (case TryCast (Some (take MAX_DATAGRAM_SIZE d)) of
        None \<Rightarrow> (g, [])
      | Some m \<Rightarrow> handle_datagram (Serialize m) g)"
proof (cases "TryCast (Some (take MAX_DATAGRAM_SIZE d))")
  case None
  then show ?thesis by (simp add: guard_receive_def Receive_def Let_def handle_datagram_def)
next
  case (Some m)
  with TryCast_SomeD[OF Some] have d: "take MAX_DATAGRAM_SIZE d = Serialize m" by simp
  have "HEADER_SIZE > 0" by (simp add: HEADER_SIZE_def)
  with Some show ?thesis by (simp add: guard_receive_def Receive_def Let_def d)
qed

lemma receive_drop: "\<nexists>d m. r = Inr d \<and> TryCast (Some (take MAX_DATAGRAM_SIZE d)) = Some m \<Longrightarrow> guard_receive r g = (g, [])"
  by (cases r) (auto simp: receive_cast guard_receive_def[of "Inl _"] Receive_def split: option.splits)

lemma gate_carries:
  assumes kept: "kept_gate ch sidx ms s bs" and hd: "handle_datagram (Serialize m) (gst s) = (gst s', sds)"
    and m: "TryCast (Some (Serialize m)) = Some m" "fits_payload m"
  shows "ch \<notin> approved (gst s') \<or> kept_gate ch sidx (ms @ on_channel ch [m]) s' (bs @ messages_for ch sds)"
proof (cases "channel m = ch")
  case False
  with other_datagram[OF hd m(1) False] kept show ?thesis by (auto simp: kept_gate_def same_gate_line)
next
  case True
  have "line_gate ch (policy_state sidx (concat jss)) (gst s') \<and> bs @ messages_for ch sds = map (carry ch) (gated sidx jss)"
    if jss: "ms @ [m] = map (carry ch \<circ> wire) jss" "list_all chunk_ok jss" for jss
  proof -
    obtain kss js where k: "jss = kss @ [js]" "ms = map (carry ch \<circ> wire) kss" "m = carry ch (wire js)"
      using jss(1) by (cases jss rule: rev_cases) auto
    with jss(2) kept have l: "line_gate ch (policy_state sidx (concat kss)) (gst s)" "bs = map (carry ch) (gated sidx kss)"
      by (auto simp: kept_gate_def)
    have "line_gate ch (policy_state (policy_state sidx (concat kss)) js) (gst s') \<and>
        messages_for ch sds = map (carry ch) (gated (policy_state sidx (concat kss)) [js])"
      by (rule own_datagram[OF l(1)]) (use jss(2) k m(2) hd in \<open>simp_all add: chunk_ok_def fits_payload_def\<close>)
    then show ?thesis using l(2) k(1) by (simp add: gated_append policy_state_append)
  qed
  then show ?thesis unfolding kept_gate_def by (simp add: True)
qed

text \<open>A step that takes no message.\<close>

lemma gate_idle:
  assumes "\<nexists>d m. e = Recv (Inr d) \<and> TryCast (Some (take MAX_DATAGRAM_SIZE d)) = Some m" and "guard_step e s = Some (s', sds)"
  shows "ch \<notin> approved (gst s') \<or> same_gate ch (gst s) (gst s') \<and> sds = []"
proof (cases e)
  case (Recv r)
  with assms(1) have "guard_receive r (gst s) = (gst s, [])" by (intro receive_drop) auto
  with Recv assms(2) show ?thesis by (auto simp: same_gate_def split: if_splits)
next
  case (Toggle r)
  with assms(2) show ?thesis
    by (auto simp: control_receive_def same_gate_def split: if_splits prod.splits option.splits)
qed (use assms(2) in \<open>auto simp: same_gate_def act_on_deny_def announce_stop_def split: if_splits prod.splits\<close>)

lemma step_gate:
  assumes "kept_gate ch sidx ms s bs" and "guard_step e s = Some (s', sds)" and "list_all (\<lambda>m. action m = NONE) (gate_in ch s e)"
  shows "ch \<notin> approved (gst s') \<or> kept_gate ch sidx (ms @ gate_in ch s e) s' (bs @ messages_for ch sds)"
proof (cases "\<exists>d m. e = Recv (Inr d) \<and> TryCast (Some (take MAX_DATAGRAM_SIZE d)) = Some m")
  case True
  then obtain d m where d: "e = Recv (Inr d)" "TryCast (Some (take MAX_DATAGRAM_SIZE d)) = Some m" by blast
  with assms(2) have g: "handle_datagram (Serialize m) (gst s) = (gst s', sds)"
    by (auto simp: receive_cast split: if_splits prod.splits)
  have m: "TryCast (Some (Serialize m)) = Some m" "fits_payload m"
    using TryCast_SomeD[OF d(2)] d(2) by (simp_all add: fits_payload_def)
  have "gate_in ch s e = on_channel ch [m]"
    using d by (simp add: gate_in_def guard_input_def arriving_def message_for_def)
  with gate_carries[OF assms(1) g m] show ?thesis by simp
next
  case False
  have "gate_in ch s e = []"
    using False by (auto simp: gate_in_def guard_input_def arriving_def message_for_def split: event.splits option.splits sum.splits)
  with gate_idle[OF False assms(2), of ch] assms(1) show ?thesis by (auto simp: kept_gate_def same_gate_line)
qed

lemma shut_gate:
  assumes "ch \<notin> approved (gst s)" and "guard_step e s = Some (s', sds)" and "list_all (\<lambda>m. action m = NONE) (gate_in ch s e)"
  shows "ch \<notin> approved (gst s')"
proof (cases e)
  case (Recv r)
  show ?thesis
  proof (cases "\<exists>d m. r = Inr d \<and> TryCast (Some (take MAX_DATAGRAM_SIZE d)) = Some m")
    case False
    with Recv assms show ?thesis by (auto simp: receive_drop split: if_splits)
  next
    case True
    then obtain d m where d: "r = Inr d" "TryCast (Some (take MAX_DATAGRAM_SIZE d)) = Some m" by blast
    with Recv assms(2) obtain g' where g: "handle_datagram (Serialize m) (gst s) = (g', sds)" "gst s' = g'"
      by (auto simp: receive_cast split: if_splits prod.splits)
    have m: "TryCast (Some (Serialize m)) = Some m" using TryCast_SomeD[OF d(2)] d(2) by simp
    show ?thesis
    proof (cases "channel m = ch")
      case False
      with other_datagram[OF g(1) m False] assms(1) g(2) show ?thesis by (simp add: same_gate_def)
    next
      case True
      with Recv d assms(3) have "action m = NONE"
        by (simp add: gate_in_def guard_input_def arriving_def message_for_def)
      with True m g assms(1) show ?thesis by (auto simp: handle_datagram_def handle_payload_def Let_def split: if_splits)
    qed
  qed
next
  case (Toggle r)
  with assms show ?thesis
    by (auto simp: control_receive_def split: if_splits prod.splits option.splits)
qed (use assms in \<open>auto simp: act_on_deny_def announce_stop_def split: if_splits prod.splits\<close>)

interpretation gate: stage guard_step "gate_in ch" "messages_for ch" "\<lambda>_. True" "\<lambda>m. action m = NONE"
  "\<lambda>s. ch \<notin> approved (gst s)" "kept_gate ch sidx" for ch sidx
  by unfold_locales (use step_gate shut_gate in auto)

end
