(* ===== verification/Flow_High.thy ===== *)
theory Flow_High imports Flow_Gate begin

text \<open>
  The gcdbroker stage of an open session: what arrives for its channel against what is written to its
  connection. The reader's own acknowledgements go through the same queue, so the writes are an interleaving
  of the two, and what still waits in the queue comes after them.
\<close>

section \<open>Interleavings\<close>

lemma shuffles_snoc: "zs \<in> shuffles xs ys \<Longrightarrow> zs @ [z] \<in> shuffles (xs @ [z]) ys"
proof (induction xs ys arbitrary: zs rule: shuffles.induct)
  case (1 ys)
  then show ?case
    by (induction ys arbitrary: zs) (auto intro: Cons_in_shuffles_rightI)
next
  case (3 x xs y ys)
  from "3.prems" consider zs' where "zs = x # zs'" "zs' \<in> shuffles xs (y # ys)"
    | zs' where "zs = y # zs'" "zs' \<in> shuffles (x # xs) ys" by auto
  then show ?case
  proof cases
    case 1
    with "3.IH"(1)[of zs'] show ?thesis by (simp add: Cons_in_shuffles_leftI)
  next
    case 2
    with "3.IH"(2)[of zs'] show ?thesis by (simp add: Cons_in_shuffles_rightI)
  qed
qed simp

lemma shuffles_append: "zs \<in> shuffles xs ys \<Longrightarrow> zs @ ws \<in> shuffles (xs @ ws) ys"
proof (induction ws arbitrary: zs xs)
  case (Cons w ws)
  from Cons.IH[OF shuffles_snoc[OF Cons.prems]] show ?case by simp
qed simp

lemma shuffles_append_right: "zs \<in> shuffles xs ys \<Longrightarrow> zs @ ws \<in> shuffles xs (ys @ ws)"
  using shuffles_append[of zs ys xs ws] by (simp add: shuffles_commutes)

section \<open>The session at gcdbroker\<close>

definition high_in :: "channel \<Rightarrow> gcd \<Rightarrow> gcd_event \<Rightarrow> BridgeMessage list" where
  "high_in ch s e = (case gcd_input e of None \<Rightarrow> [] | Some d \<Rightarrow> message_for ch d)"

text \<open>The writes to a connection.\<close>

definition written :: "fd \<Rightarrow> obs list \<Rightarrow> string list" where
  "written fd tr = concat (map (\<lambda>x. case x of SentTo g bs \<Rightarrow> if g = fd then [bs] else [] | _ \<Rightarrow> []) tr)"

lemma written_simps [simp]:
  "written fd [] = []" "written fd (xs @ ys) = written fd xs @ written fd ys"
  "written fd (SentTo g bs # xs) = (if g = fd then bs # written fd xs else written fd xs)"
  "written fd (Dequeued m # xs) = written fd xs" "written fd (ShutFd g # xs) = written fd xs"
  by (simp_all add: written_def)

lemma written_none: "\<forall>bs. SentTo fd bs \<notin> set os \<Longrightarrow> written fd os = []"
  by (auto simp: written_def split: obs.splits)

abbreviation waiting :: "channel \<Rightarrow> gcd \<Rightarrow> string list" where
  "waiting ch s \<equiv> map payload (on_channel ch (queue (recv_queue s)))"

definition data_only :: "channel \<Rightarrow> gcd \<Rightarrow> bool" where
  "data_only ch s \<longleftrightarrow> list_all (\<lambda>m. action m = NONE) (on_channel ch (queue (recv_queue s)))"

definition kept_high :: "channel \<Rightarrow> fd \<Rightarrow> BridgeMessage list \<Rightarrow> gcd \<Rightarrow> string list \<Rightarrow> bool" where
  "kept_high ch fd ms s ws \<longleftrightarrow> Get ch (tbl s) = Some fd \<and> data_only ch s \<and>
     (\<exists>acks. list_all sync_acks acks \<and> ws @ waiting ch s \<in> shuffles (map payload ms) acks)"

definition cut_high :: "channel \<Rightarrow> fd \<Rightarrow> gcd \<Rightarrow> bool" where
  "cut_high ch fd s \<longleftrightarrow> Get ch (tbl s) \<noteq> Some fd \<and> data_only ch s"

section \<open>Each step keeps it\<close>

lemma send_loop_full: "send_loop buffer tot rs = (Some rc, chunks) \<Longrightarrow> rc \<ge> 0 \<Longrightarrow> concat chunks = drop tot buffer"
proof (induction rs arbitrary: tot chunks)
  case Nil
  then show ?case by (cases "tot < length buffer") auto
next
  case (Cons r rs)
  show ?case
  proof (cases "tot < length buffer")
    case True
    show ?thesis
    proof (cases r)
      case (Inl e)
      with Cons True show ?thesis by (cases "e = EINTR") auto
    next
      case (Inr n)
      with Cons.prems True obtain chunks' where
        c: "send_loop buffer (tot + n) rs = (Some rc, chunks')" "chunks = take n (drop tot buffer) # chunks'"
        by (auto split: prod.splits)
      from Cons.IH[OF c(1) Cons.prems(2)] c(2) append_take_drop_id[of n "drop tot buffer"] show ?thesis
        by (simp add: add.commute)
    qed
  qed (use Cons.prems in auto)
qed

lemma iteration_channel:
  "reader_iteration got now r = (r', rq, sq) \<Longrightarrow> \<forall>m\<in>set rq. channel m = rd_channel r"
  by (auto simp: reader_iteration_def keepalive_check_def Let_def split: prod.splits if_splits)

text \<open>A step that leaves the connection and the queue of the channel alone, or only unbinds.\<close>

lemma kept_same:
  assumes "kept_high ch fd ms s ws" and "Get ch (tbl s') = Get ch (tbl s)"
    and "on_channel ch (queue (recv_queue s')) = on_channel ch (queue (recv_queue s))" and "written fd os = []"
  shows "kept_high ch fd (ms @ []) s' (ws @ written fd os)"
  using assms by (simp add: kept_high_def data_only_def)

lemma kept_arrival:
  assumes "kept_high ch fd ms s ws" and "Get ch (tbl s') = Get ch (tbl s)" and "list_all (\<lambda>m. action m = NONE) xs"
    and "on_channel ch (queue (recv_queue s')) = on_channel ch (queue (recv_queue s)) @ xs" and "written fd os = []"
  shows "kept_high ch fd (ms @ xs) s' (ws @ written fd os)"
proof -
  from assms(1) obtain acks where "list_all sync_acks acks" "ws @ waiting ch s \<in> shuffles (map payload ms) acks"
    by (auto simp: kept_high_def)
  with shuffles_append[of "ws @ waiting ch s" "map payload ms" acks "map payload xs"] assms show ?thesis
    by (auto simp: kept_high_def data_only_def)
qed

lemma kept_ack:
  assumes "kept_high ch fd ms s ws" and "Get ch (tbl s') = Get ch (tbl s)"
    and "list_all (\<lambda>m. action m = NONE \<and> sync_acks (payload m)) xs"
    and "on_channel ch (queue (recv_queue s')) = on_channel ch (queue (recv_queue s)) @ xs" and "written fd os = []"
  shows "kept_high ch fd (ms @ []) s' (ws @ written fd os)"
proof -
  from assms(1) obtain acks where "list_all sync_acks acks" "ws @ waiting ch s \<in> shuffles (map payload ms) acks"
    by (auto simp: kept_high_def)
  with shuffles_append_right[of "ws @ waiting ch s" "map payload ms" acks "map payload xs"] assms show ?thesis
    by (auto simp: kept_high_def data_only_def list_all_iff intro!: exI[of _ "acks @ map payload xs"])
qed

lemma recv_for: "on_channel ch (queue (udp_recv_step r q)) =
  on_channel ch (queue q) @ (case arriving r of None \<Rightarrow> [] | Some d \<Rightarrow> message_for ch d)"
proof (cases r)
  case (Inr d)
  show ?thesis
  proof (cases "TryCast (Some (take MAX_DATAGRAM_SIZE d))")
    case None
    with Inr show ?thesis by (simp add: udp_recv_step_def Receive_def Let_def arriving_def message_for_def)
  next
    case (Some m)
    with TryCast_SomeD[OF Some] have d: "take MAX_DATAGRAM_SIZE d = Serialize m" by simp
    have "HEADER_SIZE > 0" by (simp add: HEADER_SIZE_def)
    with Some Inr show ?thesis
      by (simp add: udp_recv_step_def Receive_def Let_def arriving_def message_for_def d Enqueue_def)
  qed
qed (simp add: udp_recv_step_def Receive_def arriving_def)

lemma bound_once:
  assumes "gcd_inv s" and "Get c (tbl s) = Some fd" and "Get d (tbl s) = Some fd"
  shows "c = d"
proof -
  from assms obtain i j where
    "i < length (threads s)" "rd_channel (threads s ! i) = c" "rd_fd (threads s ! i) = fd" "live_pc (rd_pc (threads s ! i))"
    "j < length (threads s)" "rd_channel (threads s ! j) = d" "rd_fd (threads s ! j) = fd" "live_pc (rd_pc (threads s ! j))"
    unfolding gcd_inv_def binds_def by metis
  moreover from assms(1) have "fds_distinct s" by (simp add: gcd_inv_def)
  ultimately show ?thesis unfolding fds_distinct_def fd_open_def live_pc_def by (metis insertCI)
qed

lemma other_message:
  assumes "handle_message cfd now rs m s = Some (s', os)" and "channel m \<noteq> ch"
  shows "Get ch (tbl s') = Get ch (tbl s)"
proof -
  obtain r t where r: "Remove (channel m) (tbl s) = (r, t)" by fastforce
  obtain ok t' where i: "Insert (channel m) cfd (tbl s) = (ok, t')" by fastforce
  have "Get ch t = Get ch (tbl s)" using Remove_get[OF r, of ch] assms(2) by simp
  moreover have "Get ch t' = Get ch (tbl s)"
    using i assms(2) by (auto simp: Insert_def Get_def split: if_splits)
  ultimately show ?thesis
    using assms r i
    by (auto simp: handle_message_def handle_verdict_def handle_teardown_def handle_data_def Let_def
        split: ChannelAction.splits prod.splits option.splits if_splits bool.splits)
qed

lemma own_data:
  assumes "handle_message cfd now rs m s = Some (s', os)" and "action m = NONE" and "channel m = ch"
    and "Get ch (tbl s) = Some fd"
  shows "Get ch (tbl s') \<noteq> Some fd \<or> Get ch (tbl s') = Some fd \<and> written fd os = [payload m]"
proof -
  from assms have d: "handle_data rs m s = Some (s', os)" by (simp add: handle_message_def)
  obtain rc chunks where g: "guacd_Send fd (payload m) rs = (Some rc, chunks)"
    using d assms(3,4) by (auto simp: handle_data_def split: prod.splits option.splits)
  show ?thesis
  proof (cases "rc < 0")
    case True
    obtain r t where r: "Remove ch (tbl s) = (r, t)" by fastforce
    from Remove_get[OF r, of ch] r d g True assms(3,4) show ?thesis
      by (auto simp: handle_data_def split: option.splits)
  next
    case False
    then have "concat chunks = payload m"
      using g send_loop_full[of "payload m" 0 rs rc chunks] by (auto simp: guacd_Send_def split: if_splits)
    with d g False assms(3,4) show ?thesis by (auto simp: handle_data_def)
  qed
qed

text \<open>The sender takes the first message; the reply of the handler is in \<open>os'\<close>.\<close>

lemma handledE:
  assumes "gcd_step (Handle cfd now rs) s = Some (s', os)" and "gcd_acks s"
  obtains m q os' where "queue (recv_queue s) = m # queue q" "recv_queue s' = q" "os = Dequeued m # os'"
    "handle_message cfd now rs m (s\<lparr>recv_queue := q\<rparr>) = Some (s', os')"
proof -
  from assms(1) obtain m q os' where h: "Dequeue (recv_queue s) = (Got m, q)" "os = Dequeued m # os'"
    "handle_message cfd now rs m (s\<lparr>recv_queue := q\<rparr>) = Some (s', os')"
    using handleE by metis
  have "queue (recv_queue s) = m # queue q" using h(1) by (auto simp: Dequeue_def split: if_splits)
  moreover have "gcd_acks (s\<lparr>recv_queue := q\<rparr>)" using assms(2) by (simp add: gcd_acks_def)
  with message_own[OF h(3)] have "recv_queue s' = q" by simp
  ultimately show thesis using h(2,3) that by blast
qed

lemma high_handles:
  assumes ok: "gcd_inv s" "gcd_acks s" and k: "kept_high ch fd ms s ws"
    and st: "gcd_step (Handle cfd now rs) s = Some (s', os)"
  shows "cut_high ch fd s' \<or> kept_high ch fd ms s' (ws @ written fd os)"
proof (rule handledE[OF st ok(2)])
  fix m q os'
  assume h: "queue (recv_queue s) = m # queue q" "recv_queue s' = q" "os = Dequeued m # os'"
    "handle_message cfd now rs m (s\<lparr>recv_queue := q\<rparr>) = Some (s', os')"
  have g: "Get ch (tbl s) = Some fd" "data_only ch s" using k by (simp_all add: kept_high_def)
  then have d': "data_only ch s'" using h(1,2) by (simp add: data_only_def split: if_splits)
  show ?thesis
  proof (cases "channel m = ch")
    case True
    then have "action m = NONE" using g(2) h(1) by (simp add: data_only_def)
    from own_data[OF h(4) this True] g(1) have
      "Get ch (tbl s') \<noteq> Some fd \<or> Get ch (tbl s') = Some fd \<and> written fd os = [payload m]" by (simp add: h(3))
    then show ?thesis using k d' True h(1,2) by (auto simp: kept_high_def cut_high_def)
  next
    case False
    have "SentTo fd bs \<notin> set os'" for bs
    proof
      assume "SentTo fd bs \<in> set os'"
      from message_sent[OF h(4) this] have "Get (channel m) (tbl s) = Some fd" by auto
      with bound_once[OF ok(1) g(1)] False show False by blast
    qed
    then have "written fd os = []" using h(3) written_none by simp
    with other_message[OF h(4) False] h(1,2) False kept_same[OF k, of s' os] show ?thesis by simp
  qed
qed

lemma high_reads_guacd:
  assumes "gcd_acks s" and k: "kept_high ch fd ms s ws" and st: "gcd_step (Read i got now) s = Some (s', os)"
  shows "kept_high ch fd (ms @ high_in ch s (Read i got now)) s' (ws @ written fd os)"
proof -
  obtain r rq sq where r: "reader_iteration got now (threads s ! i) = (r, rq, sq)" by (metis prod_cases3)
  from st have s': "i < length (threads s)" "s' = reader_read i got now s" "os = []"
    by (auto simp: at_pc_def split: if_splits)
  with assms(1) iteration_acks[OF r] have "\<forall>m\<in>set rq. action m = NONE \<and> sync_acks (payload m)"
    by (auto simp: gcd_acks_def)
  then have "list_all (\<lambda>m. action m = NONE \<and> sync_acks (payload m)) (on_channel ch rq)"
    by (simp add: list_all_iff on_channel_def)
  with kept_ack[OF k, of s' "on_channel ch rq" os] s' r show ?thesis
    by (simp add: reader_read_def high_in_def gcd_input_def)
qed

lemma high_unbinds:
  assumes k: "kept_high ch fd ms s ws" and st: "gcd_step (Unbind i) s = Some (s', os)"
  shows "cut_high ch fd s' \<or> kept_high ch fd ms s' (ws @ written fd os)"
proof -
  obtain r t where r: "Remove (rd_channel (threads s ! i)) (tbl s) = (r, t)" by fastforce
  from st r have s': "Get c (tbl s') = (if c = rd_channel (threads s ! i) then None else Get c (tbl s))"
      "recv_queue s' = recv_queue s" "os = []" for c
    using Remove_get[OF r, of c] by (auto simp: reader_unbind_def Let_def set_pc_def split: if_splits)
  show ?thesis
  proof (cases "rd_channel (threads s ! i) = ch")
    case True
    with s' k show ?thesis by (simp add: cut_high_def kept_high_def data_only_def)
  next
    case False
    with s' kept_same[OF k, of s' os] show ?thesis by simp
  qed
qed

lemma step_high:
  assumes ok: "gcd_inv s" "gcd_acks s" and k: "kept_high ch fd ms s ws" and st: "gcd_step e s = Some (s', os)"
    and good: "list_all (\<lambda>m. action m = NONE) (high_in ch s e)"
  shows "cut_high ch fd s' \<or> kept_high ch fd (ms @ high_in ch s e) s' (ws @ written fd os)"
proof (cases e)
  case (UdpRecv r)
  with st good recv_for[of ch r "recv_queue s"] kept_arrival[OF k, of s' "high_in ch s e" os] show ?thesis
    by (auto simp: high_in_def gcd_input_def split: if_splits)
next
  case (Handle cfd now rs)
  with high_handles[OF ok k] st show ?thesis by (simp add: high_in_def gcd_input_def del: gcd_step.simps)
next
  case (Read i got now)
  with high_reads_guacd[OF ok(2) k] st show ?thesis by blast
next
  case (Unbind i)
  with high_unbinds[OF k] st show ?thesis by (simp add: high_in_def gcd_input_def del: gcd_step.simps)
qed (use st kept_same[OF k, of s' os] in \<open>auto simp: high_in_def gcd_input_def set_pc_def CloseQueue_def written_def comp_def
    split: if_splits prod.splits option.splits\<close>)

lemma cut_step:
  assumes ok: "gcd_acks s" and c: "cut_high ch fd s" and st: "gcd_step e s = Some (s', os)"
    and good: "list_all (\<lambda>m. action m = NONE) (high_in ch s e)"
  shows "cut_high ch fd s'"
proof (cases e)
  case (UdpRecv r)
  with st c good recv_for[of ch r "recv_queue s"] show ?thesis
    by (auto simp: cut_high_def data_only_def high_in_def gcd_input_def split: if_splits)
next
  case (Handle cfd now rs)
  show ?thesis
  proof (rule handledE[OF st[unfolded Handle] ok])
    fix m q os'
    assume h: "queue (recv_queue s) = m # queue q" "recv_queue s' = q"
      "handle_message cfd now rs m (s\<lparr>recv_queue := q\<rparr>) = Some (s', os')"
    with c have "channel m = ch \<Longrightarrow> action m = NONE" by (simp add: cut_high_def data_only_def)
    with message_table[OF h(3), of ch fd] c have "Get ch (tbl s') \<noteq> Some fd" by (auto simp: cut_high_def)
    with c h(1,2) show ?thesis by (simp add: cut_high_def data_only_def split: if_splits)
  qed
next
  case (Read i got now)
  obtain r rq sq where r: "reader_iteration got now (threads s ! i) = (r, rq, sq)" by (metis prod_cases3)
  from Read st have s': "i < length (threads s)" "s' = reader_read i got now s"
    by (auto simp: at_pc_def split: if_splits)
  with ok iteration_acks[OF r] have "\<forall>m\<in>set rq. action m = NONE" by (auto simp: gcd_acks_def)
  with s' r c show ?thesis by (auto simp: reader_read_def cut_high_def data_only_def list_all_iff on_channel_def)
next
  case (Unbind i)
  then have "Get ch (tbl s') \<noteq> Some fd" using other_table[OF st, of ch fd] c by (auto simp: cut_high_def)
  moreover have "data_only ch s'" using Unbind st c
    by (auto simp: reader_unbind_def Let_def set_pc_def cut_high_def data_only_def split: if_splits prod.splits)
  ultimately show ?thesis by (simp add: cut_high_def)
qed (use st c other_table[OF st, of ch fd] in
    \<open>auto simp: cut_high_def data_only_def set_pc_def CloseQueue_def split: if_splits prod.splits option.splits\<close>)

lemma ok_high: "gcd_inv s \<and> gcd_acks s \<Longrightarrow> gcd_step e s = Some (s', os) \<Longrightarrow> gcd_inv s' \<and> gcd_acks s'"
  using step_inv gcd_step_gets by blast

interpretation high: stage gcd_step "high_in ch" "written fd" "\<lambda>s. gcd_inv s \<and> gcd_acks s" "\<lambda>m. action m = NONE"
  "cut_high ch fd" "kept_high ch fd" for ch fd
proof unfold_locales
  show "gcd_inv s' \<and> gcd_acks s'" if "gcd_inv s \<and> gcd_acks s" "gcd_step e s = Some (s', os)" for s e s' os
    using that by (rule ok_high)
  show "cut_high ch fd s'" if "gcd_inv s \<and> gcd_acks s" "cut_high ch fd s" "gcd_step e s = Some (s', os)"
    "list_all (\<lambda>m. action m = NONE) (high_in ch s e)" for s e s' os
    using cut_step that by blast
  show "cut_high ch fd s' \<or> kept_high ch fd (xs @ high_in ch s e) s' (ys @ written fd os)"
    if "gcd_inv s \<and> gcd_acks s" "kept_high ch fd xs s ys" "gcd_step e s = Some (s', os)"
      "list_all (\<lambda>m. action m = NONE) (high_in ch s e)" for s xs ys e s' os
    using step_high that by blast
qed simp_all

end
