(* ===== verification/Flow_Up.thy ===== *)
theory Flow_Up imports Flow_High "HOL-Library.Sublist" begin

text \<open>
  The stages joined: what a browser types in an open session against what guacd is given, in every run in
  which the two upward links keep the order and lose nothing, however the three processes, the other sessions and
  the return traffic interleave.
\<close>

section \<open>One process of the bridge as a stage\<close>

definition lows :: "bridge_event list \<Rightarrow> gml_event list" where
  "lows es = concat (map (\<lambda>e. case e of Low x \<Rightarrow> [x] | _ \<Rightarrow> []) es)"

definition gates :: "bridge_event list \<Rightarrow> event list" where
  "gates es = concat (map (\<lambda>e. case e of Gate x \<Rightarrow> [x] | _ \<Rightarrow> []) es)"

definition highs :: "bridge_event list \<Rightarrow> gcd_event list" where
  "highs es = concat (map (\<lambda>e. case e of High x \<Rightarrow> [x] | _ \<Rightarrow> []) es)"

lemma parts_simps [simp]:
  "lows [] = []" "gates [] = []" "highs [] = []"
  "lows (Low x # es) = x # lows es" "lows (Gate y # es) = lows es" "lows (High z # es) = lows es"
  "gates (Low x # es) = gates es" "gates (Gate y # es) = y # gates es" "gates (High z # es) = gates es"
  "highs (Low x # es) = highs es" "highs (Gate y # es) = highs es" "highs (High z # es) = z # highs es"
  by (simp_all add: lows_def gates_def highs_def)

lemma bridge_low:
  "bridge_exec es b = Some b' \<Longrightarrow>
   \<exists>xs tr. stage_run gml_step arr (lows es) (low b) = Some (low b', xs, tr) \<and> low_trace b' = low_trace b @ tr"
proof (induction es arbitrary: b)
  case (Cons e es)
  from Cons.prems obtain b1 where b1: "bridge_step e b = Some b1" "bridge_exec es b1 = Some b'"
    by (auto split: option.splits)
  from Cons.IH[OF b1(2)] b1(1) show ?case
    by (cases e) (auto split: if_splits option.splits)
qed simp

lemma bridge_gate:
  "bridge_exec es b = Some b' \<Longrightarrow>
   \<exists>xs tr. stage_run guard_step arr (gates es) (gate b) = Some (gate b', xs, tr) \<and>
     sent (gate_trace b') = sent (gate_trace b) @ tr"
proof (induction es arbitrary: b)
  case (Cons e es)
  from Cons.prems obtain b1 where b1: "bridge_step e b = Some b1" "bridge_exec es b1 = Some b'"
    by (auto split: option.splits)
  from Cons.IH[OF b1(2)] b1(1) show ?case
    by (cases e) (auto split: if_splits option.splits)
qed simp

lemma bridge_high:
  "bridge_exec es b = Some b' \<Longrightarrow>
   \<exists>xs tr. stage_run gcd_step arr (highs es) (high b) = Some (high b', xs, tr) \<and> high_trace b' = high_trace b @ tr"
proof (induction es arbitrary: b)
  case (Cons e es)
  from Cons.prems obtain b1 where b1: "bridge_step e b = Some b1" "bridge_exec es b1 = Some b'"
    by (auto split: option.splits)
  from Cons.IH[OF b1(2)] b1(1) show ?case
    by (cases e) (auto split: if_splits option.splits)
qed simp

text \<open>What a stage takes in, when that is read off the events alone.\<close>

lemma stage_run_taken:
  "stage_run step (\<lambda>s e. f e) es s = Some (s', xs, tr) \<Longrightarrow> xs = concat (map f es)"
  by (induction es arbitrary: s xs tr) (auto split: option.splits)

section \<open>In order and complete links\<close>

definition gate_taken :: "bridge_event list \<Rightarrow> string list" where
  "gate_taken es = concat (map (\<lambda>e. case guard_input e of None \<Rightarrow> [] | Some d \<Rightarrow> [d]) (gates es))"

definition high_taken :: "bridge_event list \<Rightarrow> string list" where
  "high_taken es = concat (map (\<lambda>e. case gcd_input e of None \<Rightarrow> [] | Some d \<Rightarrow> [d]) (highs es))"

lemma messages_taken:
  "concat (map (\<lambda>e. case f e of None \<Rightarrow> [] | Some d \<Rightarrow> message_for ch d) es) =
   messages_for ch (concat (map (\<lambda>e. case f e of None \<Rightarrow> [] | Some d \<Rightarrow> [d]) es))"
  by (induction es) (auto split: option.splits)

text \<open>What was sent before \<open>es\<close> has been received before, and in \<open>es\<close> datagrams arrive in the order they are sent.\<close>

definition in_order :: "bridge_event list \<Rightarrow> bridge \<Rightarrow> bridge \<Rightarrow> bool" where
  "in_order es b b' \<longleftrightarrow> prefix (sent_datagrams (low_trace b) @ gate_taken es) (sent_datagrams (low_trace b')) \<and>
     prefix (sent (gate_trace b) @ high_taken es) (sent (gate_trace b'))"

text \<open>Nothing of the channel is under way on the links or waits to be sent.\<close>

definition arrived :: "channel \<Rightarrow> bridge_event list \<Rightarrow> bridge \<Rightarrow> bridge \<Rightarrow> bool" where
  "arrived ch es b b' \<longleftrightarrow> sent_datagrams (low_trace b') = sent_datagrams (low_trace b) @ gate_taken es \<and>
     sent (gate_trace b') = sent (gate_trace b) @ high_taken es \<and> on_channel ch (queue (g_send (low b'))) = []"

definition browser_reads :: "nat \<Rightarrow> bridge_event list \<Rightarrow> bridge \<Rightarrow> string list" where
  "browser_reads i es b =
     (case stage_run gml_step (browser_read i) (lows es) (low b) of None \<Rightarrow> [] | Some (s, xs, tr) \<Rightarrow> xs)"

text \<open>The session is open in all three processes, with nothing of it on its way.\<close>

definition session_line :: "nat \<Rightarrow> channel \<Rightarrow> fd \<Rightarrow> int \<Rightarrow> bridge \<Rightarrow> bool" where
  "session_line i ch fd sidx b \<longleftrightarrow> line_low i ch (g_threads (low b)) \<and> on_channel ch (queue (g_send (low b))) = [] \<and>
     line_gate ch sidx (gst (gate b)) \<and> Get ch (tbl (high b)) = Some fd \<and> waiting ch (high b) = []"

text \<open>It has not been closed: the reader is there, the channel is approved, guacd is connected.\<close>

definition session_up :: "nat \<Rightarrow> channel \<Rightarrow> fd \<Rightarrow> bridge \<Rightarrow> bool" where
  "session_up i ch fd b \<longleftrightarrow> \<not> left_low i (low b) \<and> ch \<in> approved (gst (gate b)) \<and> Get ch (tbl (high b)) = Some fd"

section \<open>The lower link\<close>

lemma wire_between:
  assumes "gml_run tr s" and "gml_run (tr @ tr') s'"
  shows "on_channel ch (queue (g_send s)) @ on_channel ch (bridge_out tr') =
    messages_for ch (sent_datagrams tr') @ on_channel ch (queue (g_send s'))"
proof -
  have w: "map Serialize (bridge_out tr) = sent_datagrams tr @ map Serialize (queue (g_send s))"
    "\<forall>m\<in>set (bridge_out tr). fits_payload m"
    "map Serialize (bridge_out (tr @ tr')) = sent_datagrams (tr @ tr') @ map Serialize (queue (g_send s'))"
    "\<forall>m\<in>set (bridge_out (tr @ tr')). fits_payload m"
    using run_wire[OF assms(1)] run_wire[OF assms(2)] unfolding wire_inv_def by blast+
  have fits: "\<forall>m\<in>set ms. fits_payload m" if e: "map Serialize ns = ds @ map Serialize ms" and n: "\<forall>m\<in>set ns. fits_payload m" for ms ns ds
  proof
    fix m
    assume "m \<in> set ms"
    then have "Serialize m \<in> set (map Serialize ns)" unfolding e by simp
    then obtain n where "n \<in> set ns" "Serialize m = Serialize n" by auto
    with n show "fits_payload m" using Serialize_inj by blast
  qed
  note q = fits[OF w(1,2)] and q' = fits[OF w(3,4)]
  have "map Serialize (queue (g_send s)) @ map Serialize (bridge_out tr') =
      sent_datagrams tr' @ map Serialize (queue (g_send s'))"
    using w(1,3) by simp
  from arg_cong[OF this, of "messages_for ch"] q q' w(4) show ?thesis
    by (simp add: messages_for_Serialize)
qed

definition typed_chunks :: "instr list list \<Rightarrow> instr list list" where
  "typed_chunks iss = filter (\<lambda>is. is \<noteq> []) (map (filter (\<lambda>i. \<not> is_keepalive i)) iss)"

lemma typed_chunks_carry: "concat (map (typed ch) iss) = map (carry ch \<circ> wire) (typed_chunks iss)"
  by (induction iss) (auto simp: typed_chunks_def packet_def)

lemma typed_chunks_ok: "list_all chunk_ok iss \<Longrightarrow> list_all chunk_ok (typed_chunks iss)"
  by (auto simp: typed_chunks_def chunk_ok_def list_all_iff)

lemma gated_typed: "gated sidx (typed_chunks iss) = gated sidx iss"
proof (induction iss arbitrary: sidx)
  case (Cons x iss)
  let ?k = "filter (\<lambda>i. \<not> is_keepalive i) x"
  have "policy_filter sidx ?k = policy_filter sidx x" "policy_state sidx ?k = policy_state sidx x"
    by (simp_all add: policy_filter_keepalive policy_state_keepalive)
  with Cons.IH show ?case by (cases "?k = []") (auto simp: typed_chunks_def Let_def)
qed (simp add: typed_chunks_def)

lemma gated_prefix: "prefix jss iss \<Longrightarrow> prefix (gated sidx jss) (gated sidx iss)"
  by (elim prefixE) (simp add: gated_append)

lemma messages_prefix: "prefix xs ys \<Longrightarrow> prefix (messages_for ch xs) (messages_for ch ys)"
  by (elim prefixE) simp

lemma prefix_map: "prefix xs (map f ys) \<Longrightarrow> \<exists>zs. prefix zs ys \<and> xs = map f zs"
  by (metis append_eq_map_conv prefix_def)

lemma prefix_full: "prefix xs ys \<Longrightarrow> length xs = length ys \<Longrightarrow> xs = ys"
  by (auto simp: prefix_def)

section \<open>The three stages of a session\<close>

lemma up_low:
  assumes run: "bridge_run b" and line: "session_line i ch fd sidx b" and ex: "bridge_exec es b = Some b'"
    and up: "session_up i ch fd b'" and rd: "browser_reads i es b = map wire iss" and ok: "list_all chunk_ok iss"
  shows "\<exists>tr. low_trace b' = low_trace b @ tr \<and> map (carry ch \<circ> wire) (typed_chunks iss) =
    messages_for ch (sent_datagrams tr) @ on_channel ch (queue (g_send (low b')))"
proof -
  from bridge_run_inv[OF run] bridge_run_inv[OF bridge_exec_run[OF run ex]] have
    r: "gml_run (low_trace b) (low b)" "gml_run (low_trace b') (low b')"
    by (simp_all add: bridge_inv_def)
  from bridge_low[OF ex, of "browser_read i"] rd obtain tr where
    l: "stage_run gml_step (browser_read i) (lows es) (low b) = Some (low b', map wire iss, tr)" "low_trace b' = low_trace b @ tr"
    unfolding browser_reads_def by fastforce
  have "kept_low i ch [] (low b) []" using line by (simp add: kept_low_def session_line_def)
  from low.run_conserved[OF l(1) gml_run_inv[OF r(1)] this] up ok have
    "on_channel ch (bridge_out tr) = map (carry ch \<circ> wire) (typed_chunks iss)"
    by (simp add: session_up_def list_all_iff kept_low_def typed_chunks_carry)
  then show ?thesis
    using wire_between[OF r(1), of tr "low b'" ch] r(2) l(2) line by (simp add: session_line_def)
qed

lemma up_gate:
  assumes line: "session_line i ch fd sidx b" and ex: "bridge_exec es b = Some b'" and up: "session_up i ch fd b'"
    and x: "messages_for ch (gate_taken es) = map (carry ch \<circ> wire) jss" and ok: "list_all chunk_ok jss"
  shows "\<exists>tr. sent (gate_trace b') = sent (gate_trace b) @ tr \<and> messages_for ch tr = map (carry ch) (gated sidx jss)"
proof -
  from bridge_gate[OF ex] obtain xs tr where
    g: "stage_run guard_step (gate_in ch) (gates es) (gate b) = Some (gate b', xs, tr)"
      "sent (gate_trace b') = sent (gate_trace b) @ tr" by blast
  have "xs = map (carry ch \<circ> wire) jss"
    using stage_run_taken[of guard_step "\<lambda>e. case guard_input e of None \<Rightarrow> [] | Some d \<Rightarrow> message_for ch d"] g(1) x
    by (simp add: gate_in_def[abs_def] messages_taken gate_taken_def)
  moreover have "kept_gate ch sidx [] (gate b) []" using line by (simp add: kept_gate_def session_line_def)
  note gate.run_conserved[OF g(1) TrueI this]
  ultimately have "messages_for ch tr = map (carry ch) (gated sidx jss)"
    using up ok by (simp add: session_up_def kept_gate_def list_all_iff)
  with g(2) show ?thesis by blast
qed

lemma up_high:
  assumes run: "bridge_run b" and line: "session_line i ch fd sidx b" and ex: "bridge_exec es b = Some b'"
    and up: "session_up i ch fd b'" and x: "messages_for ch (high_taken es) = map (carry ch) ps"
  shows "\<exists>ws acks. written fd (high_trace b') = written fd (high_trace b) @ ws \<and> list_all sync_acks acks \<and>
    ws @ waiting ch (high b') \<in> shuffles ps acks"
proof -
  have r: "gcd_run (high_trace b) (high b)" using bridge_run_inv[OF run] by (simp add: bridge_inv_def)
  from bridge_high[OF ex] obtain xs tr where
    h: "stage_run gcd_step (high_in ch) (highs es) (high b) = Some (high b', xs, tr)" "high_trace b' = high_trace b @ tr"
    by blast
  have xs: "xs = map (carry ch) ps"
    using stage_run_taken[of gcd_step "\<lambda>e. case gcd_input e of None \<Rightarrow> [] | Some d \<Rightarrow> message_for ch d"] h(1) x
    by (simp add: high_in_def[abs_def] messages_taken high_taken_def)
  have k: "kept_high ch fd [] (high b) []"
    using line by (auto simp: kept_high_def session_line_def data_only_def intro!: exI[of _ "[]"])
  have inv: "gcd_inv (high b) \<and> gcd_acks (high b)" using run_inv[OF r] run_verdicts[OF r] by simp
  have "\<not> cut_high ch fd (high b')" using up by (simp add: session_up_def cut_high_def)
  with high.run_conserved[OF h(1) inv k] have "kept_high ch fd xs (high b') (written fd tr)"
    by (simp add: xs list_all_iff)
  with h(2) show ?thesis by (auto simp: kept_high_def xs comp_def)
qed

text \<open>A link that keeps the order carries a part of what is sent on it, and all of it if nothing is left.\<close>

lemma link_part:
  assumes "prefix (before @ taken) (before @ made)" and "messages_for ch made @ rest = map f ys"
  obtains zs where "prefix zs ys" and "messages_for ch taken = map f zs"
    and "taken = made \<Longrightarrow> rest = [] \<Longrightarrow> zs = ys"
proof -
  have "prefix (messages_for ch taken) (messages_for ch made)" using assms(1) by (intro messages_prefix) simp
  with assms(2) have "prefix (messages_for ch taken) (map f ys)" by (metis prefix_def append.assoc)
  from prefix_map[OF this] obtain zs where z: "prefix zs ys" "messages_for ch taken = map f zs" by blast
  then have "zs = ys" if "taken = made" "rest = []"
    using that assms(2) by (metis append_Nil2 length_map prefix_full)
  with z that show ?thesis by blast
qed

section \<open>Properties\<close>

text \<open>
  C5: order and completeness upwards. Take any run of the bridge, interleaved in any way with other sessions and
  with the return traffic, in which the upward links keep the order and a session is still up at the end. If its
  browser typed whole well-formed instructions, the writes to its guacd connection are, in order, the chunks the
  policy leaves of what was typed, up to a point and with only whole \<open>sync\<close> acknowledgements of gcdbroker's own
  between them; and all of them once nothing is under way.
\<close>

theorem session_in_order:
  assumes run: "bridge_run b" and line: "session_line i ch fd sidx b" and ex: "bridge_exec es b = Some b'"
    and ord: "in_order es b b'" and up: "session_up i ch fd b'"
    and rd: "browser_reads i es b = map wire iss" and ok: "list_all chunk_ok iss"
  shows "\<exists>ps ws acks. prefix ps (gated sidx iss) \<and> written fd (high_trace b') = written fd (high_trace b) @ ws \<and>
    list_all sync_acks acks \<and> ws @ waiting ch (high b') \<in> shuffles ps acks \<and>
    (arrived ch es b b' \<longrightarrow> ps = gated sidx iss)"
proof -
  let ?J = "typed_chunks iss"
  from up_low[OF run line ex up rd ok] obtain tr1 where
    l: "low_trace b' = low_trace b @ tr1"
      "messages_for ch (sent_datagrams tr1) @ on_channel ch (queue (g_send (low b'))) = map (carry ch \<circ> wire) ?J" by auto
  have "prefix (sent_datagrams (low_trace b) @ gate_taken es) (sent_datagrams (low_trace b) @ sent_datagrams tr1)"
    using ord l(1) by (simp add: in_order_def)
  from link_part[OF this l(2)] obtain K where K: "prefix K ?J" "messages_for ch (gate_taken es) = map (carry ch \<circ> wire) K"
    "gate_taken es = sent_datagrams tr1 \<Longrightarrow> on_channel ch (queue (g_send (low b'))) = [] \<Longrightarrow> K = ?J" by blast
  have "list_all chunk_ok K" using typed_chunks_ok[OF ok] K(1) by (auto simp: prefix_def)
  from up_gate[OF line ex up K(2) this] obtain tr2 where
    g: "sent (gate_trace b') = sent (gate_trace b) @ tr2" "messages_for ch tr2 @ [] = map (carry ch) (gated sidx K)" by auto
  have "prefix (sent (gate_trace b) @ high_taken es) (sent (gate_trace b) @ tr2)" using ord g(1) by (simp add: in_order_def)
  from link_part[OF this g(2)] obtain ps where ps: "prefix ps (gated sidx K)" "messages_for ch (high_taken es) = map (carry ch) ps"
    "high_taken es = tr2 \<Longrightarrow> ps = gated sidx K" by blast
  from up_high[OF run line ex up ps(2)] obtain ws acks where
    h: "written fd (high_trace b') = written fd (high_trace b) @ ws" "list_all sync_acks acks"
      "ws @ waiting ch (high b') \<in> shuffles ps acks" by blast
  have "ps = gated sidx iss" if "arrived ch es b b'"
    using that l(1) g(1) K(3) ps(3) by (simp add: arrived_def gated_typed)
  moreover have "prefix ps (gated sidx iss)" using ps(1) gated_prefix[OF K(1), of sidx] by (simp add: gated_typed)
  ultimately show ?thesis using h by blast
qed

text \<open>The example session, open and idle, and one line typed in it.\<close>

definition ex_typing :: "bridge_event list" where
  "ex_typing = map Low (reads 0 (wire ex_browser)) @ [Low GUdpSend, Gate (DenyCheck [0]),
     Gate (Recv (Inr (Serialize (mk_msg 0 NONE ''3.key,2.65,1.1;''))))] @
     to_high (mk_msg 0 NONE ''3.key,2.65,1.1;'') (-1) [Inr 15]"

lemma ex_typing_ran:
  "bridge_ran ex_ready (\<lambda>b. session_line 0 0 9 (-1) b \<and>
     (case bridge_exec ex_typing b of
        None \<Rightarrow> False
      | Some b' \<Rightarrow> in_order ex_typing b b' \<and> session_up 0 0 9 b' \<and> arrived 0 ex_typing b b' \<and>
          browser_reads 0 ex_typing b = [wire ex_browser] \<and> waiting 0 (high b') = []))"
  by code_simp

lemma session_in_order_witness:
  "\<exists>b b' ws. bridge_run b \<and> bridge_exec ex_typing b = Some b' \<and>
     written 9 (high_trace b') = written 9 (high_trace b) @ ws \<and> ''3.key,2.65,1.1;'' \<in> set ws"
proof (rule bridge_ranE[OF ex_typing_ran])
  fix b
  assume b: "bridge_run b" "session_line 0 0 9 (-1) b \<and>
     (case bridge_exec ex_typing b of
        None \<Rightarrow> False
      | Some b' \<Rightarrow> in_order ex_typing b b' \<and> session_up 0 0 9 b' \<and> arrived 0 ex_typing b b' \<and>
          browser_reads 0 ex_typing b = [wire ex_browser] \<and> waiting 0 (high b') = [])"
  then obtain b' where b': "bridge_exec ex_typing b = Some b'" "in_order ex_typing b b'" "session_up 0 0 9 b'"
    "arrived 0 ex_typing b b'" "browser_reads 0 ex_typing b = map wire [ex_browser]" "waiting 0 (high b') = []"
    by (auto split: option.splits)
  have "list_all chunk_ok [ex_browser]" by code_simp
  from session_in_order[OF b(1) _ b'(1-3,5) this, of "-1"] b(2) b'(4,6) obtain ws acks where
    "written 9 (high_trace b') = written 9 (high_trace b) @ ws" "ws \<in> shuffles (gated (-1) [ex_browser]) acks"
    by auto
  moreover have "gated (-1) [ex_browser] = [''3.key,2.65,1.1;'']" by code_simp
  ultimately show ?thesis using b(1) b'(1) set_shuffles[of ws "[''3.key,2.65,1.1;'']" acks] by auto
qed

end
