(* ===== verification/Back_High.thy ===== *)
theory Back_High imports Flow_Up begin

text \<open>
  The gcdbroker stage of the way back: what the reader of a channel gets from guacd against what is sent for
  that channel, whatever the other readers and the messages from the guard do.
\<close>

section \<open>The session at gcdbroker\<close>

text \<open>What \<open>Receive\<close> gave reader \<open>j\<close>, when it got data.\<close>

definition guacd_read :: "nat \<Rightarrow> gcd_event \<Rightarrow> string list" where
  "guacd_read j e =
     (case e of
        Read k got now \<Rightarrow>
          if k \<noteq> j then []
          else (case guacd_Receive (MAX_PAYLOAD_SIZE + 1) got of
                  (received, buffer) \<Rightarrow> if received > 0 then [buffer] else [])
      | _ \<Rightarrow> [])"

text \<open>What reaches reader \<open>j\<close> and what arrives for its channel.\<close>

definition back_in :: "nat \<Rightarrow> channel \<Rightarrow> gcd \<Rightarrow> gcd_event \<Rightarrow> (string + BridgeMessage) list" where
  "back_in j ch s e = map Inl (guacd_read j e) @ map Inr (high_in ch s e)"

definition reads_of :: "(string + BridgeMessage) list \<Rightarrow> string list" where
  "reads_of xs = concat (map (case_sum (\<lambda>b. [b]) (\<lambda>m. [])) xs)"

lemma reads_of_simps [simp]:
  "reads_of [] = []" "reads_of (xs @ ys) = reads_of xs @ reads_of ys"
  "reads_of (map Inl bs) = bs" "reads_of (map Inr ms) = []"
  by (simp add: reads_of_def, simp add: reads_of_def, induction bs, simp_all add: reads_of_def)

text \<open>No verdict and no teardown of the channel.\<close>

definition only_data :: "string + BridgeMessage \<Rightarrow> bool" where
  "only_data x \<longleftrightarrow> (case x of Inl b \<Rightarrow> True | Inr m \<Rightarrow> action m = NONE)"

text \<open>Reader \<open>j\<close> has the channel, and no other reader still unbinds it.\<close>

definition unbinds :: "reader \<Rightarrow> bool" where
  "unbinds r \<longleftrightarrow> rd_pc r = Reading \<or> rd_pc r = LoopLeft"

definition line_high :: "nat \<Rightarrow> channel \<Rightarrow> reader list \<Rightarrow> bool" where
  "line_high j ch ts \<longleftrightarrow> j < length ts \<and> rd_channel (ts ! j) = ch \<and>
     (\<forall>k < length ts. k \<noteq> j \<longrightarrow> unbinds (ts ! k) \<longrightarrow> rd_channel (ts ! k) \<noteq> ch)"

definition left_high :: "nat \<Rightarrow> gcd \<Rightarrow> bool" where
  "left_high j s \<longleftrightarrow> j < length (threads s) \<and> rd_pc (threads s ! j) \<noteq> Reading"

definition kept_back :: "nat \<Rightarrow> channel \<Rightarrow> (string + BridgeMessage) list \<Rightarrow> gcd \<Rightarrow> BridgeMessage list \<Rightarrow> bool" where
  "kept_back j ch xs s ms \<longleftrightarrow> line_high j ch (threads s) \<and> data_only ch s \<and>
     ms @ on_channel ch (queue (send_queue s)) = map (carry ch) (reads_of xs)"

abbreviation sent_for :: "channel \<Rightarrow> obs list \<Rightarrow> BridgeMessage list" where
  "sent_for ch os \<equiv> messages_for ch (gcd_sent os)"

section \<open>Each step keeps it\<close>

lemma gcd_sent_simps [simp]: "gcd_sent [] = []" "gcd_sent (map ShutFd fds) = []"
  by (simp_all add: gcd_sent_def comp_def)

lemma message_for_fits: "fits m \<Longrightarrow> message_for ch (Serialize m) = on_channel ch [m]"
  by (simp add: fits_def)

lemma on_channel_carry [simp]: "on_channel ch (map (carry ch) bs) = map (carry ch) bs"
  by (simp add: on_channel_def)

lemma line_high_other:
  assumes "line_high j ch ts" and "k \<noteq> j" and "rd_channel r = rd_channel (ts ! k)"
    and "unbinds r \<Longrightarrow> unbinds (ts ! k)"
  shows "line_high j ch (ts[k := r])"
  using assms by (cases "k < length ts") (auto simp: line_high_def nth_list_update)

lemma line_high_self: "line_high j ch ts \<Longrightarrow> rd_channel r = ch \<Longrightarrow> line_high j ch (ts[j := r])"
  by (auto simp: line_high_def)

lemma line_high_new: "line_high j ch ts \<Longrightarrow> rd_channel r \<noteq> ch \<Longrightarrow> line_high j ch (ts @ [r])"
  by (auto simp: line_high_def nth_append less_Suc_eq)

text \<open>What a message does to the threads and to the queue back: at most one more of each, for its own channel.\<close>

lemma verdict_back:
  assumes "handle_verdict cfd now m s = (s', os)"
  shows "(threads s' = threads s \<or> (\<exists>r. threads s' = threads s @ [r] \<and> rd_channel r = channel m)) \<and>
    (\<exists>x. queue (send_queue s') = queue (send_queue s) @ [x] \<and> channel x = channel m) \<and> gcd_sent os = []"
  using assms
  by (auto simp: handle_verdict_def gcd_sent_def Let_def new_reader_def split: prod.splits if_splits bool.splits)

lemma teardown_back:
  assumes "handle_teardown m s = (s', os)"
  shows "threads s' = threads s \<and> (\<exists>x. queue (send_queue s') = queue (send_queue s) @ [x] \<and> channel x = channel m) \<and>
    gcd_sent os = []"
  using assms by (auto simp: handle_teardown_def gcd_sent_def split: prod.splits option.splits)

lemma message_back:
  assumes h: "handle_message cfd now rs m s = Some (s', os)" and m: "channel m = ch \<Longrightarrow> action m = NONE"
    and l: "line_high j ch (threads s)"
  shows "line_high j ch (threads s') \<and> on_channel ch (queue (send_queue s')) = on_channel ch (queue (send_queue s)) \<and>
    gcd_sent os = []"
proof (cases "action m")
  case NONE
  with h l show ?thesis
    by (auto simp: handle_message_def handle_data_def gcd_sent_def split: prod.splits option.splits if_splits)
next
  case APPROVAL
  with m have "channel m \<noteq> ch" by auto
  moreover have "line_high j ch (threads s')" if "threads s' = threads s \<or> (\<exists>r. threads s' = threads s @ [r] \<and> rd_channel r = channel m)"
    using that l line_high_new[OF l] calculation by auto
  moreover have "handle_verdict cfd now m s = (s', os)" using APPROVAL h by (simp add: handle_message_def)
  ultimately show ?thesis using verdict_back by fastforce
next
  case SHUTDOWN_CHANNEL
  with m have "channel m \<noteq> ch" by auto
  with SHUTDOWN_CHANNEL h teardown_back[of m s s' os] l show ?thesis by (auto simp: handle_message_def)
next
  case CREATE_CHANNEL
  with h l show ?thesis by (simp add: handle_message_def)
qed

lemma back_read_self:
  assumes "line_high j ch (threads s)" and "reader_iteration got now (threads s ! j) = (r, rq, sq)"
  shows "line_high j ch ((threads s)[j := r]) \<and> sq = map (carry ch) (guacd_read j (Read j got now)) \<and>
    (\<forall>m\<in>set rq. action m = NONE)"
  using assms iteration_keeps[OF assms(2)]
  by (auto simp: reader_iteration_def guacd_read_def line_high_def keepalive_check_def Let_def nth_list_update
      split: prod.splits if_splits)

lemma kept_idle:
  assumes "kept_back j ch xs s ms" and "line_high j ch (threads s')" and "data_only ch s'"
    and "on_channel ch (queue (send_queue s')) = on_channel ch (queue (send_queue s))" and "gcd_sent os = []"
    and "reads_of ys = []"
  shows "kept_back j ch (xs @ ys) s' (ms @ sent_for ch os)"
  using assms by (simp add: kept_back_def)

text \<open>Another reader moves on.\<close>

lemma kept_moved:
  assumes k: "kept_back j ch xs s ms" and "\<not> left_high j s" and i: "i < length (threads s)" "rd_pc (threads s ! i) \<noteq> Reading"
    and "pc \<noteq> Reading" and "pc = LoopLeft \<Longrightarrow> rd_pc (threads s ! i) = LoopLeft"
    and s': "threads s' = (threads s)[i := (threads s ! i)\<lparr>rd_pc := pc\<rparr>]" "recv_queue s' = recv_queue s"
    and q: "rd_channel (threads s ! i) \<noteq> ch \<Longrightarrow> on_channel ch (queue (send_queue s')) = on_channel ch (queue (send_queue s))"
      "rd_pc (threads s ! i) = LoopLeft \<or> send_queue s' = send_queue s"
    and "gcd_sent os = []" and "reads_of ys = []"
  shows "kept_back j ch (xs @ ys) s' (ms @ sent_for ch os)"
proof -
  have l: "line_high j ch (threads s)" using k by (simp add: kept_back_def)
  have ij: "i \<noteq> j" using assms(2) i by (auto simp: left_high_def)
  have "line_high j ch (threads s')" unfolding s' by (rule line_high_other[OF l ij]) (use assms(5,6) in \<open>simp_all add: unbinds_def\<close>)
  moreover have "on_channel ch (queue (send_queue s')) = on_channel ch (queue (send_queue s))"
    using q l i(1) ij unfolding line_high_def unbinds_def by metis
  moreover have "data_only ch s'" using k s' by (simp add: kept_back_def data_only_def)
  ultimately show ?thesis using kept_idle[OF k _ _ _ assms(11,12)] by simp
qed

lemmas back_in_defs = back_in_def guacd_read_def high_in_def gcd_input_def

lemma back_received:
  assumes k: "kept_back j ch xs s ms" and good: "list_all only_data (back_in j ch s (UdpRecv r))"
  shows "kept_back j ch (xs @ back_in j ch s (UdpRecv r)) (s\<lparr>recv_queue := udp_recv_step r (recv_queue s)\<rparr>) (ms @ sent_for ch [])"
proof -
  have "data_only ch (s\<lparr>recv_queue := udp_recv_step r (recv_queue s)\<rparr>)"
    using k good recv_for[of ch r "recv_queue s"]
    by (auto simp: kept_back_def data_only_def back_in_defs only_data_def list_all_iff)
  with k show ?thesis by (simp add: back_in_defs kept_back_def)
qed

lemma back_handled:
  assumes k: "kept_back j ch xs s ms" and st: "gcd_step (Handle cfd now rs) s = Some (s', os)" and "reads_of ys = []"
  shows "kept_back j ch (xs @ ys) s' (ms @ sent_for ch os)"
proof -
  from st obtain m q os' where h: "Dequeue (recv_queue s) = (Got m, q)" "os = Dequeued m # os'"
    "handle_message cfd now rs m (s\<lparr>recv_queue := q\<rparr>) = Some (s', os')"
    by (rule handleE)
  have q: "queue (recv_queue s) = m # queue q" using h(1) by (auto simp: Dequeue_def split: if_splits)
  have d: "channel m = ch \<Longrightarrow> action m = NONE" using k q by (auto simp: kept_back_def data_only_def)
  have "recv_queue s' = q"
    using h(3) by (auto simp: handle_message_def handle_verdict_def handle_teardown_def handle_data_def Let_def
        split: ChannelAction.splits prod.splits option.splits if_splits bool.splits)
  then have "data_only ch s'" using k q by (auto simp: kept_back_def data_only_def split: if_splits)
  with message_back[OF h(3) d, of ch j] k h(2) kept_idle[OF k, of s' os ys] assms(3) show ?thesis
    by (auto simp: kept_back_def gcd_sent_def)
qed

lemma back_sent:
  assumes ok: "sized [] s" and k: "kept_back j ch xs s ms" and st: "gcd_step UdpSend s = Some (s', os)"
  shows "kept_back j ch (xs @ []) s' (ms @ sent_for ch os)"
proof -
  from st obtain m q where u: "Dequeue (send_queue s) = (Got m, q)" "os = [Datagram (Serialize m)]"
    "s' = s\<lparr>send_queue := q\<rparr>"
    by (auto simp: udp_send_step_def split: prod.splits option.splits dequeued.splits)
  have q: "queue (send_queue s) = m # queue q" using u(1) by (auto simp: Dequeue_def split: if_splits)
  with ok have "fits m" by (simp add: sized_def)
  from message_for_fits[OF this] u q k show ?thesis
    by (simp add: kept_back_def gcd_sent_def data_only_def split: if_splits)
qed

lemma back_reads:
  assumes k: "kept_back j ch xs s ms" and i: "i < length (threads s)" "rd_pc (threads s ! i) = Reading"
  shows "kept_back j ch (xs @ back_in j ch s (Read i got now)) (reader_read i got now s) (ms @ sent_for ch [])"
proof -
  let ?s = "reader_read i got now s"
  obtain r rq sq where r: "reader_iteration got now (threads s ! i) = (r, rq, sq)" by (metis prod_cases3)
  have l: "line_high j ch (threads s)" using k by (simp add: kept_back_def)
  have rc: "rd_channel r = rd_channel (threads s ! i)" using iteration_keeps[OF r] by simp
  have "\<forall>m\<in>set rq. action m = NONE" using iteration_out[OF r] by auto
  then have d: "data_only ch ?s" using k r by (auto simp: kept_back_def data_only_def reader_read_def list_all_iff on_channel_def)
  show ?thesis
  proof (cases "i = j")
    case True
    with back_read_self[OF l, of got now r rq sq] r k d show ?thesis
      by (simp add: kept_back_def back_in_def high_in_def gcd_input_def reader_read_def)
  next
    case False
    then have c: "rd_channel (threads s ! i) \<noteq> ch" using l i by (auto simp: line_high_def unbinds_def)
    have "on_channel ch sq = []" using iteration_out[OF r] c by auto
    moreover have "line_high j ch ((threads s)[i := r])" using line_high_other[OF l False rc] i(2) by (simp add: unbinds_def)
    ultimately show ?thesis using False r k d by (simp add: kept_back_def back_in_defs reader_read_def)
  qed
qed

lemma back_stops:
  assumes k: "kept_back j ch xs s ms" and "rd_pc (threads s ! i) = Reading" and "\<not> left_high j (set_pc i LoopLeft s)"
    and i: "i < length (threads s)"
  shows "kept_back j ch (xs @ []) (set_pc i LoopLeft s) (ms @ sent_for ch [])"
proof -
  have l: "line_high j ch (threads s)" using k by (simp add: kept_back_def)
  have "i \<noteq> j" using assms(3) i by (auto simp: left_high_def set_pc_def)
  then have "line_high j ch ((threads s)[i := (threads s ! i)\<lparr>rd_pc := LoopLeft\<rparr>])"
    by (intro line_high_other[OF l]) (use assms(2) in \<open>simp_all add: unbinds_def\<close>)
  with k show ?thesis by (simp add: set_pc_def kept_back_def data_only_def)
qed

lemma back_unbinds:
  assumes k: "kept_back j ch xs s ms" and alive: "\<not> left_high j s" and i: "i < length (threads s)" "rd_pc (threads s ! i) = LoopLeft"
  shows "kept_back j ch (xs @ []) (reader_unbind i s) (ms @ sent_for ch [])"
proof -
  obtain r t where r: "Remove (rd_channel (threads s ! i)) (tbl s) = (r, t)" by fastforce
  show ?thesis
    by (rule kept_moved[OF k alive, of i Unbound]) (use i r in \<open>auto simp: reader_unbind_def Let_def set_pc_def\<close>)
qed

lemma step_back:
  assumes ok: "sized [] s" and alive: "\<not> left_high j s" and k: "kept_back j ch xs s ms"
    and st: "gcd_step e s = Some (s', os)" and good: "list_all only_data (back_in j ch s e)"
  shows "left_high j s' \<or> kept_back j ch (xs @ back_in j ch s e) s' (ms @ sent_for ch os)"
proof (cases e)
  case (UdpRecv r)
  with st back_received[OF k] good show ?thesis by (auto split: if_splits)
next
  case (Handle cfd now rs)
  from back_handled[OF k st[unfolded Handle], of "[]"] Handle show ?thesis by (simp add: back_in_defs)
next
  case UdpSend
  from back_sent[OF ok k st[unfolded UdpSend]] UdpSend show ?thesis by (simp add: back_in_defs)
next
  case (Read i got now)
  with st back_reads[OF k] show ?thesis by (auto simp: at_pc_def split: if_splits)
next
  case (StopReading i)
  with st back_stops[OF k] show ?thesis by (auto simp: at_pc_def back_in_defs split: if_splits)
next
  case (Unbind i)
  with st back_unbinds[OF k alive] show ?thesis by (auto simp: at_pc_def back_in_defs split: if_splits)
next
  case (CloseFd i)
  with st have i: "i < length (threads s)" "rd_pc (threads s ! i) = Unbound" "s' = set_pc i FdClosed s" "gcd_sent os = []"
    by (auto simp: at_pc_def gcd_sent_def split: if_splits)
  show ?thesis
    by (rule disjI2, rule kept_moved[OF k alive, of i FdClosed]) (use i CloseFd in \<open>auto simp: set_pc_def back_in_defs\<close>)
next
  case (LeaveGroup i)
  with st have i: "i < length (threads s)" "rd_pc (threads s ! i) = FdClosed"
    "s' = (set_pc i Gone s)\<lparr>readers := Leave (readers s)\<rparr>" "os = []"
    by (auto simp: at_pc_def split: if_splits)
  show ?thesis
    by (rule disjI2, rule kept_moved[OF k alive, of i Gone]) (use i LeaveGroup in \<open>auto simp: set_pc_def back_in_defs\<close>)
qed (use st k in \<open>auto simp: kept_back_def back_in_defs data_only_def CloseQueue_def split: if_splits\<close>)

lemma left_high_step: "left_high j s \<Longrightarrow> gcd_step e s = Some (s', os) \<Longrightarrow> left_high j s'"
proof (cases e)
  case (Handle cfd now rs)
  assume l: "left_high j s" and st: "gcd_step e s = Some (s', os)"
  from Handle st obtain m q os' where h: "handle_message cfd now rs m (s\<lparr>recv_queue := q\<rparr>) = Some (s', os')"
    using handleE by metis
  have "\<exists>rs. threads s' = threads s @ rs"
    using h by (auto simp: handle_message_def handle_verdict_def handle_teardown_def handle_data_def Let_def
        split: ChannelAction.splits prod.splits option.splits if_splits bool.splits)
  with l show ?thesis by (auto simp: left_high_def nth_append)
qed (auto simp: left_high_def set_pc_def reader_unbind_def reader_read_def at_pc_def nth_list_update Let_def
    split: if_splits prod.splits option.splits)

lemma sized_step: "sized [] s \<Longrightarrow> gcd_step e s = Some (s', os) \<Longrightarrow> sized [] s'"
  using step_sized[of "[]" s e s' os] by (auto simp: sized_def)

interpretation back_high: stage gcd_step "back_in j ch" "sent_for ch" "sized []" only_data "left_high j" "kept_back j ch" for j ch
  by unfold_locales (auto simp: gcd_sent_def intro: left_high_step sized_step dest: step_back)

end
