(* ===== verification/Back_Low.thy ===== *)
theory Back_Low imports Back_High begin

text \<open>
  The gmlbroker stage of the way back: what arrives for a channel against what the browser of that channel is
  written. The clipboard acknowledgements of the channel's own reader go through the same queue, so the writes
  are an interleaving of the two, and what waits in the mailbox and in the queue comes after them.
\<close>

section \<open>The session at gmlbroker\<close>

definition low_in :: "channel \<Rightarrow> gml \<Rightarrow> gml_event \<Rightarrow> BridgeMessage list" where
  "low_in ch s e = (case gml_input e of None \<Rightarrow> [] | Some d \<Rightarrow> message_for ch d)"

text \<open>All that reader \<open>i\<close> writes to its browser.\<close>

definition shown :: "nat \<Rightarrow> gml_obs list \<Rightarrow> string list" where
  "shown i tr = concat (map (\<lambda>x. case x of Relayed k bs \<Rightarrow> if k = i then [bs] else []
     | Replied k bs \<Rightarrow> if k = i then [bs] else [] | _ \<Rightarrow> []) tr)"

lemma shown_simps [simp]:
  "shown i [] = []" "shown i (xs @ ys) = shown i xs @ shown i ys"
  "shown i (map (Relayed k) bs) = (if k = i then bs else [])" "shown i (map (Replied k) bs) = (if k = i then bs else [])"
  "shown i (map (Queued k) ms) = []" "shown i [Took m] = []" "shown i [SentDatagram d] = []"
  "shown i [ClosedGml fd] = []" "shown i (map ShutGml fds) = []"
  by (simp_all add: shown_def comp_def)

text \<open>Data with something in it.\<close>

definition piece :: "BridgeMessage \<Rightarrow> bool" where
  "piece m \<longleftrightarrow> action m = NONE \<and> payload m \<noteq> []"

text \<open>What waits for the browser of reader \<open>i\<close>, in its mailbox and in the queue.\<close>

definition held :: "nat \<Rightarrow> channel \<Rightarrow> gml \<Rightarrow> string list" where
  "held i ch s = outbox (boxes (g_mail s) i) @ map payload (on_channel ch (queue (g_recv s)))"

definition line_back :: "nat \<Rightarrow> channel \<Rightarrow> gml \<Rightarrow> bool" where
  "line_back i ch s \<longleftrightarrow> i < length (g_threads s) \<and> gr_channel (g_threads s ! i) = ch \<and> established (g_threads s ! i) \<and>
     gr_pc (g_threads s ! i) \<noteq> Starting \<and> flags (g_approvals s) i \<and> \<not> teardown (boxes (g_mail s) i) \<and>
     (case g_filters s ch of None \<Rightarrow> False | Some flt \<Rightarrow> piping (sub flt)) \<and>
     list_all piece (on_channel ch (queue (g_recv s)))"

definition kept_shown :: "nat \<Rightarrow> channel \<Rightarrow> BridgeMessage list \<Rightarrow> gml \<Rightarrow> string list \<Rightarrow> bool" where
  "kept_shown i ch ms s ws \<longleftrightarrow> line_back i ch s \<and>
     (\<exists>aks. list_all clip_acks aks \<and> ws @ held i ch s \<in> shuffles (map payload ms) aks)"

section \<open>Each step keeps it\<close>

text \<open>A step that leaves the session's own part alone.\<close>

definition same_back :: "nat \<Rightarrow> channel \<Rightarrow> gml \<Rightarrow> gml \<Rightarrow> bool" where
  "same_back i ch s s' \<longleftrightarrow> length (g_threads s) \<le> length (g_threads s') \<and>
     gr_channel (g_threads s' ! i) = gr_channel (g_threads s ! i) \<and>
     gr_forger (g_threads s' ! i) = gr_forger (g_threads s ! i) \<and>
     (gr_pc (g_threads s' ! i) = Starting \<longrightarrow> gr_pc (g_threads s ! i) = Starting) \<and>
     (flags (g_approvals s) i \<longrightarrow> flags (g_approvals s') i) \<and> g_filters s' ch = g_filters s ch"

lemma kept_parts:
  assumes k: "kept_shown i ch ms s ws" and s: "same_back i ch s s'" and "\<not> teardown (boxes (g_mail s') i)"
    and "list_all piece xs" and q: "on_channel ch (queue (g_recv s')) = on_channel ch (queue (g_recv s)) @ xs"
    and w: "outbox (boxes (g_mail s) i) = os @ outbox (boxes (g_mail s') i)"
  shows "line_back i ch s' \<and> (\<exists>aks. list_all clip_acks aks \<and> (ws @ os) @ held i ch s' \<in> shuffles (map payload ms @ map payload xs) aks)"
proof -
  from k obtain aks where a: "list_all clip_acks aks" "ws @ held i ch s \<in> shuffles (map payload ms) aks"
    by (auto simp: kept_shown_def)
  have h: "(ws @ os) @ held i ch s' = (ws @ held i ch s) @ map payload xs" using q w by (simp add: held_def)
  have "line_back i ch s'"
    using k assms(3,4) s q by (auto simp: kept_shown_def line_back_def same_back_def established_def)
  with a shuffles_append[OF a(2), of "map payload xs"] show ?thesis unfolding h by blast
qed

lemma kept_still:
  assumes "kept_shown i ch ms s ws" and "same_back i ch s s'" and "\<not> teardown (boxes (g_mail s') i)"
    and "on_channel ch (queue (g_recv s')) = on_channel ch (queue (g_recv s))"
    and "outbox (boxes (g_mail s') i) = outbox (boxes (g_mail s) i)" and "shown i os = []"
  shows "kept_shown i ch (ms @ []) s' (ws @ shown i os)"
  using kept_parts[OF assms(1-3), of "[]" "[]"] assms(4-6) by (simp add: kept_shown_def)

lemma kept_own_ack:
  assumes k: "kept_shown i ch ms s ws" and s: "same_back i ch s s'" and "g_mail s' = g_mail s"
    and "\<forall>m\<in>set xs. own_ack m \<and> payload m \<noteq> []" and "on_channel ch (queue (g_recv s')) = on_channel ch (queue (g_recv s)) @ xs"
    and "shown i os = []"
  shows "kept_shown i ch (ms @ []) s' (ws @ shown i os)"
proof -
  from k obtain aks where a: "list_all clip_acks aks" "ws @ held i ch s \<in> shuffles (map payload ms) aks"
    by (auto simp: kept_shown_def)
  have "(ws @ held i ch s) @ map payload xs \<in> shuffles (map payload ms) (aks @ map payload xs)"
    by (rule shuffles_append_right[OF a(2)])
  moreover have "held i ch s' = held i ch s @ map payload xs" using assms(3,5) by (simp add: held_def)
  moreover have "list_all clip_acks (aks @ map payload xs)" using a(1) assms(4) by (auto simp: own_ack_def list_all_iff)
  moreover have "line_back i ch s'"
    using k assms(3-5) s by (auto simp: kept_shown_def line_back_def same_back_def established_def own_ack_def piece_def list_all_iff)
  ultimately show ?thesis using assms(6) unfolding kept_shown_def by (auto intro!: exI[of _ "aks @ map payload xs"])
qed

subsection \<open>Writing the mailbox out\<close>

lemma server_Send_full: "server_Send tls fd b rs = (Some rc, sl) \<Longrightarrow> rc \<ge> 0 \<Longrightarrow> concat sl = b"
  using send_loop_full[of b 0 rs rc sl] by (auto simp: server_Send_def split: if_splits option.splits)

lemma write_chunks_full: "write_chunks fd ws cs = Some (False, sls) \<Longrightarrow> sls = cs"
proof (induction fd ws cs arbitrary: sls rule: write_chunks.induct)
  case (3 fd w ws c cs)
  obtain rc sl where w: "server_Send (fst w) fd c (snd w) = (rc, sl)" by fastforce
  from "3.prems" w obtain k where k: "rc = Some k" "\<not> k < 0" by (auto split: option.splits if_splits)
  with "3.prems" w obtain ss where r: "write_chunks fd ws cs = Some (False, ss)" "sls = concat sl # ss"
    by (auto split: option.splits)
  with "3.IH"[OF w[symmetric] k r(1)] server_Send_full[of "fst w" fd c "snd w" k sl] w k show ?case by simp
qed auto

lemma mail_shown:
  assumes "mail_work ws (chunks, False, an) p r = Some (r', eff)" and "\<forall>n. gr_pc r' \<noteq> Leaving n"
  shows "to_browser eff = chunks"
  using assms write_chunks_full[of "gr_fd r" ws chunks]
  by (auto simp: mail_work_def split: option.splits prod.splits if_splits)

lemma box_of: "gml_inv s \<Longrightarrow> j < length (g_threads s) \<Longrightarrow> gr_pc (g_threads s ! j) \<noteq> Starting \<Longrightarrow> gr_mailbox (g_threads s ! j) = Some j"
  using inv_started by (simp add: started_ok_def)

lemma kept_mail:
  assumes inv: "gml_inv s" and k: "kept_shown i ch ms s ws" and pc: "pc_of j s = Some (AtMail p)"
    and st: "mail_step j wr p s = Some (s', os)" and alive: "\<not> left_low i s'"
  shows "kept_shown i ch (ms @ []) s' (ws @ shown i os)"
proof -
  let ?r = "g_threads s ! j"
  from pc_ofD[OF pc] have j: "j < length (g_threads s)" "gr_pc ?r = AtMail p" by auto
  with box_of[OF inv] have b: "gr_mailbox ?r = Some j" by simp
  have td: "\<not> teardown (boxes (g_mail s) i)" using k by (simp add: kept_shown_def line_back_def)
  show ?thesis
  proof (cases "mail_ready p")
    case False
    with st b have s': "s' = set_reader j (?r\<lparr>gr_pc := AtSock p\<rparr>) s" "os = []" by (auto simp: mail_step_def)
    show ?thesis
      by (rule kept_still[OF k]) (use s' td j in \<open>auto simp: same_back_def set_reader_def nth_list_update\<close>)
  next
    case True
    let ?bx = "boxes (g_mail s) j"
    obtain an m where d: "Drain ?bx = ((outbox ?bx, teardown ?bx, an), m)" "outbox m = []" "teardown m = teardown ?bx"
      by (simp add: Drain_def clear_wake_def take_locked_def)
    from True b d st obtain r1 eff where w: "mail_work wr (outbox ?bx, teardown ?bx, an) p ?r = Some (r1, eff)"
      "(s', os) = commit Relayed j r1 eff (s\<lparr>g_mail := on_box j (\<lambda>_. m) (g_mail s)\<rparr>)"
      by (auto simp: mail_step_def Let_def split: option.splits)
    from mail_out[OF w(1)] mail_work_holder[OF w(1)] have r1: "same_out ?r r1" "to_bridge eff = []" "gr_pc r1 \<noteq> Starting"
      by (simp_all add: same_holder_def)
    have "to_self eff = []" using w(1) by (auto simp: mail_work_def no_effects_def split: prod.splits option.splits)
    with w(2) r1(2) have s': "g_threads s' = (g_threads s)[j := r1]" "g_recv s' = g_recv s" "g_approvals s' = g_approvals s"
      "boxes (g_mail s') = (boxes (g_mail s))(j := m)" "os = map (Relayed j) (to_browser eff)" "g_filters s' = g_filters s"
      by (simp_all add: commit_def set_reader_def on_box_def push_all_def)
    have sb: "same_back i ch s s'" using r1 s' j by (auto simp: same_back_def same_out_def nth_list_update)
    show ?thesis
    proof (cases "j = i")
      case True
      with alive j(1) s'(1) have "\<forall>n. gr_pc r1 \<noteq> Leaving n" by (auto simp: left_low_def)
      with mail_shown[of wr "outbox ?bx" an p ?r r1 eff] w(1) td True have "to_browser eff = outbox ?bx" by simp
      with kept_parts[OF k sb, of "[]" "outbox ?bx"] s' d(2,3) td True show ?thesis by (simp add: kept_shown_def)
    next
      case False
      show ?thesis by (rule kept_still[OF k sb]) (use s' td False in auto)
    qed
  qed
qed

subsection \<open>Reading the browser\<close>

lemma live_once:
  assumes "gml_inv s" and "i < length (g_threads s)" and "j < length (g_threads s)" and "holds 1 (g_threads s ! i)"
    and "holds 1 (g_threads s ! j)" and "gr_channel (g_threads s ! i) = gr_channel (g_threads s ! j)"
  shows "i = j"
proof -
  from assms(1) have "owned 1 (mailboxes (g_mail s)) (g_threads s)" by (simp add: gml_inv_def regs_ok_def)
  with assms(2-6) show ?thesis unfolding owned_def by (metis option.inject)
qed

lemma stays: "i < length (g_threads s) \<Longrightarrow> \<not> left_low i s \<Longrightarrow> holds k (g_threads s ! i)"
  by (auto simp: left_low_def holds_def split: gml_pc.splits)

lemma sock_silent:
  assumes "sock_work tls got draws t True p r = ((r1, rid), eff)" and "established r"
  shows "to_browser eff = [] \<and> gr_forger r1 = gr_forger r"
proof -
  have "gr_forger (fst (maybe_replay True r)) = gr_forger r" by (simp add: maybe_replay_def)
  then have "to_browser (snd (pipe_work True b r)) = [] \<and> gr_forger (fst (pipe_work True b r)) = gr_forger r" for b
    by (auto simp: pipe_work_def no_effects_def split: prod.splits)
  moreover have "to_browser (snd (idle_work True t p r)) = [] \<and> gr_forger (fst (idle_work True t p r)) = gr_forger r"
    using assms(2) by (auto simp: idle_work_def no_effects_def maybe_replay_def split: prod.splits)
  ultimately show ?thesis
    using assms by (auto simp: sock_work_def no_effects_def split: prod.splits if_splits) (metis fst_conv snd_conv)+
qed

lemma sock_acks:
  assumes "sock_work tls got draws t flag p r = ((r1, rid), eff)"
  shows "\<forall>m\<in>set (to_self eff). own_ack m \<and> payload m \<noteq> [] \<and> channel m = gr_channel r"
proof -
  have "\<forall>m\<in>set (to_self eff). payload m \<noteq> [] \<and> channel m = gr_channel r"
    using assms by (auto simp: sock_work_def idle_work_def forge_work_def pipe_work_def no_effects_def Let_def split: prod.splits if_splits)
  with sock_own[OF assms] show ?thesis by blast
qed

lemma flags_SetRequestId [simp]: "flags (SetRequestId ch rid a) = flags a"
  by (simp add: SetRequestId_def split: option.splits)

lemma kept_sock:
  assumes inv: "gml_inv s" and k: "kept_shown i ch ms s ws" and pc: "pc_of j s = Some (AtSock p)"
    and st: "sock_step j tls got draws t p s = (s', os)" and alive: "\<not> left_low i s"
  shows "kept_shown i ch (ms @ []) s' (ws @ shown i os)"
proof -
  let ?r = "g_threads s ! j" and ?f = "load_flag (gr_approved (g_threads s ! j)) (g_approvals s)"
  from pc_ofD[OF pc] have j: "j < length (g_threads s)" "gr_pc ?r = AtSock p" by auto
  have l: "i < length (g_threads s)" "gr_channel (g_threads s ! i) = ch" "established (g_threads s ! i)" "flags (g_approvals s) i"
    using k by (simp_all add: kept_shown_def line_back_def)
  obtain r1 rid eff where w: "sock_work tls got draws t ?f p ?r = ((r1, rid), eff)" by (metis prod.exhaust)
  have s': "g_threads s' = (g_threads s)[j := r1]" "g_mail s' = g_mail s" "flags (g_approvals s') = flags (g_approvals s)"
    "queue (g_recv s') = queue (g_recv s) @ to_self eff" "g_filters s' = g_filters s"
    "os = map (Replied j) (to_browser eff) @ map (Queued j) (to_bridge eff)"
    using st w by (auto simp: sock_step_def Let_def commit_def set_reader_def split: option.splits)
  have h: "gr_channel r1 = gr_channel ?r" "gr_pc r1 \<noteq> Starting"
    using sock_work_holder[OF w] by (simp_all add: same_holder_def)
  note acks = sock_acks[OF w]
  show ?thesis
  proof (cases "j = i")
    case True
    have "gr_approved ?r = Some i" using inv_started[OF inv j(1)] j True by (simp add: started_ok_def)
    with l(4) have "?f = True" by (simp add: load_flag_def)
    with sock_silent[of tls got draws t p ?r r1 rid eff] w l(3) True have q: "to_browser eff = []" "gr_forger r1 = gr_forger ?r"
      by simp_all
    show ?thesis
      by (rule kept_own_ack[OF k, of s' "to_self eff"])
        (use s' h q acks l True on_channel_all[of "to_self eff" ch ch] in \<open>auto simp: same_back_def\<close>)
  next
    case False
    have "gr_channel ?r \<noteq> ch"
      using live_once[OF inv l(1) j(1) stays[OF l(1) alive]] l(2) j(2) False by (auto simp: holds_def)
    then have "on_channel ch (to_self eff) = []" using acks on_channel_all[of "to_self eff" "gr_channel ?r" ch] by auto
    then show ?thesis
      using k s' False by (intro kept_still[OF k]) (auto simp: same_back_def kept_shown_def line_back_def)
  qed
qed

subsection \<open>Taking a message\<close>

lemma Approve_flags: "Approve ch rid a = (ok, a') \<Longrightarrow> flags a i \<Longrightarrow> flags a' i"
  by (auto simp: Approve_def split: option.splits if_splits)

lemma post_to_simps [simp]:
  "g_approvals (post_to c f s) = g_approvals s" "g_filters (post_to c f s) = g_filters s" "g_threads (post_to c f s) = g_threads s"
  "g_recv (post_to c f s) = g_recv s"
  by (simp_all add: post_to_def split: option.splits)

lemma message_flags: "flags (g_approvals s) i \<Longrightarrow> flags (g_approvals (gml_message m s)) i"
proof -
  assume f: "flags (g_approvals s) i"
  have "flags (g_approvals (return_data m s)) i"
    using f by (simp add: return_data_def Let_def split: option.splits prod.splits)
  moreover have "flags (g_approvals (approval_arrived m s)) i"
    using f by (auto simp: approval_arrived_def Let_def dest: Approve_flags split: prod.splits bool.splits)
  ultimately show ?thesis using f by (simp add: gml_message_def split: ChannelAction.splits)
qed

text \<open>A message for another channel.\<close>

lemma other_taken:
  assumes "gml_inv s" and "channel m \<noteq> ch" and "i < length (g_threads s)" and "gr_channel (g_threads s ! i) = ch"
  shows "same_back i ch s (gml_message m s) \<and> boxes (g_mail (gml_message m s)) i = boxes (g_mail s) i"
proof -
  have b: "mailboxes (g_mail s) (channel m) \<noteq> Some i"
  proof
    assume "mailboxes (g_mail s) (channel m) = Some i"
    with assms(1) have "gr_channel (g_threads s ! i) = channel m"
      unfolding gml_inv_def regs_ok_def owned_def by blast
    with assms(2,4) show False by simp
  qed
  have "g_filters (gml_message m s) ch = g_filters s ch"
    using assms(2) by (auto simp: gml_message_def approval_arrived_def return_data_def Let_def
        split: ChannelAction.splits prod.splits option.splits bool.splits)
  moreover have "boxes (g_mail (gml_message m s)) i = boxes (g_mail s) i"
    using b by (auto simp: gml_message_def approval_arrived_def return_data_def Let_def post_to_boxes
        split: ChannelAction.splits prod.splits option.splits bool.splits)
  ultimately show ?thesis using message_regs[of s m] message_flags[of s i m] by (simp add: same_back_def same_regs_def)
qed

text \<open>Data for this one goes into the mailbox as it is.\<close>

lemma own_taken:
  assumes "piece m" and "channel m = ch" and "mailboxes (g_mail s) ch = Some i" and "g_filters s ch = Some flt" and "piping (sub flt)"
  shows "gml_message m s = s\<lparr>g_mail := on_box i (Post (payload m)) (g_mail s)\<rparr>"
proof -
  have f: "(g_filters s)(ch := Some flt) = g_filters s" by (rule ext) (simp add: assms(4))
  from assms have "gml_message m s = s\<lparr>g_filters := (g_filters s)(ch := Some flt), g_mail := on_box i (Post (payload m)) (g_mail s)\<rparr>"
    by (simp add: piece_def gml_message_def return_data_def ret_Feed_def post_to_def MGet_def Let_def)
  then show ?thesis unfolding f by simp
qed

lemma kept_taken:
  assumes inv: "gml_inv s" and k: "kept_shown i ch ms s ws" and alive: "\<not> left_low i s"
    and d: "Dequeue (g_recv s) = (Got m, q)"
  shows "kept_shown i ch (ms @ []) (gml_message m (s\<lparr>g_recv := q\<rparr>)) (ws @ shown i [Took m])"
proof -
  let ?s = "s\<lparr>g_recv := q\<rparr>"
  have q: "queue (g_recv s) = m # queue q" using d by (auto simp: Dequeue_def split: if_splits)
  have l: "i < length (g_threads s)" "gr_channel (g_threads s ! i) = ch" "\<not> teardown (boxes (g_mail s) i)"
    using k by (simp_all add: kept_shown_def line_back_def)
  have inv': "gml_inv ?s" using inv by (simp add: gml_inv_def regs_ok_def g_counted_def g_main_ok_def)
  note r = message_regs[of ?s m]
  show ?thesis
  proof (cases "channel m = ch")
    case False
    from other_taken[OF inv' False, of i] l have o: "same_back i ch ?s (gml_message m ?s)"
      "boxes (g_mail (gml_message m ?s)) i = boxes (g_mail s) i" by simp_all
    then have "same_back i ch s (gml_message m ?s)" by (simp add: same_back_def)
    then show ?thesis by (rule kept_still[OF k]) (use o(2) l(3) r q False in simp_all)
  next
    case True
    from k True q obtain flt where m: "piece m" "g_filters s ch = Some flt" "piping (sub flt)"
      by (auto simp: kept_shown_def line_back_def split: option.splits)
    have "mailboxes (g_mail s) ch = Some i"
      using inv stays[OF l(1) alive, of 1] l by (auto simp: gml_inv_def regs_ok_def owned_def)
    with own_taken[OF m(1) True, of ?s i flt] m(2,3) have e:
      "gml_message m ?s = ?s\<lparr>g_mail := on_box i (Post (payload m)) (g_mail s)\<rparr>" by simp
    have "teardown (Post (payload m) b) = teardown b" for b by (simp add: Post_def Signal_def post_locked_def)
    with k q True m show ?thesis
      unfolding e by (simp add: kept_shown_def line_back_def held_def on_box_def)
  qed
qed

subsection \<open>All steps\<close>

lemma kept_accept:
  assumes inv: "gml_inv s" and k: "kept_shown i ch ms s ws" and alive: "\<not> left_low i s" and st: "accept_client rng fd s = (s', os)"
  shows "kept_shown i ch (ms @ []) s' (ws @ shown i os)"
proof -
  have n: "next_box (g_mail s) = length (g_threads s)" "next_ref (g_approvals s) = length (g_threads s)"
    using inv by (simp_all add: gml_inv_def regs_ok_def)
  have l: "i < length (g_threads s)" using k by (simp add: kept_shown_def line_back_def)
  have td: "\<not> teardown (boxes (g_mail s) i)" using k by (simp add: kept_shown_def line_back_def)
  have "same_back i ch s s' \<and> boxes (g_mail s') i = boxes (g_mail s) i \<and> g_recv s' = g_recv s \<and> shown i os = []"
    using st l n
    by (auto simp: accept_client_def same_back_def MCreate_def ACreate_def Let_def nth_append shown_def
        split: if_splits prod.splits option.splits)
  with kept_still[OF k, of s' os] td show ?thesis by simp
qed

text \<open>A reader moves and touches nothing of a session.\<close>

lemma kept_places:
  assumes k: "kept_shown i ch ms s ws" and "j < length (g_threads s)" and "r = (g_threads s ! j)\<lparr>gr_pc := pc\<rparr>" and "pc \<noteq> Starting"
    and "g_threads s' = (g_threads s)[j := r]" and "g_recv s' = g_recv s" and "boxes (g_mail s') = boxes (g_mail s)"
    and "g_filters s' = g_filters s" and "flags (g_approvals s') = flags (g_approvals s)" and "shown i os = []"
  shows "kept_shown i ch (ms @ []) s' (ws @ shown i os)"
  using k assms(2-10) by (intro kept_still[OF k]) (auto simp: same_back_def nth_list_update kept_shown_def line_back_def)

lemma kept_leaves:
  assumes k: "kept_shown i ch ms s ws" and "pc_of j s = Some (Leaving n)" and "leave_step j n s = Some (s', os)"
  shows "kept_shown i ch (ms @ []) s' (ws @ shown i os)"
proof -
  from pc_ofD[OF assms(2)] have j: "j < length (g_threads s)" by simp
  show ?thesis
    by (rule kept_places[OF k j refl, of "Leaving (n + 1)"])
      (use assms(3) in \<open>auto simp: leave_step_def Let_def set_reader_def commit_def no_effects_def push_all_def MRemove_def ARemove_def
        shown_def split: if_splits\<close>)
qed

lemma kept_starts:
  assumes k: "kept_shown i ch ms s ws" and "pc_of j s = Some Starting"
  shows "kept_shown i ch (ms @ []) (set_reader j (start_reader s (g_threads s ! j)) s) (ws @ shown i [])"
proof -
  from pc_ofD[OF assms(2)] k have "j < length (g_threads s)" "j \<noteq> i" by (auto simp: kept_shown_def line_back_def)
  then show ?thesis
    using k by (intro kept_still[OF k]) (auto simp: same_back_def set_reader_def kept_shown_def line_back_def)
qed

text \<open>The state of a reader and what the threads share for the session stay as they are.\<close>

lemma kept_rest:
  assumes k: "kept_shown i ch ms s ws" and "g_threads s' = g_threads s" and "queue (g_recv s') = queue (g_recv s)"
    and "g_mail s' = g_mail s" and "g_filters s' = g_filters s" and "g_approvals s' = g_approvals s" and "shown i os = []"
  shows "kept_shown i ch (ms @ []) s' (ws @ shown i os)"
  using k assms(2-7) by (intro kept_still[OF k]) (auto simp: same_back_def kept_shown_def line_back_def)

lemma kept_received:
  assumes k: "kept_shown i ch ms s ws" and "list_all piece (low_in ch s (GUdpRecv r))"
  shows "kept_shown i ch (ms @ low_in ch s (GUdpRecv r)) (s\<lparr>g_recv := udp_recv_step r (g_recv s)\<rparr>) (ws @ shown i [])"
proof -
  let ?s = "s\<lparr>g_recv := udp_recv_step r (g_recv s)\<rparr>" and ?x = "low_in ch s (GUdpRecv r)"
  have "on_channel ch (queue (g_recv ?s)) = on_channel ch (queue (g_recv s)) @ ?x"
    by (simp add: recv_for low_in_def gml_input_def)
  with kept_parts[OF k, of ?s ?x "[]"] k assms(2) show ?thesis
    by (simp add: kept_shown_def same_back_def line_back_def)
qed

lemma kept_goes:
  assumes k: "kept_shown i ch ms s ws" and p: "pc_of j s = Some AtPoll" and "pc \<noteq> Starting"
  shows "kept_shown i ch (ms @ []) (set_reader j ((g_threads s ! j)\<lparr>gr_pc := pc\<rparr>) s) (ws @ shown i [])"
  by (rule kept_places[OF k _ refl assms(3), of j]) (use pc_ofD[OF p] in \<open>simp_all add: set_reader_def\<close>)

lemma kept_readers:
  assumes inv: "gml_inv s" and k: "kept_shown i ch ms s ws" and st: "gml_step e s = Some (s', os)"
    and e: "e = Start j \<or> e = StopLoop j \<or> (\<exists>res. e = Poll j res)"
  shows "kept_shown i ch (ms @ []) s' (ws @ shown i os)"
proof -
  from e consider "e = Start j" | "e = StopLoop j" | res where "e = Poll j res" by blast
  then show ?thesis
  proof cases
    case 1
    with st kept_starts[OF k] show ?thesis by (auto split: if_splits)
  next
    case 2
    with st kept_goes[OF k] show ?thesis by (auto split: if_splits)
  next
    case (3 res)
    with st kept_goes[OF k] show ?thesis by (auto simp: Let_def split: sum.splits if_splits)
  qed
qed

lemma low_in_none: "(\<And>r. e \<noteq> GUdpRecv r) \<Longrightarrow> low_in ch s e = []"
  by (simp add: low_in_def gml_input_def split: gml_event.splits)

lemma step_shown:
  assumes inv: "gml_inv s" and alive: "\<not> left_low i s" and k: "kept_shown i ch ms s ws" and st: "gml_step e s = Some (s', os)"
    and good: "list_all piece (low_in ch s e)"
  shows "left_low i s' \<or> kept_shown i ch (ms @ low_in ch s e) s' (ws @ shown i os)"
proof (cases e)
  case (GUdpRecv r)
  with st kept_received[OF k] good show ?thesis by (auto split: if_splits)
next
  case TakeMessage
  with st kept_taken[OF inv k alive] show ?thesis by (auto simp: low_in_none split: if_splits prod.splits dequeued.splits)
next
  case (AcceptClient rng fd)
  with st kept_accept[OF inv k alive] show ?thesis by (auto simp: low_in_none split: if_splits)
next
  case (MailWork j wr)
  with st obtain p where "pc_of j s = Some (AtMail p)" "mail_step j wr p s = Some (s', os)"
    by (auto split: option.splits gml_pc.splits)
  from kept_mail[OF inv k this] MailWork show ?thesis by (auto simp: low_in_none)
next
  case (SockWork j tls got draws t)
  with st kept_sock[OF inv k _ _ alive] show ?thesis by (auto simp: low_in_none split: option.splits gml_pc.splits if_splits)
next
  case (Leaves j)
  with st kept_leaves[OF k] show ?thesis by (auto simp: low_in_none split: option.splits gml_pc.splits)
next
  case (GShutdownFds order)
  have "kept_shown i ch (ms @ []) s' (ws @ shown i os)"
    by (rule kept_rest[OF k]) (use st GShutdownFds in \<open>auto split: if_splits\<close>)
  with GShutdownFds show ?thesis by (simp add: low_in_none)
next
  case GUdpSend
  have "kept_shown i ch (ms @ []) s' (ws @ shown i os)"
    by (rule kept_rest[OF k]) (use st GUdpSend in \<open>auto simp: udp_send_step_def split: option.splits prod.splits dequeued.splits\<close>)
  with GUdpSend show ?thesis by (simp add: low_in_none)
qed (use st kept_readers[OF inv k st] kept_rest[OF k, of s' "[]"] in \<open>auto simp: low_in_none CloseQueue_def split: if_splits\<close>)

interpretation back_low: stage gml_step "low_in ch" "shown i" gml_inv piece "left_low i" "kept_shown i ch" for i ch
  by unfold_locales (auto intro: gml_step_inv left_step dest: step_shown)

end
