(* ===== verification/Delivery_Down.thy ===== *)
theory Delivery_Down imports Delivery begin

text \<open>
  Delivery on the way back: what guacd says reaches the browser of its channel byte for byte, once the
  return filter has let guacd's own handshake pass.
\<close>

section \<open>Out of \<open>gcdbroker\<close>\<close>

definition back_high :: "nat \<Rightarrow> channel \<Rightarrow> gcd \<Rightarrow> bool" where
  "back_high j ch s \<longleftrightarrow> at_pc j Reading s \<and> rd_channel (threads s ! j) = ch \<and> queue (send_queue s) = []"

lemma iteration_reads:
  assumes "rd_pc r = Reading" and "0 < length data" and "length data \<le> MAX_PAYLOAD_SIZE"
  shows "\<exists>r' rq. reader_iteration (Inr data) now r = (r', rq, [mk_msg (rd_channel r) NONE data]) \<and>
    rd_pc r' = Reading \<and> rd_channel r' = rd_channel r"
  using assms
  by (auto simp: reader_iteration_def guacd_Receive_def Let_def keepalive_check_def split: prod.splits)

lemma high_reads:
  assumes "back_high j ch s" and "0 < length data" and "length data \<le> MAX_PAYLOAD_SIZE"
  shows "\<exists>s1 s2. gcd_step (Read j (Inr data) now) s = Some (s1, []) \<and>
    gcd_step UdpSend s1 = Some (s2, [Datagram (Serialize (mk_msg ch NONE data))]) \<and> back_high j ch s2"
proof -
  have j: "j < length (threads s)" "rd_pc (threads s ! j) = Reading" "rd_channel (threads s ! j) = ch"
    "queue (send_queue s) = []" using assms(1) by (simp_all add: back_high_def at_pc_def)
  from iteration_reads[OF j(2) assms(2,3), of now] j(3) obtain r rq where
    r: "reader_iteration (Inr data) now (threads s ! j) = (r, rq, [mk_msg ch NONE data])"
      "rd_pc r = Reading" "rd_channel r = ch" by auto
  let ?s1 = "reader_read j (Inr data) now s"
  have q: "queue (send_queue ?s1) = [mk_msg ch NONE data]" "threads ?s1 = (threads s)[j := r]"
    using j(4) r(1) by (simp_all add: reader_read_def)
  then have "gcd_step UdpSend ?s1 =
      Some (?s1\<lparr>send_queue := (send_queue ?s1)\<lparr>queue := []\<rparr>\<rparr>, [Datagram (Serialize (mk_msg ch NONE data))])"
    by (simp add: udp_send_step_def Dequeue_def)
  with assms(1) j q(2) r(2,3) show ?thesis
    by (intro exI conjI) (assumption | simp add: back_high_def at_pc_def)+
qed

section \<open>Into the mailbox and out to the browser\<close>

text \<open>Reader \<open>i\<close> waits for its mailbox, which is empty, and the filter of its channel is open.\<close>

definition back_low :: "nat \<Rightarrow> channel \<Rightarrow> gml \<Rightarrow> bool" where
  "back_low i ch s \<longleftrightarrow> \<not> g_udp_recv_done s \<and> \<not> guacamole_send_done s \<and> queue (g_recv s) = [] \<and>
     (case g_filters s ch of None \<Rightarrow> False | Some flt \<Rightarrow> piping (sub flt)) \<and>
     i < length (g_threads s) \<and> gr_pc (g_threads s ! i) = AtPoll \<and> gr_fd (g_threads s ! i) \<ge> 0 \<and>
     (case MGet ch (g_mail s) of
        None \<Rightarrow> False
      | Some b \<Rightarrow> gr_mailbox (g_threads s ! i) = Some b \<and> outbox (boxes (g_mail s) b) = [] \<and>
          \<not> teardown (boxes (g_mail s) b))"

definition only_mail :: polled where
  "only_mail = \<lparr>sock_ready = False, mail_ready = True, other_event = False, ssl_pending = False\<rparr>"

definition relays :: "nat \<Rightarrow> string \<Rightarrow> gml_event list" where
  "relays i data = [TakeMessage, Poll i (Inr only_mail), MailWork i [(None, [Inr (length data)])],
     SockWork i None (Inl EAGAIN) (replicate 12 0) 0]"

text \<open>Taking the datagram posts it to the mailbox of the channel.\<close>

lemma low_takes:
  assumes o: "back_low i ch s" and m: "m = mk_msg ch NONE data" "data \<noteq> []" "length data \<le> MAX_PAYLOAD_SIZE"
    and b: "MGet ch (g_mail s) = Some b"
  defines "q \<equiv> (Enqueue m (g_recv s))\<lparr>queue := []\<rparr>"
  shows "gml_step (GUdpRecv (Inr (Serialize m))) s = Some (s\<lparr>g_recv := Enqueue m (g_recv s)\<rparr>, [])"
    and "gml_step TakeMessage (s\<lparr>g_recv := Enqueue m (g_recv s)\<rparr>) =
      Some (s\<lparr>g_recv := q, g_mail := on_box b (Post data) (g_mail s)\<rparr>, [Took m])"
proof -
  from o b obtain flt where fb: "g_filters s ch = Some flt" "piping (sub flt)"
    by (auto simp: back_low_def split: option.splits)
  have r: "queue (g_recv s) = []" "\<not> g_udp_recv_done s" "\<not> guacamole_send_done s" using o by (simp_all add: back_low_def)
  show "gml_step (GUdpRecv (Inr (Serialize m))) s = Some (s\<lparr>g_recv := Enqueue m (g_recv s)\<rparr>, [])"
    using r(2) m by (simp add: udp_recv_Serialize)
  have d: "Dequeue (Enqueue m (g_recv s)) = (Got m, q)" using r(1) by (simp add: Dequeue_def q_def)
  have "g_filters s = (g_filters s)(ch := Some flt)" using fb(1) by auto
  then show "gml_step TakeMessage (s\<lparr>g_recv := Enqueue m (g_recv s)\<rparr>) =
      Some (s\<lparr>g_recv := q, g_mail := on_box b (Post data) (g_mail s)\<rparr>, [Took m])"
    using r(3) d fb b m by (simp add: gml_message_def return_data_def ret_Feed_def post_to_def Let_def)
qed

lemma low_relays:
  assumes o: "back_low i ch s" and m: "m = mk_msg ch NONE data" "data \<noteq> []" "length data \<le> MAX_PAYLOAD_SIZE"
  shows "\<exists>s1 s2. gml_step (GUdpRecv (Inr (Serialize m))) s = Some (s1, []) \<and>
    gml_exec (relays i data) s1 = Some (s2, [Took m, Relayed i data]) \<and> back_low i ch s2"
proof -
  from o obtain flt b where fb: "g_filters s ch = Some flt" "piping (sub flt)" "MGet ch (g_mail s) = Some b"
    "gr_mailbox (g_threads s ! i) = Some b" "outbox (boxes (g_mail s) b) = []" "\<not> teardown (boxes (g_mail s) b)"
    by (auto simp: back_low_def split: option.splits)
  let ?r = "g_threads s ! i" and ?q = "(Enqueue m (g_recv s))\<lparr>queue := []\<rparr>"
  have r: "i < length (g_threads s)" "gr_pc ?r = AtPoll" "gr_fd ?r \<ge> 0" using o by (simp_all add: back_low_def)
  let ?s1 = "s\<lparr>g_recv := Enqueue m (g_recv s)\<rparr>"
  let ?s2 = "s\<lparr>g_recv := ?q, g_mail := on_box b (Post data) (g_mail s)\<rparr>"
  note 12 = low_takes[OF o m fb(3)]
  let ?bx = "boxes (g_mail ?s2) b"
  have bx: "outbox ?bx = [data]" "\<not> teardown ?bx" "counter ?bx > 0"
    using fb(5,6) by (auto simp: on_box_def Post_def post_locked_def Signal_def COUNTER_MAX_def)
  let ?s3 = "set_reader i (?r\<lparr>gr_pc := AtMail only_mail\<rparr>) ?s2"
  have 3: "gml_step (Poll i (Inr only_mail)) ?s2 = Some (?s3, [])"
    using r fb(4) bx(3) by (simp add: pc_of_def poll_ok_def only_mail_def)
  obtain an mb where dr: "Drain ?bx = (([data], False, an), mb)" "outbox mb = []" "\<not> teardown mb"
    using bx by (auto simp: Drain_def take_locked_def clear_wake_def)
  let ?r1 = "?r\<lparr>gr_pc := AtSock only_mail\<rparr>"
  let ?s4 = "set_reader i ?r1 (?s3\<lparr>g_mail := on_box b (\<lambda>_. mb) (g_mail ?s3)\<rparr>)"
  have "mail_work [(None, [Inr (length data)])] ([data], False, an) only_mail (?r\<lparr>gr_pc := AtMail only_mail\<rparr>) =
      Some (?r1, no_effects\<lparr>to_browser := [data]\<rparr>)"
    using r(3) m(2) by (simp add: mail_work_def server_Send_def)
  then have 4: "gml_step (MailWork i [(None, [Inr (length data)])]) ?s3 = Some (?s4, [Relayed i data])"
    using r(1) fb(4) dr(1) by (simp add: pc_of_def set_reader_def mail_step_def only_mail_def commit_def push_all_def no_effects_def Let_def)
  let ?s5 = "set_reader i (?r\<lparr>gr_pc := AtPoll\<rparr>) ?s4"
  have 5: "gml_step (SockWork i None (Inl EAGAIN) (replicate 12 0) 0) ?s4 = Some (?s5, [])"
    using r(1) by (simp add: pc_of_def set_reader_def sock_step_def sock_work_def idle_work_def poll_timeout_def only_mail_def
        draws_ok_def list_all_iff commit_def push_all_def no_effects_def Let_def)
  have "gml_exec (relays i data) ?s1 = Some (?s5, [Took m, Relayed i data])"
    using 12(2) 3 4 5 by (simp add: relays_def del: gml_step.simps)
  moreover have "back_low i ch ?s5" using o fb r dr by (simp add: back_low_def set_reader_def on_box_def MGet_def)
  ultimately show ?thesis using 12(1) by blast
qed

section \<open>The whole way down\<close>

definition open_back :: "nat \<Rightarrow> nat \<Rightarrow> channel \<Rightarrow> bridge \<Rightarrow> bool" where
  "open_back i j ch b \<longleftrightarrow> back_low i ch (low b) \<and> back_high j ch (high b)"

definition said_to :: "nat \<Rightarrow> bridge_event \<Rightarrow> string list" where
  "said_to j e = (case e of High (Read k (Inr data) now) \<Rightarrow> if k = j then [data] else [] | _ \<Rightarrow> [])"

definition browser_got :: "nat \<Rightarrow> gml_obs list \<Rightarrow> string" where
  "browser_got i tr = concat (map (\<lambda>x. case x of Relayed k bs \<Rightarrow> if k = i then bs else [] | _ \<Rightarrow> []) tr)"

lemma browser_got_append [simp]: "browser_got i (xs @ ys) = browser_got i xs @ browser_got i ys"
  by (simp add: browser_got_def)

lemma return_one:
  assumes "open_back i j ch b" and "data \<noteq> []" and "length data \<le> MAX_PAYLOAD_SIZE"
  shows "\<exists>es b'. bridge_exec es b = Some b' \<and> concat (map (said_to j) es) = [data] \<and> open_back i j ch b' \<and>
    browser_got i (low_trace b') = browser_got i (low_trace b) @ data"
proof -
  let ?m = "mk_msg ch NONE data"
  from assms have hl: "back_high j ch (high b)" "back_low i ch (low b)" "0 < length data" by (simp_all add: open_back_def)
  from high_reads[OF hl(1,3) assms(3), of 0] obtain h1 h2 where
    h: "gcd_step (Read j (Inr data) 0) (high b) = Some (h1, [])"
      "gcd_step UdpSend h1 = Some (h2, [Datagram (Serialize ?m)])" "back_high j ch h2" by blast
  from low_relays[OF hl(2) refl assms(2,3)] obtain l1 l2 where
    l: "gml_step (GUdpRecv (Inr (Serialize ?m))) (low b) = Some (l1, [])"
      "gml_exec (relays i data) l1 = Some (l2, [Took ?m, Relayed i data])" "back_low i ch l2" by blast
  let ?es = "[High (Read j (Inr data) 0), High UdpSend, Low (GUdpRecv (Inr (Serialize ?m)))]"
  let ?b = "b\<lparr>high := h2, high_trace := high_trace b @ [Datagram (Serialize ?m)], low := l1\<rparr>"
  have e: "bridge_exec ?es b = Some ?b"
    using h l(1) by (simp add: carried_def gcd_input_def gml_input_def arriving_def gcd_sent_in del: gcd_step.simps gml_step.simps)
  have f: "bridge_exec (map Low (relays i data)) ?b = Some (?b\<lparr>low := l2, low_trace := low_trace ?b @ [Took ?m, Relayed i data]\<rparr>)"
    by (rule bridge_exec_low) (use l(2) in \<open>auto simp: relays_def gml_input_def\<close>)
  have "concat (map (said_to j) (?es @ map Low (relays i data))) = [data]" by (simp add: said_to_def relays_def)
  with bridge_exec_trans[OF e f] h(3) l(3) show ?thesis
    by (intro exI[of _ "?es @ map Low (relays i data)"] exI[of _ "?b\<lparr>low := l2, low_trace := low_trace ?b @ [Took ?m, Relayed i data]\<rparr>"])
      (simp add: open_back_def browser_got_def)
qed


text \<open>The example session, up to the first frame that guacd drew.\<close>

lemma ex_drawn_ran: "bridge_ran ex_bridge (\<lambda>b. open_back 0 0 0 b \<and> browser_got 0 (low_trace b) = ''4.sync,1.7;'')"
  by code_simp


end
