(* ===== verification/Flow_Down.thy ===== *)
theory Flow_Down imports Back_Low Delivery_Down begin

text \<open>
  The stages of the way back joined: what guacd says in an open session against what the browser of that session
  is written, in every run in which the return link keeps the order and loses nothing, however the three
  processes, the other sessions and the traffic up interleave.
\<close>

section \<open>An in order and complete return link\<close>

definition low_taken :: "bridge_event list \<Rightarrow> string list" where
  "low_taken es = concat (map (\<lambda>e. case gml_input e of None \<Rightarrow> [] | Some d \<Rightarrow> [d]) (lows es))"

definition guacd_reads :: "nat \<Rightarrow> bridge_event list \<Rightarrow> string list" where
  "guacd_reads j es = concat (map (guacd_read j) (highs es))"

definition back_in_order :: "bridge_event list \<Rightarrow> bridge \<Rightarrow> bridge \<Rightarrow> bool" where
  "back_in_order es b b' \<longleftrightarrow> prefix (gcd_sent (high_trace b) @ low_taken es) (gcd_sent (high_trace b'))"

definition came_back :: "channel \<Rightarrow> bridge_event list \<Rightarrow> bridge \<Rightarrow> bridge \<Rightarrow> bool" where
  "came_back ch es b b' \<longleftrightarrow> gcd_sent (high_trace b') = gcd_sent (high_trace b) @ low_taken es \<and>
     on_channel ch (queue (send_queue (high b'))) = []"

text \<open>The session is open on both sides, with nothing of it on its way back.\<close>

definition return_line :: "nat \<Rightarrow> nat \<Rightarrow> channel \<Rightarrow> bridge \<Rightarrow> bool" where
  "return_line i j ch b \<longleftrightarrow> line_high j ch (threads (high b)) \<and> data_only ch (high b) \<and>
     on_channel ch (queue (send_queue (high b))) = [] \<and> line_back i ch (low b) \<and> held i ch (low b) = []"

text \<open>It has not been closed: both readers are in their loops.\<close>

definition return_up :: "nat \<Rightarrow> nat \<Rightarrow> bridge \<Rightarrow> bool" where
  "return_up i j b \<longleftrightarrow> \<not> left_low i (low b) \<and> at_pc j Reading (high b)"

text \<open>The guard has handed \<open>gcdbroker\<close> nothing but data for the channel.\<close>

definition data_up :: "channel \<Rightarrow> bridge_event list \<Rightarrow> bool" where
  "data_up ch es \<longleftrightarrow> list_all (\<lambda>m. action m = NONE) (messages_for ch (high_taken es))"

lemma guacd_read_piece: "d \<in> set (guacd_read j e) \<Longrightarrow> d \<noteq> []"
proof (cases e)
  case (Read k got now)
  assume d: "d \<in> set (guacd_read j e)"
  obtain received b where g: "guacd_Receive (MAX_PAYLOAD_SIZE + 1) got = (received, b)" by fastforce
  with d Read have "received > 0" "d = b" by (simp_all add: guacd_read_def split: if_splits)
  with guacd_Receive_data[OF g] show ?thesis by simp
qed (simp_all add: guacd_read_def)

lemma only_data_items [simp]:
  "list_all only_data (map Inl bs)" "list_all only_data (map Inr ms) \<longleftrightarrow> list_all (\<lambda>m. action m = NONE) ms"
  by (induction bs) (simp_all add: only_data_def list.pred_map comp_def)

lemma back_items:
  assumes "xs = concat (map (\<lambda>e. back_in j ch undefined e) ys)"
  shows "reads_of xs = concat (map (guacd_read j) ys)" and "list_all only_data xs \<longleftrightarrow> list_all (\<lambda>m. action m = NONE)
     (concat (map (\<lambda>e. case gcd_input e of None \<Rightarrow> [] | Some d \<Rightarrow> message_for ch d) ys))"
  unfolding assms by (induction ys) (simp_all add: back_in_def high_in_def)

section \<open>The two stages of a session\<close>

lemma down_high:
  assumes run: "bridge_run b" and line: "return_line i j ch b" and ex: "bridge_exec es b = Some b'"
    and data: "data_up ch es" and up: "return_up i j b'"
  shows "\<exists>tr. high_trace b' = high_trace b @ tr \<and>
    sent_for ch tr @ on_channel ch (queue (send_queue (high b'))) = map (carry ch) (guacd_reads j es)"
proof -
  have r: "gcd_run (high_trace b) (high b)" using bridge_run_inv[OF run] by (simp add: bridge_inv_def)
  from bridge_high[OF ex] obtain xs tr where
    h: "stage_run gcd_step (back_in j ch) (highs es) (high b) = Some (high b', xs, tr)" "high_trace b' = high_trace b @ tr"
    by blast
  have "xs = concat (map (\<lambda>e. back_in j ch undefined e) (highs es))"
    using stage_run_taken[of gcd_step "\<lambda>e. back_in j ch undefined e" "highs es" "high b" "high b'" xs tr] h(1)
    by (simp add: back_in_def[abs_def] high_in_def)
  from back_items[OF this] data have x: "reads_of xs = guacd_reads j es" "list_all only_data xs"
    by (simp_all add: guacd_reads_def data_up_def messages_taken high_taken_def)
  have k: "kept_back j ch [] (high b) []" using line by (simp add: kept_back_def return_line_def)
  have inv: "sized [] (high b)" using run_sized[OF r] by (simp add: sized_def)
  have "\<not> left_high j (high b')" using up by (simp add: return_up_def at_pc_def left_high_def)
  from back_high.run_conserved[OF h(1) inv k x(2) this] h(2) show ?thesis by (simp add: kept_back_def x(1))
qed

lemma down_low:
  assumes run: "bridge_run b" and line: "return_line i j ch b" and ex: "bridge_exec es b = Some b'"
    and up: "return_up i j b'" and y: "messages_for ch (low_taken es) = map (carry ch) ps" and ne: "[] \<notin> set ps"
  shows "\<exists>ws acks. shown i (low_trace b') = shown i (low_trace b) @ ws \<and> list_all clip_acks acks \<and>
    ws @ held i ch (low b') \<in> shuffles ps acks"
proof -
  have r: "gml_run (low_trace b) (low b)" using bridge_run_inv[OF run] by (simp add: bridge_inv_def)
  from bridge_low[OF ex] obtain ys tr where
    l: "stage_run gml_step (low_in ch) (lows es) (low b) = Some (low b', ys, tr)" "low_trace b' = low_trace b @ tr"
    by blast
  have ys: "ys = map (carry ch) ps"
    using stage_run_taken[of gml_step "\<lambda>e. case gml_input e of None \<Rightarrow> [] | Some d \<Rightarrow> message_for ch d"] l(1) y
    by (simp add: low_in_def[abs_def] messages_taken low_taken_def)
  have "d \<noteq> []" if "d \<in> set ps" for d using that ne by blast
  then have p: "list_all piece ys" by (simp add: ys piece_def list_all_iff)
  have k: "kept_shown i ch [] (low b) []"
    using line by (auto simp: kept_shown_def return_line_def intro!: exI[of _ "[]"])
  have "\<not> left_low i (low b')" using up by (simp add: return_up_def)
  from back_low.run_conserved[OF l(1) gml_run_inv[OF r] k p this] l(2) show ?thesis
    by (auto simp: kept_shown_def ys comp_def)
qed

lemma guacd_reads_nonempty: "[] \<notin> set (guacd_reads j es)"
  using guacd_read_piece by (fastforce simp: guacd_reads_def)

section \<open>Properties\<close>

text \<open>
  C7: order and completeness downwards. Take any run of the bridge, interleaved in any way with other sessions and
  with the traffic up, in which the return link keeps the order, the guard passes only data for the channel and a
  session is still up at the end. Whatever bytes guacd sent in it, everything its browser was written are the
  reads of guacd's reader, in order and unchanged, up to a point and with only whole clipboard acknowledgements of
  gmlbroker's own between them; what is missing of that point waits in the mailbox; and it is the end once nothing
  is under way.
\<close>

theorem session_returns_in_order:
  assumes run: "bridge_run b" and line: "return_line i j ch b" and ex: "bridge_exec es b = Some b'"
    and ord: "back_in_order es b b'" and data: "data_up ch es" and up: "return_up i j b'"
  shows "\<exists>ps ws acks. prefix ps (guacd_reads j es) \<and> shown i (low_trace b') = shown i (low_trace b) @ ws \<and>
    list_all clip_acks acks \<and> ws @ held i ch (low b') \<in> shuffles ps acks \<and>
    (came_back ch es b b' \<longrightarrow> ps = guacd_reads j es)"
proof -
  from down_high[OF run line ex data up] obtain tr where
    h: "high_trace b' = high_trace b @ tr"
      "messages_for ch (gcd_sent tr) @ on_channel ch (queue (send_queue (high b'))) = map (carry ch) (guacd_reads j es)"
    by blast
  have "prefix (gcd_sent (high_trace b) @ low_taken es) (gcd_sent (high_trace b) @ gcd_sent tr)"
    using ord h(1) by (simp add: back_in_order_def)
  from link_part[OF this h(2)] obtain ps where
    ps: "prefix ps (guacd_reads j es)" "messages_for ch (low_taken es) = map (carry ch) ps"
      "low_taken es = gcd_sent tr \<Longrightarrow> on_channel ch (queue (send_queue (high b'))) = [] \<Longrightarrow> ps = guacd_reads j es" by blast
  have "[] \<notin> set ps" using ps(1) guacd_reads_nonempty[of j es] by (auto simp: prefix_def)
  from down_low[OF run line ex up ps(2) this] obtain ws acks where
    "shown i (low_trace b') = shown i (low_trace b) @ ws" "list_all clip_acks acks" "ws @ held i ch (low b') \<in> shuffles ps acks"
    by blast
  moreover have "ps = guacd_reads j es" if "came_back ch es b b'" using that h(1) ps(3) by (simp add: came_back_def)
  ultimately show ?thesis using ps(1) by blast
qed

text \<open>The example session, and one read of guacd's brought down.\<close>

definition ex_saying :: "bridge_event list" where
  "ex_saying = [High (Read 0 (Inr ''4.rect,'') 9), High UdpSend, Low (GUdpRecv (Inr (Serialize (mk_msg 0 NONE ''4.rect,''))))] @
     map Low (relays 0 ''4.rect,'')"

lemma ex_saying_ran:
  "bridge_ran ex_bridge (\<lambda>b. return_line 0 0 0 b \<and>
     (case bridge_exec ex_saying b of
        None \<Rightarrow> False
      | Some b' \<Rightarrow> back_in_order ex_saying b b' \<and> data_up 0 ex_saying \<and> return_up 0 0 b' \<and> came_back 0 ex_saying b b' \<and>
          guacd_reads 0 ex_saying = [''4.rect,''] \<and> held 0 0 (low b') = []))"
  by code_simp

lemma session_returns_in_order_witness:
  "\<exists>b b' ws. bridge_run b \<and> bridge_exec ex_saying b = Some b' \<and>
     shown 0 (low_trace b') = shown 0 (low_trace b) @ ws \<and> ''4.rect,'' \<in> set ws"
proof (rule bridge_ranE[OF ex_saying_ran])
  fix b
  assume b: "bridge_run b" "return_line 0 0 0 b \<and>
     (case bridge_exec ex_saying b of
        None \<Rightarrow> False
      | Some b' \<Rightarrow> back_in_order ex_saying b b' \<and> data_up 0 ex_saying \<and> return_up 0 0 b' \<and> came_back 0 ex_saying b b' \<and>
          guacd_reads 0 ex_saying = [''4.rect,''] \<and> held 0 0 (low b') = [])"
  then obtain b' where b': "bridge_exec ex_saying b = Some b'" "back_in_order ex_saying b b'" "data_up 0 ex_saying"
    "return_up 0 0 b'" "came_back 0 ex_saying b b'" "guacd_reads 0 ex_saying = [''4.rect,'']" "held 0 0 (low b') = []"
    by (auto split: option.splits)
  from session_returns_in_order[OF b(1) _ b'(1-4)] b(2) b'(5-7) obtain ws acks where
    "shown 0 (low_trace b') = shown 0 (low_trace b) @ ws" "ws \<in> shuffles [''4.rect,''] acks" by auto
  then show ?thesis using b(1) b'(1) set_shuffles[of ws "[''4.rect,'']" acks] by auto
qed

end
