(* ===== verification/Net_Setup.thy ===== *)
theory Net_Setup imports Gcd_Broker begin

text \<open>
  Setting up and tearing down sockets: \<open>Connect\<close> of \<open>shared/src/network/guacd_client.cpp\<close>, \<open>Initialize\<close> and the
  destructors of \<open>udpreceiver.cpp\<close>, \<open>udpsender.cpp\<close> and \<open>guacamole_server.cpp\<close>, the \<open>SSL\<close> object of each
  accepted connection, \<open>util/sockbuf.h\<close>, \<open>util/tls.h\<close>, and the start of the three \<open>main\<close>s. What the kernel and
  OpenSSL return are arguments; what is asked of them is returned as a list of calls, over which the
  balance of descriptors and \<open>SSL\<close> objects is stated.
\<close>

section \<open>Calls and what they leave open\<close>

datatype sockopt = SO_SNDTIMEO | SO_RCVTIMEO

text \<open>\<open>Opened\<close>: a call that gave a descriptor. \<open>Timeout\<close> carries seconds and microseconds.\<close>

datatype sys = Opened fd | Closed fd | HalfClosed fd | Timeout sockopt fd int int | BufferSize fd int
  | CtxNew | CtxFree | SslNew nat | SslFree nat

fun opens :: "sys list \<Rightarrow> fd set \<Rightarrow> fd set" where
  "opens [] S = S"
| "opens (Opened fd # cs) S = opens cs (insert fd S)"
| "opens (Closed fd # cs) S = opens cs (S - {fd})"
| "opens (_ # cs) S = opens cs S"

text \<open>Closes and shutdowns of a descriptor that is not open.\<close>

fun stray :: "sys list \<Rightarrow> fd set \<Rightarrow> fd list" where
  "stray [] S = []"
| "stray (Opened fd # cs) S = stray cs (insert fd S)"
| "stray (Closed fd # cs) S = (if fd \<in> S then [] else [fd]) @ stray cs (S - {fd})"
| "stray (HalfClosed fd # cs) S = (if fd \<in> S then [] else [fd]) @ stray cs S"
| "stray (_ # cs) S = stray cs S"

lemma opens_append [simp]: "opens (xs @ ys) S = opens ys (opens xs S)"
  by (induction xs S rule: opens.induct) simp_all

lemma stray_append [simp]: "stray (xs @ ys) S = stray xs S @ stray ys (opens xs S)"
  by (induction xs S rule: stray.induct) simp_all

section \<open>\<open>GuacdClient::Connect\<close>\<close>

definition guacd_send_timeout_ms :: "string option \<Rightarrow> int" where
  "guacd_send_timeout_ms env =
     (let v = (case env of None \<Rightarrow> 0 | Some e \<Rightarrow> atoi e) in if v > 0 then v else 2000)"

definition guacd_recv_timeout_ms :: "string option \<Rightarrow> int" where
  "guacd_recv_timeout_ms env =
     (let v = (case env of None \<Rightarrow> 0 | Some e \<Rightarrow> atoi e) in if v > 0 then v else 3000)"

text \<open>The loop over the addresses: the results of \<open>socket\<close>, and of \<open>connect\<close> where it is called.\<close>

fun connect_loop :: "(int \<times> bool) list \<Rightarrow> fd \<times> sys list" where
  "connect_loop [] = (-1, [])"
| "connect_loop ((s, connected) # as) =
     (if s = -1 then connect_loop as
      else if connected then (s, [Opened s])
      else (case connect_loop as of (fd, cs) \<Rightarrow> (fd, Opened s # Closed s # cs)))"

text \<open>\<open>addrs\<close> is \<^const>\<open>None\<close> when \<open>getaddrinfo\<close> fails.\<close>

definition Connect :: "(int \<times> bool) list option \<Rightarrow> string option \<Rightarrow> string option \<Rightarrow> fd \<times> sys list" where
  "Connect addrs send_env recv_env =
     (case addrs of
        None \<Rightarrow> (-1, [])
      | Some as \<Rightarrow>
          (case connect_loop as of
             (fd, cs) \<Rightarrow>
               if fd \<ge> 0 then
                 let sms = guacd_send_timeout_ms send_env; rms = guacd_recv_timeout_ms recv_env in
                 (fd, cs @ [Timeout SO_SNDTIMEO fd (sms div 1000) (sms mod 1000 * 1000),
                            Timeout SO_RCVTIMEO fd (rms div 1000) (rms mod 1000 * 1000)])
               else (fd, cs)))"

section \<open>UDP sockets\<close>

definition desired_bridge_sockbuf :: "string option \<Rightarrow> int" where
  "desired_bridge_sockbuf env =
     (let v = (case env of None \<Rightarrow> 0 | Some e \<Rightarrow> atoi e) in if v > 0 then v else 4 * 1024 * 1024)"

text \<open>\<open>UDPReceiver\<close>: the return value, \<open>sock_fd\<close> and the calls, from the results of \<open>socket\<close> and \<open>bind\<close>.\<close>

definition UDPReceiver_Initialize :: "string option \<Rightarrow> int \<Rightarrow> bool \<Rightarrow> int \<times> fd \<times> sys list" where
  "UDPReceiver_Initialize env s bind_ok =
     (if s < 0 then (1, s, [])
      else if \<not> bind_ok then (1, s, [Opened s, BufferSize s (desired_bridge_sockbuf env), Closed s])
      else (0, s, [Opened s, BufferSize s (desired_bridge_sockbuf env), Timeout SO_RCVTIMEO s 0 200000]))"

definition UDPReceiver_destroy :: "fd \<Rightarrow> sys list" where
  "UDPReceiver_destroy sock_fd = (if sock_fd \<ge> 0 then [HalfClosed sock_fd, Closed sock_fd] else [])"

text \<open>The loop that looks for a socket: its descriptor and whether \<open>rp\<close> is not null.\<close>

fun first_socket :: "int list \<Rightarrow> int \<Rightarrow> fd \<times> bool" where
  "first_socket [] fd = (fd, False)"
| "first_socket (s # ss) fd = (if s \<ge> 0 then (s, True) else first_socket ss s)"

definition UDPSender_Initialize :: "string option \<Rightarrow> int list option \<Rightarrow> int \<times> fd \<times> sys list" where
  "UDPSender_Initialize env addrs =
     (case addrs of
        None \<Rightarrow> (-1, -1, [])
      | Some ss \<Rightarrow>
          (case first_socket ss (-1) of
             (fd, resolved) \<Rightarrow>
               if \<not> resolved then (-1, -1, if fd \<ge> 0 then [Closed fd] else [])
               else (0, fd, [Opened fd, BufferSize fd (desired_bridge_sockbuf env)])))"

definition UDPSender_destroy :: "fd \<Rightarrow> sys list" where
  "UDPSender_destroy sock_fd = (if sock_fd \<ge> 0 then [HalfClosed sock_fd, Closed sock_fd] else [])"

section \<open>\<open>GuacamoleServer\<close>\<close>

definition tls_enabled :: "string option \<Rightarrow> bool" where
  "tls_enabled env =
     (case env of
        None \<Rightarrow> False
      | Some e \<Rightarrow> let v = map tolower e in v = ''1'' \<or> v = ''on'' \<or> v = ''true'' \<or> v = ''yes'')"

record GuacamoleServer =
  listen_fd :: fd
  tls_on :: bool
  ssl_ctx :: bool
  ssl_by_fd :: "fd \<Rightarrow> nat option"

definition new_GuacamoleServer :: GuacamoleServer where
  "new_GuacamoleServer = \<lparr>listen_fd = -1, tls_on = False, ssl_ctx = False, ssl_by_fd = Map.empty\<rparr>"

definition tls_cert_path :: "string option \<Rightarrow> string" where
  "tls_cert_path env = (case env of None \<Rightarrow> ''/etc/gmlbroker/tls/cert.pem'' | Some e \<Rightarrow> e)"

definition tls_key_path :: "string option \<Rightarrow> string" where
  "tls_key_path env = (case env of None \<Rightarrow> ''/etc/gmlbroker/tls/key.pem'' | Some e \<Rightarrow> e)"

text \<open>
  The two variables that name the files, and what OpenSSL makes of the configuration: whether there is a
  context, which files hold a chain and a key, and whether these match.
\<close>

record tls_setup =
  ctx_made :: bool
  cert_env :: "string option"
  key_env :: "string option"
  cert_loads :: "string \<Rightarrow> bool"
  key_loads :: "string \<Rightarrow> bool"
  key_matches :: bool

definition InitializeTls :: "tls_setup \<Rightarrow> GuacamoleServer \<Rightarrow> int \<times> GuacamoleServer \<times> sys list" where
  "InitializeTls t sv =
     (if \<not> ctx_made t then (-1, sv, [])
      else
        let sv1 = sv\<lparr>ssl_ctx := True\<rparr> in
        if \<not> cert_loads t (tls_cert_path (cert_env t)) then (-1, sv1, [CtxNew])
        else if \<not> key_loads t (tls_key_path (key_env t)) then (-1, sv1, [CtxNew])
        else if \<not> key_matches t then (-1, sv1, [CtxNew])
        else (0, sv1, [CtxNew]))"

definition server_Initialize ::
  "int list option \<Rightarrow> bool \<Rightarrow> bool \<Rightarrow> string option \<Rightarrow> tls_setup \<Rightarrow> GuacamoleServer \<Rightarrow>
   int \<times> GuacamoleServer \<times> sys list" where
  "server_Initialize addrs bind_ok listening tls_env t sv =
     (case addrs of
        None \<Rightarrow> (-1, sv, [])
      | Some ss \<Rightarrow>
          (case first_socket ss (-1) of
             (fd, resolved) \<Rightarrow>
               if \<not> resolved then (-1, sv, if fd \<ge> 0 then [Closed fd] else [])
               else
                 let sv1 = sv\<lparr>listen_fd := fd\<rparr> in
                 if \<not> bind_ok then (1, sv1, [Opened fd, Closed fd])
                 else if \<not> listening then (1, sv1, [Opened fd, Closed fd])
                 else
                   let cs = [Opened fd, Timeout SO_RCVTIMEO fd 0 200000];
                       sv2 = sv1\<lparr>tls_on := tls_enabled tls_env\<rparr>
                   in if tls_on sv2 then
                        (case InitializeTls t sv2 of
                           (rc, sv3, cs') \<Rightarrow> if rc \<noteq> 0 then (1, sv3, cs @ cs') else (0, sv3, cs @ cs'))
                      else (0, sv2, cs)))"

definition server_destroy :: "GuacamoleServer \<Rightarrow> sys list" where
  "server_destroy sv =
     (if listen_fd sv \<ge> 0 then [HalfClosed (listen_fd sv), Closed (listen_fd sv)] else []) @
     (if ssl_ctx sv then [CtxFree] else [])"

definition SslFor :: "fd \<Rightarrow> GuacamoleServer \<Rightarrow> nat option" where
  "SslFor fd sv = ssl_by_fd sv fd"

text \<open>The results of \<open>accept\<close> and of \<open>SSL_new\<close> (a fresh object, or \<^const>\<open>None\<close> for null).\<close>

definition Accept :: "int \<Rightarrow> nat option \<Rightarrow> GuacamoleServer \<Rightarrow> fd \<times> GuacamoleServer \<times> sys list" where
  "Accept s ssl sv =
     (if s < 0 then (-1, sv, [])
      else if tls_on sv then
        (case ssl of
           None \<Rightarrow> (-1, sv, [Opened s, Closed s])
         | Some x \<Rightarrow> (s, sv\<lparr>ssl_by_fd := (ssl_by_fd sv)(s := Some x)\<rparr>, [Opened s, SslNew x]))
      else (s, sv, [Opened s]))"

definition server_Shutdown :: "fd \<Rightarrow> sys list" where
  "server_Shutdown fd = (if fd \<ge> 0 then [HalfClosed fd] else [])"

definition server_Close :: "fd \<Rightarrow> GuacamoleServer \<Rightarrow> GuacamoleServer \<times> sys list" where
  "server_Close fd sv =
     (case (if tls_on sv then
              (case ssl_by_fd sv fd of
                 None \<Rightarrow> (sv, [])
               | Some x \<Rightarrow> (sv\<lparr>ssl_by_fd := (ssl_by_fd sv)(fd := None)\<rparr>, [SslFree x]))
            else (sv, [])) of
        (sv', cs) \<Rightarrow> (sv', cs @ (if fd \<ge> 0 then [Closed fd] else [])))"

section \<open>The start of each process\<close>

text \<open>
  \<open>argv\<close> with the results of the system calls: the exit code, or \<^const>\<open>None\<close> when the threads are started, and
  the calls. A return runs the destructors of the objects made so far, in reverse order.
\<close>

record net_env =
  recv_sock :: "int \<times> bool"
  send_addrs :: "int list option"
  control_sock :: "int \<times> bool"
  control_addrs :: "int list option"
  listen_addrs :: "int list option"
  listen_bound :: bool
  listen_ok :: bool
  tls_env :: "string option"
  tls_files :: tls_setup
  buffer_env :: "string option"

definition gcd_start_up :: "string list \<Rightarrow> net_env \<Rightarrow> int option \<times> sys list" where
  "gcd_start_up argv n =
     (if length argv \<noteq> 6 then (Some 1, [])
      else if ParsePort (argv ! 2) = None \<or> ParsePort (argv ! 3) = None \<or> ParsePort (argv ! 5) = None
      then (Some 1, [])
      else
        (case UDPReceiver_Initialize (buffer_env n) (fst (recv_sock n)) (snd (recv_sock n)) of
           (rc, r, cs) \<Rightarrow>
             if rc \<noteq> 0 then (Some rc, cs @ UDPReceiver_destroy r)
             else
               (case UDPSender_Initialize (buffer_env n) (send_addrs n) of
                  (rc', s, cs') \<Rightarrow>
                    if rc' \<noteq> 0 then (Some rc', cs @ cs' @ UDPSender_destroy s @ UDPReceiver_destroy r)
                    else (None, cs @ cs'))))"

definition guard_start_up :: "string list \<Rightarrow> net_env \<Rightarrow> int option \<times> sys list" where
  "guard_start_up argv n =
     (if length argv < 4 then (Some 1, [])
      else if ParsePort (argv ! 1) = None \<or> ParsePort (argv ! 3) = None then (Some 1, [])
      else
        (case UDPReceiver_Initialize (buffer_env n) (fst (recv_sock n)) (snd (recv_sock n)) of
           (rc, r, cs) \<Rightarrow>
             if rc \<noteq> 0 then (Some rc, cs @ UDPReceiver_destroy r)
             else
               (case UDPSender_Initialize (buffer_env n) (send_addrs n) of
                  (rc', s, cs') \<Rightarrow>
                    if rc' \<noteq> 0 then (Some rc', cs @ cs' @ UDPSender_destroy s @ UDPReceiver_destroy r)
                    else
                      (case UDPReceiver_Initialize (buffer_env n) (fst (control_sock n)) (snd (control_sock n)) of
                         (rc'', c, cs'') \<Rightarrow>
                           if rc'' \<noteq> 0
                           then (Some rc'', cs @ cs' @ cs'' @ UDPReceiver_destroy c @ UDPSender_destroy s @
                                   UDPReceiver_destroy r)
                           else (None, cs @ cs' @ cs'')))))"

definition gml_start_up :: "string list \<Rightarrow> net_env \<Rightarrow> int option \<times> sys list" where
  "gml_start_up argv n =
     (if length argv \<noteq> 6 then (Some 1, [])
      else if ParsePort (argv ! 2) = None \<or> ParsePort (argv ! 3) = None \<or> ParsePort (argv ! 5) = None
      then (Some 1, [])
      else
        (case server_Initialize (listen_addrs n) (listen_bound n) (listen_ok n) (tls_env n) (tls_files n)
            new_GuacamoleServer of
           (rc0, sv, cs0) \<Rightarrow>
        if rc0 \<noteq> 0 then (Some rc0, cs0 @ server_destroy sv)
        else
        (case UDPReceiver_Initialize (buffer_env n) (fst (recv_sock n)) (snd (recv_sock n)) of
           (rc1, r, cs1) \<Rightarrow>
        if rc1 \<noteq> 0 then (Some rc1, cs0 @ cs1 @ UDPReceiver_destroy r @ server_destroy sv)
        else
        (case UDPSender_Initialize (buffer_env n) (send_addrs n) of
           (rc2, s, cs2) \<Rightarrow>
        if rc2 \<noteq> 0
        then (Some rc2, cs0 @ cs1 @ cs2 @ UDPSender_destroy s @ UDPReceiver_destroy r @ server_destroy sv)
        else
        (case UDPReceiver_Initialize (buffer_env n) (fst (control_sock n)) (snd (control_sock n)) of
           (rc3, c, cs3) \<Rightarrow>
        if rc3 \<noteq> 0
        then (Some rc3, cs0 @ cs1 @ cs2 @ cs3 @ UDPReceiver_destroy c @ UDPSender_destroy s @
                UDPReceiver_destroy r @ server_destroy sv)
        else
        (case UDPSender_Initialize (buffer_env n) (control_addrs n) of
           (rc4, d, cs4) \<Rightarrow>
        if rc4 \<noteq> 0
        then (Some rc4, cs0 @ cs1 @ cs2 @ cs3 @ cs4 @ UDPSender_destroy d @ UDPReceiver_destroy c @
                UDPSender_destroy s @ UDPReceiver_destroy r @ server_destroy sv)
        else (None, cs0 @ cs1 @ cs2 @ cs3 @ cs4)))))))"

end
