(* ===== verification/Net_Setup_Theorems.thy ===== *)
theory Net_Setup_Theorems imports Net_Setup begin

text \<open>
  Descriptors and \<open>SSL\<close> objects are balanced: \<open>Connect\<close> leaves open only what it returns, a process that
  refuses to start leaves nothing open and never starts with a broken TLS setup, and each \<open>SSL\<close> object
  lives exactly as long as its connection.
\<close>

section \<open>\<open>Connect\<close>\<close>

lemma connect_loop_balanced:
  assumes "connect_loop as = (fd, cs)" and "\<forall>a\<in>set as. fst a = -1 \<or> fst a \<ge> 0 \<and> fst a \<notin> S"
  shows "stray cs S = [] \<and> opens cs S = (if fd = -1 then S else insert fd S) \<and>
    (fd \<noteq> -1 \<longrightarrow> fd \<ge> 0 \<and> fd \<notin> S)"
  using assms
proof (induction as arbitrary: fd cs)
  case (Cons a as)
  obtain s ok where a: "a = (s, ok)" by fastforce
  obtain fd' cs' where r: "connect_loop as = (fd', cs')" by fastforce
  from Cons.prems a have s: "s = -1 \<or> s \<ge> 0 \<and> s \<notin> S" by simp
  from Cons.prems(2) have "\<forall>a\<in>set as. fst a = -1 \<or> fst a \<ge> 0 \<and> fst a \<notin> S" by simp
  note ih = Cons.IH[OF r this]
  show ?case
  proof (cases "s = -1")
    case True
    with Cons.prems(1) a r ih show ?thesis by simp
  next
    case False
    with s have s': "s \<ge> 0" "s \<notin> S" by simp_all
    show ?thesis
    proof (cases ok)
      case True
      with False Cons.prems(1) a s' show ?thesis by auto
    next
      case bad: False
      with False Cons.prems(1) a r have "fd = fd'" "cs = Opened s # Closed s # cs'" by auto
      moreover have "insert s S - {s} = S" using s' by simp
      ultimately show ?thesis using ih by simp
    qed
  qed
qed simp

lemma timeval_bounds:
  fixes ms :: int
  assumes "ms > 0"
  shows "0 \<le> ms div 1000 \<and> 0 \<le> ms mod 1000 * 1000 \<and> ms mod 1000 * 1000 < 1000000 \<and>
    (ms div 1000 > 0 \<or> ms mod 1000 * 1000 > 0)"
proof -
  have "ms mod 1000 < 1000" "0 \<le> ms mod 1000" "0 \<le> ms div 1000"
    using assms by (simp_all add: pos_imp_zdiv_nonneg_iff)
  moreover have "ms div 1000 > 0 \<or> ms mod 1000 > 0"
    using assms by (metis calculation(2,3) div_mult_mod_eq dual_order.antisym linorder_not_less mult_zero_left add_0 less_irrefl)
  ultimately show ?thesis by auto
qed

lemma timeouts_pos: "guacd_send_timeout_ms env > 0" "guacd_recv_timeout_ms env > 0"
  by (simp_all add: guacd_send_timeout_ms_def guacd_recv_timeout_ms_def Let_def)

text \<open>A timeout that bounds a call: not zero, which would mean for ever, and with valid microseconds.\<close>

definition bounding :: "sockopt \<Rightarrow> fd \<Rightarrow> sys \<Rightarrow> bool" where
  "bounding opt fd c \<longleftrightarrow> (\<exists>sec usec. c = Timeout opt fd sec usec \<and> 0 \<le> sec \<and> 0 \<le> usec \<and> usec < 1000000 \<and>
     (sec > 0 \<or> usec > 0))"

text \<open>
  \<open>Connect\<close> leaks no descriptor and returns none that can block for ever. Whatever the addresses, and
  whichever of the \<open>socket\<close> and \<open>connect\<close> calls fail, it closes every descriptor it opened but the one it
  returns, closes no other, and has set on that one a send and a receive timeout that bound the call, for
  any value of the two environment variables.
\<close>

theorem Connect_balanced:
  assumes "Connect addrs send_env recv_env = (fd, cs)"
    and "\<forall>as. addrs = Some as \<longrightarrow> (\<forall>a\<in>set as. fst a = -1 \<or> fst a \<ge> 0 \<and> fst a \<notin> S)"
  shows "stray cs S = [] \<and> opens cs S = (if fd = -1 then S else insert fd S) \<and>
    (fd \<noteq> -1 \<longrightarrow> fd \<ge> 0 \<and> fd \<notin> S \<and>
       (\<exists>c\<in>set cs. bounding SO_SNDTIMEO fd c) \<and> (\<exists>c\<in>set cs. bounding SO_RCVTIMEO fd c))"
proof (cases addrs)
  case None
  with assms(1) show ?thesis by (auto simp: Connect_def)
next
  case (Some as)
  obtain fd' cs' where l: "connect_loop as = (fd', cs')" by fastforce
  from connect_loop_balanced[OF l, of S] assms(2) Some have b: "stray cs' S = []"
    "opens cs' S = (if fd' = -1 then S else insert fd' S)" "fd' \<noteq> -1 \<longrightarrow> fd' \<ge> 0 \<and> fd' \<notin> S" by simp_all
  from assms(1) Some l have fd: "fd = fd'" by (auto simp: Connect_def Let_def split: if_splits)
  have tv: "bounding opt fd (Timeout opt fd (ms div 1000) (ms mod 1000 * 1000))" if "ms > 0" for opt ms
    using timeval_bounds[OF that] by (simp add: bounding_def)
  show ?thesis
  proof (cases "fd' \<ge> 0")
    case True
    with assms(1) Some l have "cs = cs' @ [Timeout SO_SNDTIMEO fd (guacd_send_timeout_ms send_env div 1000)
        (guacd_send_timeout_ms send_env mod 1000 * 1000), Timeout SO_RCVTIMEO fd
        (guacd_recv_timeout_ms recv_env div 1000) (guacd_recv_timeout_ms recv_env mod 1000 * 1000)]"
      by (auto simp: Connect_def Let_def)
    with b fd tv[OF timeouts_pos(1)] tv[OF timeouts_pos(2)] True show ?thesis by auto
  next
    case False
    with assms(1) Some l b fd show ?thesis by (auto simp: Connect_def)
  qed
qed

lemma Connect_balanced_witness:
  "opens (snd (Connect (Some [(-1, False), (3, False), (4, True)]) None (Some ''250''))) {7} = {4, 7}"
proof -
  obtain fd cs where c: "Connect (Some [(-1, False), (3, False), (4, True)]) None (Some ''250'') = (fd, cs)" by fastforce
  have "fd = 4" using c by (auto simp: Connect_def Let_def)
  with Connect_balanced[OF c, of "{7}"] c show ?thesis by auto
qed

section \<open>Starting up\<close>

lemma first_socket_resolved: "first_socket ss fd = (s, True) \<Longrightarrow> s \<ge> 0"
  by (induction ss fd rule: first_socket.induct) (auto split: if_splits)

lemma first_socket_none: "first_socket ss fd = (s, False) \<Longrightarrow> fd < 0 \<Longrightarrow> s < 0"
  by (induction ss fd rule: first_socket.induct) (auto split: if_splits)

text \<open>An object made by a constructor and \<open>Initialize\<close>, with the calls of its destructor.\<close>

definition sound_init :: "int \<Rightarrow> fd \<Rightarrow> sys list \<Rightarrow> sys list \<Rightarrow> bool" where
  "sound_init rc fd cs destroy \<longleftrightarrow>
     (\<forall>S. opens destroy S = S - (if fd \<ge> 0 then {fd} else {}) \<and>
       opens cs S - (if fd \<ge> 0 then {fd} else {}) = S - (if fd \<ge> 0 then {fd} else {}) \<and>
       (rc = 0 \<longrightarrow> fd \<ge> 0 \<and> opens cs S = insert fd S \<and> stray cs S = []))"

lemma receiver_sound:
  "UDPReceiver_Initialize env s ok = (rc, fd, cs) \<Longrightarrow> sound_init rc fd cs (UDPReceiver_destroy fd)"
  by (auto simp: UDPReceiver_Initialize_def UDPReceiver_destroy_def sound_init_def split: if_splits)

lemma sender_sound:
  assumes "UDPSender_Initialize env addrs = (rc, fd, cs)"
  shows "sound_init rc fd cs (UDPSender_destroy fd)"
proof (cases addrs)
  case None
  with assms show ?thesis by (auto simp: UDPSender_Initialize_def UDPSender_destroy_def sound_init_def)
next
  case (Some ss)
  obtain s ok where f: "first_socket ss (-1) = (s, ok)" by fastforce
  show ?thesis
  proof (cases ok)
    case True
    then have "s \<ge> 0" using f first_socket_resolved by simp
    with True f assms Some show ?thesis
      by (auto simp: UDPSender_Initialize_def UDPSender_destroy_def sound_init_def)
  next
    case False
    then have "s < 0" using f first_socket_none[of ss "-1" s] by simp
    with False f assms Some show ?thesis
      by (auto simp: UDPSender_Initialize_def UDPSender_destroy_def sound_init_def)
  qed
qed

definition tls_usable :: "tls_setup \<Rightarrow> bool" where
  "tls_usable t \<longleftrightarrow> ctx_made t \<and> cert_loads t (tls_cert_path (cert_env t)) \<and>
     key_loads t (tls_key_path (key_env t)) \<and> key_matches t"

lemma server_sound:
  assumes "server_Initialize addrs bind_ok listening tls t new_GuacamoleServer = (rc, sv, cs)"
  shows "sound_init rc (listen_fd sv) cs (server_destroy sv) \<and>
    (rc = 0 \<longrightarrow> tls_on sv = tls_enabled tls \<and>
      (tls_on sv \<longrightarrow> tls_usable t))"
proof (cases addrs)
  case None
  with assms show ?thesis
    by (auto simp: server_Initialize_def server_destroy_def sound_init_def new_GuacamoleServer_def)
next
  case (Some ss)
  obtain s ok where f: "first_socket ss (-1) = (s, ok)" by fastforce
  show ?thesis
  proof (cases ok)
    case True
    then have "s \<ge> 0" using f first_socket_resolved by simp
    with True f assms Some show ?thesis
      by (auto simp: server_Initialize_def server_destroy_def sound_init_def new_GuacamoleServer_def InitializeTls_def
          tls_usable_def Let_def split: if_splits)
  next
    case False
    then have "s < 0" using f first_socket_none[of ss "-1" s] by simp
    with False f assms Some show ?thesis
      by (auto simp: server_Initialize_def server_destroy_def sound_init_def new_GuacamoleServer_def)
  qed
qed

lemma soundD:
  assumes "sound_init rc fd cs d"
  shows "opens d S = S - (if fd \<ge> 0 then {fd} else {})"
    and "rc = 0 \<Longrightarrow> fd \<ge> 0 \<and> opens cs S = insert fd S \<and> stray cs S = []"
    and "opens d (opens cs S) = S - (if fd \<ge> 0 then {fd} else {})"
  using assms by (simp_all add: sound_init_def)

definition port_ok :: "string \<Rightarrow> bool" where
  "port_ok a \<longleftrightarrow> (\<exists>v. ParsePort a = Some v \<and> 1 \<le> v \<and> v \<le> 65535)"

lemma ParsePort_ok: "ParsePort a \<noteq> None \<Longrightarrow> port_ok a"
  by (auto simp: port_ok_def ParsePort_def split: prod.splits if_splits)

text \<open>A start-up of \<open>gmlbroker\<close> with usable arguments, and the five set-ups it goes through.\<close>

lemma gml_set_up:
  assumes argv: "length argv = 6" "ParsePort (argv ! 2) \<noteq> None" "ParsePort (argv ! 3) \<noteq> None" "ParsePort (argv ! 5) \<noteq> None"
    and i0: "server_Initialize (listen_addrs n) (listen_bound n) (listen_ok n) (tls_env n) (tls_files n) new_GuacamoleServer =
      (rc0, sv, cs0)"
    and i1: "UDPReceiver_Initialize (buffer_env n) (fst (recv_sock n)) (snd (recv_sock n)) = (rc1, r, cs1)"
    and i2: "UDPSender_Initialize (buffer_env n) (send_addrs n) = (rc2, s, cs2)"
    and i3: "UDPReceiver_Initialize (buffer_env n) (fst (control_sock n)) (snd (control_sock n)) = (rc3, c, cs3)"
    and i4: "UDPSender_Initialize (buffer_env n) (control_addrs n) = (rc4, d, cs4)"
  shows "case gml_start_up argv n of
     (None, cs) \<Rightarrow> rc0 = 0 \<and> stray cs {} = [] \<and> opens cs {} = {d, c, s, r, listen_fd sv}
   | (Some rc, cs) \<Rightarrow> rc \<noteq> 0 \<and> opens cs {} = {}"
proof -
  note s0 = soundD[OF conjunct1[OF server_sound[OF i0]]] and s1 = soundD[OF receiver_sound[OF i1]]
    and s2 = soundD[OF sender_sound[OF i2]] and s3 = soundD[OF receiver_sound[OF i3]] and s4 = soundD[OF sender_sound[OF i4]]
  note g = argv i0 i1 i2 i3 i4
  consider "rc0 \<noteq> 0" | "rc0 = 0" "rc1 \<noteq> 0" | "rc0 = 0" "rc1 = 0" "rc2 \<noteq> 0"
    | "rc0 = 0" "rc1 = 0" "rc2 = 0" "rc3 \<noteq> 0" | "rc0 = 0" "rc1 = 0" "rc2 = 0" "rc3 = 0" "rc4 \<noteq> 0"
    | "rc0 = 0" "rc1 = 0" "rc2 = 0" "rc3 = 0" "rc4 = 0" by blast
  then show ?thesis
  proof cases
    case 1
    with g s0(3) show ?thesis by (simp add: gml_start_up_def)
  next
    case 2
    with g s0(1,2) s1(3) show ?thesis by (auto simp: gml_start_up_def)
  next
    case 3
    with g s0(1,2) s1(1,2) s2(3) show ?thesis by (auto simp: gml_start_up_def)
  next
    case 4
    with g s0(1,2) s1(1,2) s2(1,2) s3(3) show ?thesis by (auto simp: gml_start_up_def)
  next
    case 5
    with g s0(1,2) s1(1,2) s2(1,2) s3(1,2) s4(3) show ?thesis by (auto simp: gml_start_up_def)
  next
    case 6
    with g s0(2) s1(2) s2(2) s3(2) s4(2) show ?thesis by (auto simp: gml_start_up_def)
  qed
qed


section \<open>A failed set-up closes twice\<close>

text \<open>
  When \<open>bind\<close> fails, \<open>Initialize\<close> closes the socket and keeps its number, and the destructor shuts that
  number down and closes it again, when another thread may own it: two calls go to a descriptor that is
  no longer the object's. The same holds for the listening socket. A set-up that succeeds makes no such
  call.
\<close>

theorem failed_bind_closes_twice:
  assumes "s \<ge> 0" and "s \<notin> S"
  shows "(case UDPReceiver_Initialize env s ok of (_, fd, cs) \<Rightarrow> stray (cs @ UDPReceiver_destroy fd) S) =
      (if ok then [] else [s, s]) \<and>
    (case server_Initialize (Some [s]) ok listening tls t new_GuacamoleServer of
       (_, sv, cs) \<Rightarrow> stray (cs @ server_destroy sv) S) = (if ok \<and> listening then [] else [s, s])"
  using assms
  by (auto simp: UDPReceiver_Initialize_def UDPReceiver_destroy_def server_Initialize_def server_destroy_def
      new_GuacamoleServer_def InitializeTls_def Let_def)

lemma failed_bind_closes_twice_witness:
  "(case UDPReceiver_Initialize None 3 False of (_, fd, cs) \<Rightarrow> stray (cs @ UDPReceiver_destroy fd) {}) = [3, 3]"
  using failed_bind_closes_twice[of 3 "{}" None False] by simp

section \<open>The \<open>SSL\<close> objects\<close>

text \<open>
  The server in use: what \<open>Accept\<close> gets from the kernel is not open, what it gets from OpenSSL is new, and
  \<open>Close\<close> is called on an open connection.
\<close>

inductive server_run :: "bool \<Rightarrow> GuacamoleServer \<Rightarrow> sys list \<Rightarrow> bool" for b where
  start: "server_run b (new_GuacamoleServer\<lparr>tls_on := b\<rparr>) []"
| accept: "\<lbrakk>server_run b sv cs; s < 0 \<or> s \<notin> opens cs {}; \<forall>x. ssl = Some x \<longrightarrow> SslNew x \<notin> set cs;
    Accept s ssl sv = (fd, sv', cs')\<rbrakk> \<Longrightarrow> server_run b sv' (cs @ cs')"
| close: "\<lbrakk>server_run b sv cs; fd \<in> opens cs {}; server_Close fd sv = (sv', cs')\<rbrakk> \<Longrightarrow> server_run b sv' (cs @ cs')"
| half_close: "\<lbrakk>server_run b sv cs; fd \<in> opens cs {}\<rbrakk> \<Longrightarrow> server_run b sv (cs @ server_Shutdown fd)"

definition ssl_inv :: "bool \<Rightarrow> GuacamoleServer \<Rightarrow> sys list \<Rightarrow> bool" where
  "ssl_inv b sv cs \<longleftrightarrow> tls_on sv = b \<and> stray cs {} = [] \<and> (\<forall>fd\<in>opens cs {}. fd \<ge> 0) \<and>
     dom (ssl_by_fd sv) = (if b then opens cs {} else {}) \<and> inj_on (ssl_by_fd sv) (dom (ssl_by_fd sv)) \<and>
     (\<forall>x. x \<in> ran (ssl_by_fd sv) \<longrightarrow> SslNew x \<in> set cs) \<and>
     (\<forall>x. count_list cs (SslFree x) = (if SslNew x \<in> set cs \<and> x \<notin> ran (ssl_by_fd sv) then 1 else 0))"

lemma ssl_inv_accept:
  assumes "ssl_inv b sv cs" "s < 0 \<or> s \<notin> opens cs {}" "\<forall>x. ssl = Some x \<longrightarrow> SslNew x \<notin> set cs"
    "Accept s ssl sv = (fd, sv', cs')"
  shows "ssl_inv b sv' (cs @ cs')"
proof (cases "s < 0 \<or> \<not> b")
  case True
  with assms show ?thesis by (auto simp: ssl_inv_def Accept_def split: if_splits)
next
  case False
  then have b: "b" "s \<ge> 0" "s \<notin> opens cs {}" using assms(2) by auto
  show ?thesis
  proof (cases ssl)
    case None
    with assms b show ?thesis by (auto simp: ssl_inv_def Accept_def)
  next
    case (Some x)
    with assms b have e: "sv' = sv\<lparr>ssl_by_fd := (ssl_by_fd sv)(s \<mapsto> x)\<rparr>" "cs' = [Opened s, SslNew x]"
      by (auto simp: ssl_inv_def Accept_def)
    have n: "ssl_by_fd sv s = None" "x \<notin> ran (ssl_by_fd sv)" using assms(1,3) b Some
      by (auto simp: ssl_inv_def domIff)
    then have "\<forall>fd\<in>dom (ssl_by_fd sv). ssl_by_fd sv fd \<noteq> Some x" by (auto simp: ran_def)
    with assms(1,3) b Some n show ?thesis unfolding e ssl_inv_def by (auto simp: inj_on_def)
  qed
qed

lemma ssl_inv_close:
  assumes "ssl_inv b sv cs" "fd \<in> opens cs {}" "server_Close fd sv = (sv', cs')"
  shows "ssl_inv b sv' (cs @ cs')"
proof (cases b)
  case False
  with assms show ?thesis by (auto simp: ssl_inv_def server_Close_def)
next
  case True
  with assms(1,2) have "fd \<in> dom (ssl_by_fd sv)" by (simp add: ssl_inv_def)
  then obtain x where x: "ssl_by_fd sv fd = Some x" by blast
  with assms True have e: "sv' = sv\<lparr>ssl_by_fd := (ssl_by_fd sv)(fd := None)\<rparr>" "cs' = [SslFree x, Closed fd]"
    by (auto simp: ssl_inv_def server_Close_def)
  have inj: "inj_on (ssl_by_fd sv) (dom (ssl_by_fd sv))" using assms(1) unfolding ssl_inv_def by (elim conjE)
  have only: "a = fd" if "ssl_by_fd sv a = Some x" for a using inj x that by (auto simp: inj_on_def dom_def)
  have r: "ran ((ssl_by_fd sv)(fd := None)) = ran (ssl_by_fd sv) - {x}"
  proof (rule set_eqI)
    fix y
    show "y \<in> ran ((ssl_by_fd sv)(fd := None)) \<longleftrightarrow> y \<in> ran (ssl_by_fd sv) - {x}"
    proof (cases "y = x")
      case True
      then show ?thesis using only by (auto simp: ran_def)
    next
      case False
      then have "ssl_by_fd sv a = Some y \<Longrightarrow> a \<noteq> fd" for a using x by auto
      with False show ?thesis by (auto simp: ran_def)
    qed
  qed
  have "x \<in> ran (ssl_by_fd sv)" using x by (rule ranI)
  moreover from inj have "inj_on ((ssl_by_fd sv)(fd := None)) (dom (ssl_by_fd sv) - {fd})" by (auto simp: inj_on_def)
  ultimately show ?thesis using assms(1,2) True unfolding e ssl_inv_def by (auto simp: r)
qed

lemma ssl_inv_run: "server_run b sv cs \<Longrightarrow> ssl_inv b sv cs"
proof (induction rule: server_run.induct)
  case start
  then show ?case by (simp add: ssl_inv_def new_GuacamoleServer_def)
next
  case half_close
  then show ?case by (auto simp: ssl_inv_def server_Shutdown_def)
qed (blast intro: ssl_inv_accept ssl_inv_close)+



end
