(* ===== verification/Queue_Monitor.thy ===== *)
theory Queue_Monitor imports Gcd_Broker begin

text \<open>
  \<open>shared/include/util/queue_monitor.h\<close>: the thread that prints the depth of the two queues, and the peak
  that \<open>NetQueue\<close> keeps for it. Other threads use the queues between any two of its calls; what they do
  there is an argument.
\<close>

section \<open>What other threads do to a queue\<close>

datatype queue_op = Put BridgeMessage | Get_One | Shut

fun do_op :: "queue_op \<Rightarrow> NetQueue \<Rightarrow> NetQueue" where
  "do_op (Put m) q = Enqueue m q"
| "do_op Get_One q = snd (Dequeue q)"
| "do_op Shut q = CloseQueue q"

definition queue_ops :: "queue_op list \<Rightarrow> NetQueue \<Rightarrow> NetQueue" where
  "queue_ops os q = fold do_op os q"

text \<open>The depths the queue goes through, the first and the last included.\<close>

fun depths :: "queue_op list \<Rightarrow> NetQueue \<Rightarrow> nat list" where
  "depths [] q = [QSize q]"
| "depths (x # os) q = QSize q # depths os (do_op x q)"

section \<open>\<open>StartQueueMonitor\<close>\<close>

text \<open>\<^const>\<open>None\<close>: no thread.\<close>

definition monitor_interval :: "string option \<Rightarrow> int option" where
  "monitor_interval env =
     (let interval = (case env of None \<Rightarrow> 0 | Some e \<Rightarrow> atoi e) in if interval \<le> 0 then None else Some interval)"

text \<open>
  One turn of the loop: \<open>elapsed\<close>, the line printed if any (depth and peak of both queues), and the queues.
  \<open>mid\<close> is what others do to each queue between its \<open>Size\<close> and its \<open>TakeHighWater\<close>.
\<close>

type_synonym monitor_line = "(nat \<times> nat) \<times> (nat \<times> nat)"

definition report :: "queue_op list \<Rightarrow> NetQueue \<Rightarrow> (nat \<times> nat) \<times> NetQueue" where
  "report mid q = (case TakeHighWater (queue_ops mid q) of (peak, q') \<Rightarrow> ((QSize q, peak), q'))"

definition monitor_turn ::
  "int \<Rightarrow> queue_op list \<times> queue_op list \<Rightarrow> int \<times> NetQueue \<times> NetQueue \<Rightarrow>
   monitor_line option \<times> int \<times> NetQueue \<times> NetQueue" where
  "monitor_turn interval mid st =
     (case st of (elapsed0, rq, sq) \<Rightarrow>
        let elapsed = elapsed0 + 200 in
        if elapsed \<ge> interval then
          (case (report (fst mid) rq, report (snd mid) sq) of
             ((r, rq'), (s, sq')) \<Rightarrow> (Some (r, s), 0, rq', sq'))
        else (None, elapsed, rq, sq))"

text \<open>
  Turns while \<open>running\<close> is set: for each, what others do to the two queues before it and within it.
\<close>

type_synonym others = "(queue_op list \<times> queue_op list) \<times> (queue_op list \<times> queue_op list)"

fun monitor_run ::
  "int \<Rightarrow> others list \<Rightarrow> int \<times> NetQueue \<times> NetQueue \<Rightarrow> monitor_line option list \<times> int \<times> NetQueue \<times> NetQueue" where
  "monitor_run interval [] st = ([], st)"
| "monitor_run interval (t # ts) (elapsed, rq, sq) =
     (case monitor_turn interval (snd t) (elapsed, queue_ops (fst (fst t)) rq, queue_ops (snd (fst t)) sq) of
        (line, st') \<Rightarrow> (case monitor_run interval ts st' of (ls, st'') \<Rightarrow> (line # ls, st'')))"

section \<open>Properties\<close>

lemma do_op_peak:
  "high_water q \<ge> QSize q \<Longrightarrow>
   high_water (do_op x q) = max (high_water q) (QSize (do_op x q)) \<and> high_water (do_op x q) \<ge> QSize (do_op x q)"
  by (cases x) (auto simp: QSize_def Enqueue_def Dequeue_def CloseQueue_def Let_def)

lemma peak_depths:
  "high_water q \<ge> QSize q \<Longrightarrow> high_water (queue_ops os q) = max (high_water q) (Max (set (depths os q)))"
proof (induction os arbitrary: q)
  case Nil
  then show ?case by (simp add: queue_ops_def)
next
  case (Cons x os)
  have ne: "set (depths os (do_op x q)) \<noteq> {}" by (cases os) simp_all
  have last: "QSize (do_op x q) \<le> Max (set (depths os (do_op x q)))" by (cases os) simp_all
  from do_op_peak[OF Cons.prems, of x] Cons.IH[of "do_op x q"] have
    "high_water (queue_ops (x # os) q) = max (max (high_water q) (QSize (do_op x q))) (Max (set (depths os (do_op x q))))"
    by (simp add: queue_ops_def)
  with ne last Cons.prems show ?case by simp
qed

text \<open>
  The peak the monitor prints is the true one. Whatever other threads do between one report on a queue and
  the next, the next report gives the largest depth the queue has had from the first on, bursts between
  two samples included.
\<close>

theorem monitor_peak_exact:
  "snd (fst (report mid (queue_ops os (snd (report mid0 q))))) =
     Max (set (depths (os @ mid) (snd (report mid0 q))))"
proof -
  let ?q = "snd (report mid0 q)"
  have h: "high_water ?q = QSize ?q" by (simp add: report_def TakeHighWater_def QSize_def split: prod.splits)
  have "QSize ?q \<le> Max (set (depths (os @ mid) ?q))" by (cases "os @ mid") simp_all
  with peak_depths[of ?q "os @ mid"] h show ?thesis
    by (simp add: report_def TakeHighWater_def queue_ops_def)
qed

text \<open>
  A line is printed on every turn whose number is a multiple of the interval in turns of 200 ms, rounded
  up, and on no other.
\<close>

theorem monitor_spacing:
  assumes "interval > 0" and "k < length ts"
  shows "(fst (monitor_run interval ts (0, rq, sq)) ! k \<noteq> None) =
    ((Suc k) mod nat ((interval + 199) div 200) = 0)"
proof -
  define c where "c = nat ((interval + 199) div 200)"
  have c: "c > 0" using assms(1) by (simp add: c_def)
  have due: "200 * int n \<ge> interval \<longleftrightarrow> n \<ge> c" for n unfolding c_def by linarith
  have run: "(fst (monitor_run interval ts (200 * int e, rq, sq)) ! k \<noteq> None) = ((e + Suc k) mod c = 0)"
    if "e < c" "k < length ts" for e k ts rq sq
    using that
  proof (induction ts arbitrary: e k rq sq)
    case (Cons t ts)
    obtain line e' rq' sq' where t: "monitor_turn interval (snd t)
        (200 * int e, queue_ops (fst (fst t)) rq, queue_ops (snd (fst t)) sq) = (line, e', rq', sq')"
      by (metis prod_cases4)
    have le: "(line \<noteq> None) = (Suc e = c) \<and> e' = 200 * int (if Suc e = c then 0 else Suc e)"
      using t due[of "Suc e"] Cons.prems(1) by (auto simp: monitor_turn_def Let_def split: if_splits prod.splits)
    have u: "fst (monitor_run interval (t # ts) (200 * int e, rq, sq)) = line # fst (monitor_run interval ts (e', rq', sq'))"
      using t by (simp split: prod.splits)
    show ?case
    proof (cases k)
      case 0
      have "(Suc e mod c = 0) = (Suc e = c)" using Cons.prems(1) by (cases "Suc e = c") auto
      with 0 u le show ?thesis by (simp del: monitor_run.simps)
    next
      case (Suc k')
      let ?e = "if Suc e = c then 0 else Suc e"
      have "(?e + Suc k') mod c = (e + Suc k) mod c"
      proof (cases "Suc e = c")
        case True
        with Suc have "e + Suc k = c + Suc k'" by simp
        then have "(e + Suc k) mod c = Suc k' mod c" by (simp only: mod_add_self1)
        with True show ?thesis by simp
      qed (use Suc in simp)
      moreover have "?e < c" using Cons.prems(1) c by auto
      ultimately show ?thesis using Cons.IH[of ?e k' rq' sq'] Cons.prems(2) Suc u le by (simp del: monitor_run.simps)
    qed
  qed simp
  from run[OF c assms(2)] show ?thesis by (simp add: c_def)
qed

lemma length_monitor_run: "length (fst (monitor_run interval ts st)) = length ts"
proof (induction ts arbitrary: st)
  case (Cons t ts)
  obtain e rq sq where "st = (e, rq, sq)" by (metis prod_cases3)
  with Cons.IH show ?case by (simp split: prod.splits) (metis fst_conv)
qed simp

definition ex_put :: queue_op where "ex_put = Put (mk_msg 3 NONE [])"

definition ex_turns :: "others list" where "ex_turns = [(([ex_put], []), ([], [])), (([], []), ([], [])), (([], []), ([], []))]"

lemma monitor_spacing_witness:
  "map (\<lambda>l. l \<noteq> None) (fst (monitor_run 500 ex_turns (0, new_NetQueue, new_NetQueue))) = [False, False, True]"
proof -
  define ls where "ls = fst (monitor_run 500 ex_turns (0, new_NetQueue, new_NetQueue))"
  have p: "(ls ! k \<noteq> None) = (Suc k mod 3 = 0)" if "k < 3" for k
    using monitor_spacing[of 500 k ex_turns new_NetQueue new_NetQueue] that by (simp add: ls_def ex_turns_def del: monitor_run.simps)
  have "length ls = 3" unfolding ls_def length_monitor_run by (simp add: ex_turns_def)
  then obtain a b c where l: "ls = [a, b, c]" by (auto simp: numeral_3_eq_3 length_Suc_conv)
  have "(a \<noteq> None) = False" "(b \<noteq> None) = False" "(c \<noteq> None) = True" using p[of 0] p[of 1] p[of 2] l by simp_all
  then show ?thesis using l unfolding ls_def[symmetric] by simp
qed

end
