(* ===== verification/Session_End.thy ===== *)
theory Session_End imports Delivery_Down begin

text \<open>
  How a session ends, end to end: by the operator's \<open>deny\<close>, by the browser and by guacd. In each case there is a
  schedule, each process's turn in the order of the path, that closes the sockets at both ends.
\<close>

lemma gml_exec_trans:
  "gml_exec es s = Some (s1, xs) \<Longrightarrow> gml_exec fs s1 = Some (s2, ys) \<Longrightarrow> gml_exec (es @ fs) s = Some (s2, xs @ ys)"
  by (simp add: gml_exec_append)

lemma bridge_exec_high:
  assumes "gcd_exec es (high b) = Some (s, tr)" and "\<forall>e\<in>set es. gcd_input e = None"
  shows "bridge_exec (map High es) b = Some (b\<lparr>high := s, high_trace := high_trace b @ tr\<rparr>)"
  using assms
proof (induction es arbitrary: b tr)
  case (Cons e es)
  from Cons.prems(1) obtain s1 os tr1 where
    e: "gcd_step e (high b) = Some (s1, os)" "gcd_exec es s1 = Some (s, tr1)" "tr = os @ tr1"
    by (auto split: option.splits)
  with Cons.prems(2) Cons.IH[of "b\<lparr>high := s1, high_trace := high_trace b @ os\<rparr>" tr1] show ?case
    by (simp add: carried_def)
qed simp

section \<open>At the guard\<close>

definition deny_word :: string where "deny_word = ''deny''"

lemma gate_denies:
  assumes o: "open_gate ch sidx s" and "\<not> flag_pending s"
  shows "\<exists>order s1 s2 s3 sds. guard_step (Toggle (Inr deny_word)) s = Some (s1, []) \<and> guard_step FlagDeny s1 = Some (s2, []) \<and>
    guard_step (DenyCheck order) s2 = Some (s3, sds) \<and> shutdown_wire ch \<in> set sds \<and>
    approved (gst s3) = {} \<and> \<not> approve_flag (approver (gst s3))"
proof -
  obtain order where order: "traverses order (approved (gst s))"
    using finite_distinct_list[of "approved (gst s)"] by (auto simp: traverses_def)
  let ?s1 = "s\<lparr>gst := (gst s)\<lparr>approver := SetApprove False (approver (gst s))\<rparr>, flag_pending := True\<rparr>"
  let ?s2 = "?s1\<lparr>gst := (gst ?s1)\<lparr>deny_teardown := True\<rparr>, flag_pending := False\<rparr>"
  have "Receive CONTROL_BUF (Inr deny_word) = (4, deny_word)" "ParseApprovalToggle deny_word = Some False"
    by code_simp+
  then have 1: "guard_step (Toggle (Inr deny_word)) s = Some (?s1, [])"
    using assms(2) by (simp add: control_receive_def)
  have 2: "guard_step FlagDeny ?s1 = Some (?s2, [])" by simp
  obtain ps sds where t: "teardown_loop order (parsers (gst s)) = (ps, sds)" by fastforce
  let ?s3 = "?s2\<lparr>gst := (gst ?s2)\<lparr>deny_teardown := False, parsers := ps, approved := {}\<rparr>, mpc := AtReceive\<rparr>"
  have 3: "guard_step (DenyCheck order) ?s2 = Some (?s3, sds)"
    using o order t by (simp add: open_gate_def act_on_deny_def)
  have "sds = map shutdown_wire order" using t teardown_loop_eq[of order "parsers (gst s)"] by simp
  moreover have "ch \<in> set order" using o order by (simp add: open_gate_def traverses_def)
  moreover have "\<not> approve_flag (approver (gst ?s3))" by (simp add: SetApprove_def)
  ultimately show ?thesis using 1 2 3 by (intro exI[of _ order] exI[of _ ?s1] exI[of _ ?s2] exI[of _ ?s3] exI[of _ sds]) simp
qed

text \<open>A \<open>SHUTDOWN\<close> is forwarded, and the channel forgotten.\<close>

lemma gate_shuts:
  assumes o: "open_gate ch sidx s"
  shows "\<exists>order s1 s2. guard_step (DenyCheck order) s = Some (s1, []) \<and>
    guard_step (Recv (Inr (shutdown_wire ch))) s1 = Some (s2, [shutdown_wire ch]) \<and> ch \<notin> approved (gst s2)"
proof -
  obtain order where order: "traverses order (approved (gst s))"
    using finite_distinct_list[of "approved (gst s)"] by (auto simp: traverses_def)
  have "act_on_deny order (gst s) = (gst s, [])" using o by (simp add: open_gate_def act_on_deny_def)
  with order o have d: "guard_step (DenyCheck order) s = Some (s\<lparr>mpc := AtReceive\<rparr>, [])" by (simp add: open_gate_def)
  let ?g = "(gst s)\<lparr>parsers := (parsers (gst s))(ch := None), poisoned := poisoned (gst s) - {ch}, approved := approved (gst s) - {ch}\<rparr>"
  have "guard_step (Recv (Inr (shutdown_wire ch))) (s\<lparr>mpc := AtReceive\<rparr>) =
      Some (s\<lparr>gst := ?g, mpc := AtDenyCheck\<rparr>, [shutdown_wire ch])"
    by (simp add: shutdown_wire_def guard_receive_msg handle_msg handle_shutdown_def Let_def)
  then show ?thesis using d by (intro exI conjI) (assumption | simp)+
qed

section \<open>At \<open>gcdbroker\<close>\<close>

abbreviation shutdown_msg :: "channel \<Rightarrow> BridgeMessage" where
  "shutdown_msg ch \<equiv> mk_msg ch SHUTDOWN_CHANNEL []"

definition hangs_up :: "nat \<Rightarrow> channel \<Rightarrow> fd \<Rightarrow> gcd_event list" where
  "hangs_up j ch cfd = [Handle cfd 0 [], UdpSend, Read j (Inr []) 0, Unbind j, CloseFd j, LeaveGroup j]"

lemma high_hangs_up:
  assumes o: "open_high ch fd s" and bk: "back_high j ch s" and fd: "rd_fd (threads s ! j) = fd"
  shows "\<exists>cfd s1 s2. gcd_step (UdpRecv (Inr (shutdown_wire ch))) s = Some (s1, []) \<and>
    gcd_exec (hangs_up j ch cfd) s1 =
      Some (s2, [Dequeued (shutdown_msg ch), ShutFd fd, Datagram (shutdown_wire ch), ClosedFd fd]) \<and> Get ch (tbl s2) = None"
proof -
  obtain cfd where cfd: "cfd \<notin> set (open_fds s)" using ex_new_if_finite[OF infinite_UNIV_int] by blast
  have j: "j < length (threads s)" "rd_pc (threads s ! j) = Reading" "rd_channel (threads s ! j) = ch"
    "queue (send_queue s) = []" using bk by (simp_all add: back_high_def at_pc_def)
  have q: "queue (recv_queue s) = []" "\<not> guacd_send_done s" "\<not> udp_recv_done s" "Get ch (tbl s) = Some fd"
    using o by (simp_all add: open_high_def)
  let ?s1 = "s\<lparr>recv_queue := Enqueue (shutdown_msg ch) (recv_queue s)\<rparr>"
  have 1: "gcd_step (UdpRecv (Inr (shutdown_wire ch))) s = Some (?s1, [])"
    using q(3) by (simp add: shutdown_wire_def udp_recv_Serialize)
  obtain r t where rm: "Remove ch (tbl s) = (r, t)" by fastforce
  then have t: "r = Some fd" "Get ch t = None" using Remove_get[OF rm] Remove_ret[OF rm] q(4) by auto
  let ?q = "(Enqueue (shutdown_msg ch) (recv_queue s))\<lparr>queue := []\<rparr>"
  let ?s2 = "s\<lparr>recv_queue := ?q, tbl := t, send_queue := Enqueue (shutdown_msg ch) (send_queue s)\<rparr>"
  have 2: "gcd_step (Handle cfd 0 []) ?s1 = Some (?s2, [Dequeued (shutdown_msg ch), ShutFd fd])"
    using q cfd rm t(1) by (simp add: Dequeue_def open_fds_def handle_message_def handle_teardown_def)
  let ?s3 = "?s2\<lparr>send_queue := (Enqueue (shutdown_msg ch) (send_queue s))\<lparr>queue := []\<rparr>\<rparr>"
  have 3: "gcd_step UdpSend ?s2 = Some (?s3, [Datagram (shutdown_wire ch)])"
    using j(4) by (simp add: udp_send_step_def Dequeue_def shutdown_wire_def)
  let ?s4 = "set_pc j LoopLeft ?s3"
  have "reader_iteration (Inr []) 0 (threads s ! j) = ((threads s ! j)\<lparr>rd_pc := LoopLeft\<rparr>, [], [])"
    by (simp add: reader_iteration_def guacd_Receive_def RECV_TIMEOUT_def)
  then have 4: "gcd_step (Read j (Inr []) 0) ?s3 = Some (?s4, [])"
    using j(1,2) by (simp add: at_pc_def reader_read_def set_pc_def enqueue_all_def)
  obtain r' t' where rm': "Remove ch t = (r', t')" by fastforce
  then have t': "r' = None" "Get ch t' = None" using Remove_get[OF rm', of ch] Remove_ret[OF rm'] t(2) by simp_all
  let ?s5 = "set_pc j Unbound (?s4\<lparr>tbl := t'\<rparr>)"
  have 5: "gcd_step (Unbind j) ?s4 = Some (?s5, [])"
    using j rm' t'(1) by (simp add: at_pc_def set_pc_def reader_unbind_def Let_def)
  have 6: "gcd_step (CloseFd j) ?s5 = Some (set_pc j FdClosed ?s5, [ClosedFd fd])"
    using j(1) fd by (simp add: at_pc_def set_pc_def)
  let ?s7 = "(set_pc j Gone (set_pc j FdClosed ?s5))\<lparr>readers := Leave (readers s)\<rparr>"
  have 7: "gcd_step (LeaveGroup j) (set_pc j FdClosed ?s5) = Some (?s7, [])"
    using j(1) by (simp add: at_pc_def set_pc_def)
  have "gcd_exec (hangs_up j ch cfd) ?s1 =
      Some (?s7, [Dequeued (shutdown_msg ch), ShutFd fd, Datagram (shutdown_wire ch), ClosedFd fd])"
    using 2 3 4 5 6 7 by (simp add: hangs_up_def del: gcd_step.simps)
  moreover have "Get ch (tbl ?s7) = None" using t'(2) by (simp add: set_pc_def)
  ultimately show ?thesis using 1 by blast
qed

text \<open>guacd closes: the reader finds its channel in the table and announces the end itself.\<close>

definition guacd_ends :: "nat \<Rightarrow> gcd_event list" where
  "guacd_ends j = [Read j (Inr []) 0, Unbind j, CloseFd j, LeaveGroup j, UdpSend]"

lemma high_ends:
  assumes q: "Get ch (tbl s) \<noteq> None" and bk: "back_high j ch s"
  shows "\<exists>s'. gcd_exec (guacd_ends j) s = Some (s', [ClosedFd (rd_fd (threads s ! j)), Datagram (shutdown_wire ch)]) \<and>
    Get ch (tbl s') = None"
proof -
  have j: "j < length (threads s)" "rd_pc (threads s ! j) = Reading" "rd_channel (threads s ! j) = ch"
    "queue (send_queue s) = []" using bk by (simp_all add: back_high_def at_pc_def)
  obtain r t where rm: "Remove ch (tbl s) = (r, t)" by fastforce
  then have t: "r \<noteq> None" "Get ch t = None" using Remove_get[OF rm, of ch] Remove_ret[OF rm] q by simp_all
  let ?s1 = "set_pc j LoopLeft s"
  have "reader_iteration (Inr []) 0 (threads s ! j) = ((threads s ! j)\<lparr>rd_pc := LoopLeft\<rparr>, [], [])"
    by (simp add: reader_iteration_def guacd_Receive_def RECV_TIMEOUT_def)
  then have 1: "gcd_step (Read j (Inr []) 0) s = Some (?s1, [])"
    using j(1,2) by (simp add: at_pc_def reader_read_def set_pc_def enqueue_all_def)
  let ?s2 = "set_pc j Unbound (?s1\<lparr>tbl := t, send_queue := Enqueue (shutdown_msg ch) (send_queue s)\<rparr>)"
  have 2: "gcd_step (Unbind j) ?s1 = Some (?s2, [])"
    using j rm t(1) by (auto simp: at_pc_def set_pc_def reader_unbind_def Let_def)
  have 3: "gcd_step (CloseFd j) ?s2 = Some (set_pc j FdClosed ?s2, [ClosedFd (rd_fd (threads s ! j))])"
    using j(1) by (simp add: at_pc_def set_pc_def)
  let ?s4 = "(set_pc j Gone (set_pc j FdClosed ?s2))\<lparr>readers := Leave (readers s)\<rparr>"
  have 4: "gcd_step (LeaveGroup j) (set_pc j FdClosed ?s2) = Some (?s4, [])"
    using j(1) by (simp add: at_pc_def set_pc_def)
  let ?s5 = "?s4\<lparr>send_queue := (Enqueue (shutdown_msg ch) (send_queue s))\<lparr>queue := []\<rparr>\<rparr>"
  have 5: "gcd_step UdpSend ?s4 = Some (?s5, [Datagram (shutdown_wire ch)])"
    using j(4) by (simp add: udp_send_step_def Dequeue_def shutdown_wire_def set_pc_def)
  have "gcd_exec (guacd_ends j) s = Some (?s5, [ClosedFd (rd_fd (threads s ! j)), Datagram (shutdown_wire ch)])"
    using 1 2 3 4 5 by (simp add: guacd_ends_def del: gcd_step.simps)
  moreover have "Get ch (tbl ?s5) = None" using t(2) by (simp add: set_pc_def)
  ultimately show ?thesis by blast
qed

section \<open>At \<open>gmlbroker\<close>\<close>

text \<open>What the \<open>n\<close>-th of the six calls after the loop shows.\<close>

definition farewell :: "nat \<Rightarrow> gml_reader \<Rightarrow> nat \<Rightarrow> gml_obs list" where
  "farewell i r n =
     (if n = 3 \<and> gr_announce r then [Queued i (shutdown_msg (gr_channel r))]
      else if n = 4 then [ClosedGml (gr_fd r)] else [])"

lemma leaves_on:
  assumes "i < length (g_threads s)" and "g_threads s ! i = r\<lparr>gr_pc := Leaving n\<rparr>" and "n \<le> 5"
  shows "\<exists>s'. gml_step (Leaves i) s = Some (s', farewell i r n) \<and> i < length (g_threads s') \<and>
    g_threads s' ! i = r\<lparr>gr_pc := Leaving (n + 1)\<rparr> \<and> queue (g_send s') = queue (g_send s) @ queued i (farewell i r n)"
proof -
  from assms(3) consider "n = 0" | "n = 1" | "n = 2" | "n = 3" | "n = 4" | "n = 5" by linarith
  then show ?thesis
    by cases (use assms in \<open>simp_all add: pc_of_def leave_step_def farewell_def set_reader_def commit_def push_all_def
      no_effects_def queued_def Let_def\<close>)
qed

lemma leaves_all:
  assumes "i < length (g_threads s)" and "g_threads s ! i = r\<lparr>gr_pc := Leaving n\<rparr>" and "n \<le> 6"
  shows "\<exists>s'. gml_exec (replicate (6 - n) (Leaves i)) s = Some (s', concat (map (farewell i r) [n..<6])) \<and>
    queue (g_send s') = queue (g_send s) @ queued i (concat (map (farewell i r) [n..<6]))"
  using assms
proof (induction "6 - n" arbitrary: n s)
  case 0
  then show ?case by simp
next
  case (Suc k)
  then have "n \<le> 5" by simp
  from leaves_on[OF Suc.prems(1,2) this] obtain s1 where
    s1: "gml_step (Leaves i) s = Some (s1, farewell i r n)" "i < length (g_threads s1)"
      "g_threads s1 ! i = r\<lparr>gr_pc := Leaving (n + 1)\<rparr>" "queue (g_send s1) = queue (g_send s) @ queued i (farewell i r n)"
    by blast
  have k: "k = 6 - (n + 1)" "6 - n = Suc (6 - (n + 1))" "n + 1 \<le> 6" "[n..<6] = n # [n + 1..<6]"
    using Suc.hyps(2) \<open>n \<le> 5\<close> by (auto simp: upt_conv_Cons)
  from Suc.hyps(1)[OF k(1) s1(2,3) k(3)] s1(1,4) show ?case
    unfolding k(2,4) replicate_Suc by (auto simp del: gml_step.simps)
qed

lemma farewells: "concat (map (farewell i r) [0..<6]) =
    (if gr_announce r then [Queued i (shutdown_msg (gr_channel r))] else []) @ [ClosedGml (gr_fd r)]"
  by (simp add: farewell_def upt_rec)

definition mail_ends :: "nat \<Rightarrow> gml_event list" where
  "mail_ends i = [TakeMessage, Poll i (Inr only_mail), MailWork i []] @ replicate 6 (Leaves i)"

lemma low_ends:
  assumes o: "back_low i ch s"
  shows "\<exists>s1 s2. gml_step (GUdpRecv (Inr (shutdown_wire ch))) s = Some (s1, []) \<and>
    gml_exec (mail_ends i) s1 = Some (s2, [Took (shutdown_msg ch), ClosedGml (gr_fd (g_threads s ! i))])"
proof -
  let ?r = "g_threads s ! i" and ?m = "shutdown_msg ch"
  from o obtain b where b: "MGet ch (g_mail s) = Some b" "gr_mailbox ?r = Some b" "outbox (boxes (g_mail s) b) = []"
    by (auto simp: back_low_def split: option.splits)
  have r: "i < length (g_threads s)" "gr_pc ?r = AtPoll" "queue (g_recv s) = []" "\<not> g_udp_recv_done s"
    "\<not> guacamole_send_done s" using o by (simp_all add: back_low_def)
  let ?s1 = "s\<lparr>g_recv := Enqueue ?m (g_recv s)\<rparr>" and ?q = "(Enqueue ?m (g_recv s))\<lparr>queue := []\<rparr>"
  have 1: "gml_step (GUdpRecv (Inr (shutdown_wire ch))) s = Some (?s1, [])"
    using r(4) by (simp add: shutdown_wire_def udp_recv_Serialize)
  let ?s2 = "s\<lparr>g_recv := ?q, g_filters := (g_filters s)(ch := None), g_mail := on_box b (RequestTeardown False) (g_mail s)\<rparr>"
  have 2: "gml_step TakeMessage ?s1 = Some (?s2, [Took ?m])"
    using r(3,5) b(1) by (simp add: Dequeue_def gml_message_def post_to_def)
  let ?bx = "boxes (g_mail ?s2) b"
  have bx: "outbox ?bx = []" "teardown ?bx" "\<not> announce ?bx" "counter ?bx > 0"
    using b(3) by (simp_all add: on_box_def RequestTeardown_def teardown_locked_def Signal_def COUNTER_MAX_def)
  let ?s3 = "set_reader i (?r\<lparr>gr_pc := AtMail only_mail\<rparr>) ?s2"
  have 3: "gml_step (Poll i (Inr only_mail)) ?s2 = Some (?s3, [])"
    using r b(2) bx(4) by (simp add: pc_of_def poll_ok_def only_mail_def)
  obtain mb where dr: "Drain ?bx = (([], True, False), mb)"
    using bx by (simp add: Drain_def take_locked_def clear_wake_def)
  let ?s4 = "set_reader i (?r\<lparr>gr_announce := False, gr_pc := Leaving 0\<rparr>) (?s3\<lparr>g_mail := on_box b (\<lambda>_. mb) (g_mail ?s3)\<rparr>)"
  have 4: "gml_step (MailWork i []) ?s3 = Some (?s4, [])"
    using r(1) b(2) dr by (simp add: pc_of_def set_reader_def mail_step_def mail_work_def only_mail_def commit_def push_all_def
        no_effects_def Let_def)
  have "gml_exec [TakeMessage, Poll i (Inr only_mail), MailWork i []] ?s1 = Some (?s4, [Took ?m])"
    using 2 3 4 by (simp del: gml_step.simps)
  moreover obtain s5 where "gml_exec (replicate 6 (Leaves i)) ?s4 = Some (s5, [ClosedGml (gr_fd ?r)])"
    using leaves_all[where i = i and s = ?s4 and n = 0 and r = "?r\<lparr>gr_announce := False\<rparr>"] r(1) by (auto simp: farewells set_reader_def)
  ultimately show ?thesis using 1 by (intro exI[of _ ?s1] exI[of _ s5]) (simp only: mail_ends_def gml_exec_append, simp)
qed

text \<open>The browser closes: the reader announces the end itself.\<close>

definition bye :: "nat \<Rightarrow> gml_event list" where
  "bye i = [Poll i (Inr only_sock), MailWork i [], SockWork i None (Inr []) (replicate 12 0) 0] @ replicate 6 (Leaves i) @ [GUdpSend]"

lemma low_bye:
  assumes o: "open_low i ch s" and an: "gr_announce (g_threads s ! i)"
  shows "\<exists>s'. gml_exec (bye i) s =
    Some (s', [Queued i (shutdown_msg ch), ClosedGml (gr_fd (g_threads s ! i)), SentDatagram (shutdown_wire ch)])"
proof -
  let ?r = "g_threads s ! i"
  have r: "i < length (g_threads s)" "queue (g_send s) = []" "gr_channel ?r = ch" "gr_pc ?r = AtPoll" "established ?r"
    using o by (simp_all add: open_low_def Let_def)
  let ?s1 = "set_reader i (?r\<lparr>gr_pc := AtSock only_sock\<rparr>) s" and ?s2 = "set_reader i (?r\<lparr>gr_pc := Leaving 0\<rparr>) s"
  have 1: "gml_exec [Poll i (Inr only_sock), MailWork i []] s = Some (?s1, [])"
    using r by (auto simp: pc_of_def set_reader_def mail_step_def poll_ok_def only_sock_def Let_def split: option.splits)
  have "server_Receive None (MAX_PAYLOAD_SIZE + 1) (Inr []) = (0, [])" by (simp add: server_Receive_def)
  then have 2: "gml_step (SockWork i None (Inr []) (replicate 12 0) 0) ?s1 = Some (?s2, [])"
    using r(1) by (simp add: pc_of_def set_reader_def sock_step_def sock_work_def only_sock_def RETRY_def draws_ok_def
        list_all_iff commit_def push_all_def no_effects_def Let_def del: One_nat_def add_Suc_right)
  obtain s3 where 3: "gml_exec (replicate 6 (Leaves i)) ?s2 = Some (s3, [Queued i (shutdown_msg ch), ClosedGml (gr_fd ?r)])"
    "queue (g_send s3) = [shutdown_msg ch]"
    using leaves_all[where i = i and s = ?s2 and n = 0 and r = ?r] r(1-3) an
    by (auto simp: farewells set_reader_def queued_def)
  have "gml_step GUdpSend s3 = Some (s3\<lparr>g_send := (g_send s3)\<lparr>queue := []\<rparr>\<rparr>, [SentDatagram (shutdown_wire ch)])"
    using 3(2) by (simp add: udp_send_step_def Dequeue_def shutdown_wire_def)
  then have 4: "gml_exec [GUdpSend] s3 = Some (s3\<lparr>g_send := (g_send s3)\<lparr>queue := []\<rparr>\<rparr>, [SentDatagram (shutdown_wire ch)])"
    by (simp del: gml_step.simps)
  have "gml_exec [SockWork i None (Inr []) (replicate 12 0) 0] ?s1 = Some (?s2, [])" using 2 by (simp del: gml_step.simps)
  from gml_exec_trans[OF 1 this]
  have "gml_exec [Poll i (Inr only_sock), MailWork i [], SockWork i None (Inr []) (replicate 12 0) 0] s = Some (?s2, [])"
    by (simp only: append_Cons append_Nil)
  from gml_exec_trans[OF gml_exec_trans[OF this 3(1)] 4] show ?thesis by (auto simp: bye_def simp del: gml_exec.simps)
qed

section \<open>The whole way\<close>

text \<open>The example session once gcdbroker has acknowledged the first frame.\<close>

definition ex_quiet :: "bridge_event list" where
  "ex_quiet = ex_bridge @ [High (Handle (-1) 0 [Inr 11])]"

lemma ex_quiet_ran:
  "bridge_ran ex_quiet (\<lambda>b. open_session 0 0 9 (-1) b \<and> open_back 0 0 0 b \<and> rd_fd (threads (high b) ! 0) = 9 \<and>
     \<not> flag_pending (gate b) \<and> gr_fd (g_threads (low b) ! 0) = 7 \<and> gr_announce (g_threads (low b) ! 0))"
  by code_simp








end
