(* ===== verification/Session_Start.thy ===== *)
theory Session_Start imports Session_End begin

text \<open>
  How a session begins, end to end: from a browser whose handshake is complete to guacd, by way of the
  operator's decision.
\<close>

section \<open>A request under way\<close>

text \<open>Reader \<open>i\<close> has captured the handshake \<open>is\<close>, registered \<open>rid\<close> and queued its request.\<close>

definition asking_low :: "nat \<Rightarrow> channel \<Rightarrow> string \<Rightarrow> instr list \<Rightarrow> gml \<Rightarrow> bool" where
  "asking_low i ch rid is s \<longleftrightarrow> queue (g_send s) = [mk_msg ch CREATE_CHANNEL rid] \<and> queue (g_recv s) = [] \<and>
     \<not> g_udp_recv_done s \<and> \<not> guacamole_send_done s \<and> i < length (g_threads s) \<and>
     (let r = g_threads s ! i in gr_channel r = ch \<and> gr_pc r = AtPoll \<and> \<not> replayed r \<and> established r \<and>
        handshake_raw (sub (gr_forger r)) = wire is \<and> at_pos (gr_keepalive r) [] (PLen []) \<and>
        (case gr_approved r of None \<Rightarrow> False | Some a \<Rightarrow> entries (g_approvals s) ch = Some (a, rid)))"

definition at_rest :: "gsys \<Rightarrow> bool" where
  "at_rest s \<longleftrightarrow> mpc s = AtDenyCheck \<and> \<not> deny_teardown (gst s)"

definition unbound :: "channel \<Rightarrow> gcd \<Rightarrow> bool" where
  "unbound ch s \<longleftrightarrow> \<not> guacd_send_done s \<and> \<not> udp_recv_done s \<and> queue (recv_queue s) = [] \<and> queue (send_queue s) = [] \<and>
     Get ch (tbl s) = None"

lemma valid_id_size: "is_valid_request_id rid \<Longrightarrow> rid \<noteq> [] \<and> length rid < MAX_PAYLOAD_SIZE"
  by (auto simp: is_valid_request_id_def REQUEST_ID_LEN_def MAX_PAYLOAD_SIZE_def split: if_splits)

section \<open>At the guard\<close>

lemma gate_grants:
  assumes o: "at_rest s" and ap: "approve_flag (approver (gst s))" and v: "is_valid_request_id rid"
  shows "\<exists>order s1 s2. guard_step (DenyCheck order) s = Some (s1, []) \<and>
    guard_step (Recv (Inr (Serialize (mk_msg ch CREATE_CHANNEL rid)))) s1 =
      Some (s2, [Serialize (mk_msg ch CREATE_CHANNEL rid), Serialize (verdict_for True ch rid)]) \<and> open_gate ch (-1) s2"
proof -
  obtain order where order: "traverses order (approved (gst s))"
    using finite_distinct_list[of "approved (gst s)"] by (auto simp: traverses_def)
  have "act_on_deny order (gst s) = (gst s, [])" using o by (simp add: at_rest_def act_on_deny_def)
  with order o have d: "guard_step (DenyCheck order) s = Some (s\<lparr>mpc := AtReceive\<rparr>, [])" by (simp add: at_rest_def)
  let ?g = "(gst s)\<lparr>parsers := (parsers (gst s))(ch := Some (new_parser new_guard_fields)),
    poisoned := poisoned (gst s) - {ch}, approved := insert ch (approved (gst s) - {ch})\<rparr>"
  have len: "length rid \<le> MAX_PAYLOAD_SIZE" using valid_id_size[OF v] by simp
  have "guard_step (Recv (Inr (Serialize (mk_msg ch CREATE_CHANNEL rid)))) (s\<lparr>mpc := AtReceive\<rparr>) =
      Some (s\<lparr>gst := ?g, mpc := AtDenyCheck\<rparr>, [Serialize (mk_msg ch CREATE_CHANNEL rid), Serialize (verdict_for True ch rid)])"
    using len v ap by (simp add: guard_receive_msg handle_msg handle_create_def HandleRequest_def verdict_for_def Let_def)
  moreover have "open_gate ch (-1) (s\<lparr>gst := ?g, mpc := AtDenyCheck\<rparr>)"
    using o by (simp add: open_gate_def at_rest_def at_pos_new) (simp add: new_parser_def new_guard_fields_def)
  ultimately show ?thesis using d by blast
qed

section \<open>At \<open>gcdbroker\<close>\<close>

definition dials :: "fd \<Rightarrow> gcd_event list" where
  "dials fd = [Handle fd 0 [], Handle fd 0 [], UdpSend]"

lemma high_dials:
  assumes o: "unbound ch s" and fd: "fd \<ge> 0" "fd \<notin> set (open_fds s)" and len: "length rid < MAX_PAYLOAD_SIZE"
  shows "\<exists>s1 s2 s3. gcd_step (UdpRecv (Inr (Serialize (mk_msg ch CREATE_CHANNEL rid)))) s = Some (s1, []) \<and>
    gcd_step (UdpRecv (Inr (Serialize (verdict_for True ch rid)))) s1 = Some (s2, []) \<and>
    gcd_exec (dials fd) s2 = Some (s3, [Dequeued (mk_msg ch CREATE_CHANNEL rid), Dequeued (verdict_for True ch rid),
      Connected fd, Datagram (Serialize (verdict_for True ch rid))]) \<and> open_high ch fd s3"
proof -
  let ?c = "mk_msg ch CREATE_CHANNEL rid" and ?v = "verdict_for True ch rid"
  have q: "queue (recv_queue s) = []" "\<not> guacd_send_done s" "\<not> udp_recv_done s" "Get ch (tbl s) = None"
    "queue (send_queue s) = []" using o by (simp_all add: unbound_def)
  let ?s1 = "s\<lparr>recv_queue := Enqueue ?c (recv_queue s)\<rparr>" and ?s2 = "s\<lparr>recv_queue := Enqueue ?v (Enqueue ?c (recv_queue s))\<rparr>"
  have 1: "gcd_step (UdpRecv (Inr (Serialize ?c))) s = Some (?s1, [])" "gcd_step (UdpRecv (Inr (Serialize ?v))) ?s1 = Some (?s2, [])"
    using q(3) len by (simp_all add: udp_recv_Serialize verdict_for_def)
  let ?q = "(recv_queue ?s2)\<lparr>queue := [?v]\<rparr>"
  have 2: "gcd_step (Handle fd 0 []) ?s2 = Some (s\<lparr>recv_queue := ?q\<rparr>, [Dequeued ?c])"
    using q fd by (simp add: Dequeue_def open_fds_def handle_message_def)
  obtain t where t: "Insert ch fd (tbl s) = (True, t)" "Get ch t = Some fd"
    using q(4) by (auto simp: Insert_def Get_def)
  let ?s3 = "s\<lparr>recv_queue := ?q\<lparr>queue := []\<rparr>, tbl := t, readers := Enter (readers s),
    threads := threads s @ [new_reader (env_keepalive s) 0 ch fd], send_queue := Enqueue ?v (send_queue s)\<rparr>"
  have 3: "gcd_step (Handle fd 0 []) (s\<lparr>recv_queue := ?q\<rparr>) = Some (?s3, [Dequeued ?v, Connected fd])"
    using q fd t(1) by (simp add: Dequeue_def open_fds_def handle_message_def handle_verdict_def verdict_for_def Let_def)
  let ?s4 = "?s3\<lparr>send_queue := (Enqueue ?v (send_queue s))\<lparr>queue := []\<rparr>\<rparr>"
  have 4: "gcd_step UdpSend ?s3 = Some (?s4, [Datagram (Serialize ?v)])"
    using q(5) by (simp add: udp_send_step_def Dequeue_def)
  have "gcd_exec (dials fd) ?s2 = Some (?s4, [Dequeued ?c, Dequeued ?v, Connected fd, Datagram (Serialize ?v)])"
    using 2 3 4 by (simp add: dials_def del: gcd_step.simps)
  moreover have "open_high ch fd ?s4" using q t(2) fd(1) by (simp add: open_high_def)
  ultimately show ?thesis using 1 by blast
qed

section \<open>At \<open>gmlbroker\<close>\<close>

definition no_event :: polled where
  "no_event = \<lparr>sock_ready = False, mail_ready = False, other_event = False, ssl_pending = False\<rparr>"

text \<open>A turn of the reader in which \<open>poll\<close> times out.\<close>

definition idles :: "nat \<Rightarrow> gml_event list" where
  "idles i = [Poll i (Inr no_event), MailWork i [], SockWork i None (Inl EAGAIN) (replicate 12 0) 0]"

lemma low_asks:
  assumes "asking_low i ch rid is s"
  shows "gml_exec [GUdpSend] s = Some (s\<lparr>g_send := (g_send s)\<lparr>queue := []\<rparr>\<rparr>, [SentDatagram (Serialize (mk_msg ch CREATE_CHANNEL rid))])"
  using assms by (simp add: asking_low_def udp_send_step_def Dequeue_def)

lemma replay_one:
  "h \<noteq> [] \<Longrightarrow> length h \<le> MAX_PAYLOAD_SIZE \<Longrightarrow> replay_handshake ch h = [mk_msg ch NONE h]"
  by (simp add: replay_handshake_def replay_from.simps[of ch h 0] replay_from.simps[of ch h MAX_PAYLOAD_SIZE])

text \<open>The verdict raises the reader's flag, and its next idle turn replays the handshake.\<close>

lemma low_told:
  assumes o: "asking_low i ch rid is s" and rid: "rid \<noteq> []" "length rid < MAX_PAYLOAD_SIZE"
    and ne: "is \<noteq> []" and len: "length (wire is) \<le> MAX_PAYLOAD_SIZE"
  defines "v \<equiv> verdict_for True ch rid" and "s0 \<equiv> s\<lparr>g_send := (g_send s)\<lparr>queue := []\<rparr>\<rparr>"
  shows "\<exists>s1 s2. gml_step (GUdpRecv (Inr (Serialize v))) s0 = Some (s1, []) \<and>
    gml_exec (TakeMessage # idles i @ [GUdpSend]) s1 = Some (s2, [Took v, Queued i (mk_msg ch NONE (wire is)),
      SentDatagram (Serialize (mk_msg ch NONE (wire is)))]) \<and> open_low i ch s2"
proof -
  let ?r = "g_threads s ! i" and ?m = "mk_msg ch NONE (wire is)"
  have r: "i < length (g_threads s)" "queue (g_recv s) = []" "gr_channel ?r = ch" "gr_pc ?r = AtPoll" "\<not> replayed ?r"
    "established ?r" "handshake_raw (sub (gr_forger ?r)) = wire is" "at_pos (gr_keepalive ?r) [] (PLen [])"
    "\<not> g_udp_recv_done s" "\<not> guacamole_send_done s"
    using o by (simp_all add: asking_low_def Let_def)
  obtain a where a: "gr_approved ?r = Some a" "entries (g_approvals s) ch = Some (a, rid)"
    using o by (auto simp: asking_low_def Let_def split: option.splits)
  let ?s1 = "s0\<lparr>g_recv := Enqueue v (g_recv s)\<rparr>" and ?q = "(Enqueue v (g_recv s))\<lparr>queue := []\<rparr>"
  have 1: "gml_step (GUdpRecv (Inr (Serialize v))) s0 = Some (?s1, [])"
    using r(9) rid(2) by (simp add: udp_recv_Serialize v_def verdict_for_def s0_def)
  let ?ap = "(g_approvals s)\<lparr>flags := (flags (g_approvals s))(a := True)\<rparr>"
  let ?s2 = "s0\<lparr>g_recv := ?q, g_approvals := ?ap, g_filters := (g_filters s)(ch := Some (new_parser new_ret_fields))\<rparr>"
  have 2: "gml_step TakeMessage ?s1 = Some (?s2, [Took v])"
    using r(2,10) a(2) rid(1) by (cases rid)
      (simp_all add: Dequeue_def gml_message_def approval_arrived_def Approve_def v_def verdict_for_def s0_def Let_def)
  let ?s3 = "set_reader i (?r\<lparr>gr_pc := AtSock no_event\<rparr>) ?s2"
  have 3: "gml_exec [Poll i (Inr no_event), MailWork i []] ?s2 = Some (?s3, [])"
    using r by (auto simp: pc_of_def set_reader_def mail_step_def poll_ok_def no_event_def s0_def Let_def split: option.splits)
  let ?r' = "?r\<lparr>replayed := True, gr_pc := AtPoll\<rparr>"
  have raw: "replay_handshake ch (wire is) = [?m]" using ne len wire_eq_Nil[of "is"] by (intro replay_one) auto
  have w: "sock_work None (Inl EAGAIN) (replicate 12 0) 0 True no_event (?r\<lparr>gr_pc := AtSock no_event\<rparr>) =
      ((?r', None), no_effects\<lparr>to_bridge := [?m]\<rparr>)"
    using r raw by (simp add: sock_work_def idle_work_def poll_timeout_def no_event_def maybe_replay_def established_def no_effects_def)
  let ?s4 = "(set_reader i ?r' ?s2)\<lparr>g_send := Enqueue ?m ((g_send s)\<lparr>queue := []\<rparr>)\<rparr>"
  have 4: "gml_step (SockWork i None (Inl EAGAIN) (replicate 12 0) 0) ?s3 = Some (?s4, [Queued i ?m])"
    using r(1) a(1) w
    by (simp add: pc_of_def set_reader_def sock_step_def load_flag_def draws_ok_def list_all_iff commit_def push_all_def
        no_effects_def s0_def Let_def)
  let ?s5 = "?s4\<lparr>g_send := (g_send ?s4)\<lparr>queue := []\<rparr>\<rparr>"
  have 5: "gml_step GUdpSend ?s4 = Some (?s5, [SentDatagram (Serialize ?m)])"
    by (simp add: udp_send_step_def Dequeue_def)
  have "gml_exec (TakeMessage # idles i @ [GUdpSend]) ?s1 = Some (?s5, [Took v, Queued i ?m, SentDatagram (Serialize ?m)])"
    using 2 4 5 gml_exec_trans[OF 3, of "[SockWork i None (Inl EAGAIN) (replicate 12 0) 0, GUdpSend]"]
    by (simp add: idles_def del: gml_step.simps)
  moreover have "open_low i ch ?s5" using r by (simp add: open_low_def set_reader_def established_def Let_def s0_def)
  ultimately show ?thesis using 1 by blast
qed

section \<open>The whole way\<close>

text \<open>The request goes up and is granted, guacd is dialed and the verdict is on its way back.\<close>

lemma request_granted:
  assumes o: "asking_low i ch rid is (low b)" and v: "is_valid_request_id rid"
    and g: "at_rest (gate b)" "approve_flag (approver (gst (gate b)))"
    and h: "unbound ch (high b)" "fd \<ge> 0" "fd \<notin> set (open_fds (high b))" and len: "length rid < MAX_PAYLOAD_SIZE"
  shows "\<exists>es c. bridge_exec es b = Some c \<and> concat (map (read_by i) es) = [] \<and>
    low c = (low b)\<lparr>g_send := (g_send (low b))\<lparr>queue := []\<rparr>\<rparr> \<and> open_gate ch (-1) (gate c) \<and> open_high ch fd (high c) \<and>
    Serialize (verdict_for True ch rid) \<in> set (gcd_sent (high_trace c)) \<and>
    guacd_got fd (high_trace c) = guacd_got fd (high_trace b)"
proof -
  let ?c = "Serialize (mk_msg ch CREATE_CHANNEL rid)" and ?v = "Serialize (verdict_for True ch rid)"
  from gate_grants[OF g v] obtain order g1 g2 where
    g: "guard_step (DenyCheck order) (gate b) = Some (g1, [])" "guard_step (Recv (Inr ?c)) g1 = Some (g2, [?c, ?v])"
      "open_gate ch (-1) g2" by blast
  from high_dials[OF h len] obtain h1 h2 h3 where
    h: "gcd_step (UdpRecv (Inr ?c)) (high b) = Some (h1, [])" "gcd_step (UdpRecv (Inr ?v)) h1 = Some (h2, [])"
      "gcd_exec (dials fd) h2 = Some (h3, [Dequeued (mk_msg ch CREATE_CHANNEL rid), Dequeued (verdict_for True ch rid),
        Connected fd, Datagram ?v])" "open_high ch fd h3" by blast
  let ?b1 = "b\<lparr>low := (low b)\<lparr>g_send := (g_send (low b))\<lparr>queue := []\<rparr>\<rparr>, low_trace := low_trace b @ [SentDatagram ?c]\<rparr>"
  have 1: "bridge_exec (map Low [GUdpSend]) b = Some ?b1"
    by (rule bridge_exec_low[OF low_asks[OF o]]) (simp add: gml_input_def)
  let ?es = "[Gate (DenyCheck order), Gate (Recv (Inr ?c)), High (UdpRecv (Inr ?c)), High (UdpRecv (Inr ?v))]"
  let ?b2 = "?b1\<lparr>gate := g2, gate_trace := (gate_trace b @ [(DenyCheck order, [])]) @ [(Recv (Inr ?c), [?c, ?v])], high := h2\<rparr>"
  have 2: "bridge_exec ?es ?b1 = Some ?b2"
    using g(1,2) h(1,2) by (simp add: carried_def guard_input_def gcd_input_def arriving_def sent_def
        del: guard_step.simps gcd_step.simps)
  let ?hs = "[Dequeued (mk_msg ch CREATE_CHANNEL rid), Dequeued (verdict_for True ch rid), Connected fd, Datagram ?v]"
  let ?b3 = "?b2\<lparr>high := h3, high_trace := high_trace b @ ?hs\<rparr>"
  have 3: "bridge_exec (map High (dials fd)) ?b2 = Some ?b3"
    using bridge_exec_high[of "dials fd" ?b2 h3 ?hs] h(3) by (simp add: dials_def gcd_input_def del: bridge_exec.simps gcd_exec.simps)
  have "concat (map (read_by i) ((map Low [GUdpSend] @ ?es) @ map High (dials fd))) = []" by (simp add: read_by_def dials_def)
  moreover have "guacd_got fd (high_trace ?b3) = guacd_got fd (high_trace b)" by (simp add: guacd_got_def)
  ultimately show ?thesis using bridge_exec_trans[OF bridge_exec_trans[OF 1 2] 3] g(3) h(4)
    by (intro exI[of _ "(map Low [GUdpSend] @ ?es) @ map High (dials fd)"] exI[of _ ?b3]) (simp add: gcd_sent_in)
qed


text \<open>The example browser, once its \<open>connect\<close> has been read.\<close>

definition ex_asking :: "bridge_event list" where
  "ex_asking = map Low ([AcceptClient (\<lambda>_. 5) 7, Start 0] @ turn 0 True False [] ex_hello)"

definition ex_handshake :: "instr list" where
  "ex_handshake = [[(''7'', ''connect''), (''1'', ''x'')]]"

lemma ex_asking_ran:
  "bridge_ran ex_asking (\<lambda>b. asking_low 0 0 ''aaaaaaaaaaaa'' ex_handshake (low b) \<and> at_rest (gate b) \<and>
     approve_flag (approver (gst (gate b))) \<and> unbound 0 (high b) \<and> 9 \<notin> set (open_fds (high b)) \<and> guacd_got 9 (high_trace b) = [])"
  by code_simp


section \<open>A request that is refused\<close>

lemma gate_refuses:
  assumes o: "at_rest s" and ap: "\<not> approve_flag (approver (gst s))" and v: "is_valid_request_id rid"
  shows "\<exists>order s1 s2. guard_step (DenyCheck order) s = Some (s1, []) \<and>
    guard_step (Recv (Inr (Serialize (mk_msg ch CREATE_CHANNEL rid)))) s1 =
      Some (s2, [Serialize (mk_msg ch CREATE_CHANNEL rid), Serialize (verdict_for False ch rid), shutdown_wire ch]) \<and>
    ch \<notin> approved (gst s2)"
proof -
  obtain order where order: "traverses order (approved (gst s))"
    using finite_distinct_list[of "approved (gst s)"] by (auto simp: traverses_def)
  have "act_on_deny order (gst s) = (gst s, [])" using o by (simp add: at_rest_def act_on_deny_def)
  with order o have d: "guard_step (DenyCheck order) s = Some (s\<lparr>mpc := AtReceive\<rparr>, [])" by (simp add: at_rest_def)
  let ?g = "(gst s)\<lparr>parsers := (parsers (gst s))(ch := None),
    poisoned := poisoned (gst s) - {ch}, approved := approved (gst s) - {ch}\<rparr>"
  have len: "length rid \<le> MAX_PAYLOAD_SIZE" using valid_id_size[OF v] by simp
  have "guard_step (Recv (Inr (Serialize (mk_msg ch CREATE_CHANNEL rid)))) (s\<lparr>mpc := AtReceive\<rparr>) =
      Some (s\<lparr>gst := ?g, mpc := AtDenyCheck\<rparr>,
        [Serialize (mk_msg ch CREATE_CHANNEL rid), Serialize (verdict_for False ch rid), shutdown_wire ch])"
    using len v ap by (simp add: guard_receive_msg handle_msg handle_create_def HandleRequest_def verdict_for_def Let_def)
  then show ?thesis using d by (intro exI conjI) (assumption | simp)+
qed

lemma high_relays:
  assumes o: "unbound ch s" and len: "length rid < MAX_PAYLOAD_SIZE"
  shows "\<exists>x s1 s2. gcd_step (UdpRecv (Inr (Serialize (verdict_for False ch rid)))) s = Some (s1, []) \<and>
    gcd_exec [Handle x 0 [], UdpSend] s1 = Some (s2, [Dequeued (verdict_for False ch rid), Datagram (Serialize (verdict_for False ch rid))]) \<and>
    unbound ch s2 \<and> open_fds s2 = open_fds s"
proof -
  let ?v = "verdict_for False ch rid"
  obtain x where x: "x \<notin> set (open_fds s)" using ex_new_if_finite[OF infinite_UNIV_int] by blast
  have q: "queue (recv_queue s) = []" "\<not> guacd_send_done s" "\<not> udp_recv_done s" "Get ch (tbl s) = None"
    "queue (send_queue s) = []" using o by (simp_all add: unbound_def)
  let ?s1 = "s\<lparr>recv_queue := Enqueue ?v (recv_queue s)\<rparr>" and ?q = "(Enqueue ?v (recv_queue s))\<lparr>queue := []\<rparr>"
  have 1: "gcd_step (UdpRecv (Inr (Serialize ?v))) s = Some (?s1, [])"
    using q(3) len by (simp add: udp_recv_Serialize verdict_for_def)
  let ?s2 = "s\<lparr>recv_queue := ?q, send_queue := Enqueue ?v (send_queue s)\<rparr>"
  have 2: "gcd_step (Handle x 0 []) ?s1 = Some (?s2, [Dequeued ?v])"
    using q x by (simp add: Dequeue_def open_fds_def handle_message_def handle_verdict_def verdict_for_def Let_def
        APPROVAL_APPROVE_def APPROVAL_DENY_def)
  let ?s3 = "?s2\<lparr>send_queue := (Enqueue ?v (send_queue s))\<lparr>queue := []\<rparr>\<rparr>"
  have 3: "gcd_step UdpSend ?s2 = Some (?s3, [Datagram (Serialize ?v)])"
    using q(5) by (simp add: udp_send_step_def Dequeue_def)
  have "gcd_exec [Handle x 0 [], UdpSend] ?s1 = Some (?s3, [Dequeued ?v, Datagram (Serialize ?v)])"
    using 2 3 by (simp del: gcd_step.simps)
  moreover have "unbound ch ?s3" "open_fds ?s3 = open_fds s" using q by (simp_all add: unbound_def open_fds_def)
  ultimately show ?thesis using 1 by blast
qed

text \<open>The mailbox of the reader is the one of its channel, and empty.\<close>

definition mailbox_empty :: "nat \<Rightarrow> channel \<Rightarrow> gml \<Rightarrow> bool" where
  "mailbox_empty i ch s \<longleftrightarrow> gr_fd (g_threads s ! i) \<ge> 0 \<and>
     (case MGet ch (g_mail s) of
        None \<Rightarrow> False
      | Some b \<Rightarrow> gr_mailbox (g_threads s ! i) = Some b \<and> outbox (boxes (g_mail s) b) = [] \<and> \<not> teardown (boxes (g_mail s) b))"

definition shows_denied :: "nat \<Rightarrow> gml_event list" where
  "shows_denied i = [TakeMessage, Poll i (Inr only_mail), MailWork i [(None, [Inr (length DeniedScreen)])]] @
     replicate 6 (Leaves i)"

lemma low_refused:
  assumes o: "asking_low i ch rid is s" and mb: "mailbox_empty i ch s" and rid: "rid \<noteq> []" "length rid < MAX_PAYLOAD_SIZE"
  defines "v \<equiv> verdict_for False ch rid" and "s0 \<equiv> s\<lparr>g_send := (g_send s)\<lparr>queue := []\<rparr>\<rparr>"
  shows "\<exists>s1 s2. gml_step (GUdpRecv (Inr (Serialize v))) s0 = Some (s1, []) \<and>
    gml_exec (shows_denied i) s1 = Some (s2, [Took v, Relayed i DeniedScreen, Queued i (shutdown_msg ch),
      ClosedGml (gr_fd (g_threads s ! i))])"
proof -
  let ?r = "g_threads s ! i"
  have r: "i < length (g_threads s)" "queue (g_recv s) = []" "gr_channel ?r = ch" "gr_pc ?r = AtPoll"
    "\<not> g_udp_recv_done s" "\<not> guacamole_send_done s" using o by (simp_all add: asking_low_def Let_def)
  obtain a where a: "entries (g_approvals s) ch = Some (a, rid)"
    using o by (auto simp: asking_low_def Let_def split: option.splits)
  from mb obtain b where b: "MGet ch (g_mail s) = Some b" "gr_mailbox ?r = Some b" "outbox (boxes (g_mail s) b) = []" "gr_fd ?r \<ge> 0"
    by (auto simp: mailbox_empty_def split: option.splits)
  let ?s1 = "s0\<lparr>g_recv := Enqueue v (g_recv s)\<rparr>" and ?q = "(Enqueue v (g_recv s))\<lparr>queue := []\<rparr>"
  have 1: "gml_step (GUdpRecv (Inr (Serialize v))) s0 = Some (?s1, [])"
    using r(5) rid(2) by (simp add: udp_recv_Serialize v_def verdict_for_def s0_def)
  let ?s2 = "s0\<lparr>g_recv := ?q, g_mail := on_box b (RequestTeardown True) (on_box b (Post DeniedScreen) (g_mail s))\<rparr>"
  have 2: "gml_step TakeMessage ?s1 = Some (?s2, [Took v])"
    using r(2,6) a b(1) rid(1) by (cases rid)
      (simp_all add: Dequeue_def gml_message_def approval_arrived_def Matches_def v_def verdict_for_def s0_def post_to_def
        on_box_def MGet_def Let_def APPROVAL_APPROVE_def APPROVAL_DENY_def)
  let ?bx = "boxes (g_mail ?s2) b"
  have bx: "outbox ?bx = [DeniedScreen]" "teardown ?bx" "announce ?bx" "counter ?bx > 0"
    using b(3) by (auto simp: on_box_def RequestTeardown_def teardown_locked_def Post_def post_locked_def Signal_def COUNTER_MAX_def)
  let ?s3 = "set_reader i (?r\<lparr>gr_pc := AtMail only_mail\<rparr>) ?s2"
  have 3: "gml_step (Poll i (Inr only_mail)) ?s2 = Some (?s3, [])"
    using r b(2) bx(4) by (simp add: pc_of_def poll_ok_def only_mail_def s0_def)
  obtain mb where dr: "Drain ?bx = (([DeniedScreen], True, True), mb)"
    using bx by (simp add: Drain_def take_locked_def clear_wake_def)
  let ?r1 = "?r\<lparr>gr_announce := True, gr_pc := Leaving 0\<rparr>"
  let ?s4 = "set_reader i ?r1 (?s3\<lparr>g_mail := on_box b (\<lambda>_. mb) (g_mail ?s3)\<rparr>)"
  have "DeniedScreen \<noteq> []" by code_simp
  then have "mail_work [(None, [Inr (length DeniedScreen)])] ([DeniedScreen], True, True) only_mail (?r\<lparr>gr_pc := AtMail only_mail\<rparr>) =
      Some (?r1, no_effects\<lparr>to_browser := [DeniedScreen]\<rparr>)"
    using b(4) by (simp add: mail_work_def server_Send_def)
  then have 4: "gml_step (MailWork i [(None, [Inr (length DeniedScreen)])]) ?s3 = Some (?s4, [Relayed i DeniedScreen])"
    using r(1) b(2) dr by (simp add: pc_of_def set_reader_def mail_step_def only_mail_def commit_def push_all_def no_effects_def
        s0_def Let_def)
  have 5: "gml_exec [TakeMessage, Poll i (Inr only_mail), MailWork i [(None, [Inr (length DeniedScreen)])]] ?s1 =
      Some (?s4, [Took v, Relayed i DeniedScreen])"
    using 2 3 4 by (simp del: gml_step.simps)
  obtain s5 where 6: "gml_exec (replicate 6 (Leaves i)) ?s4 = Some (s5, [Queued i (shutdown_msg ch), ClosedGml (gr_fd ?r)])"
    using leaves_all[where i = i and s = ?s4 and n = 0 and r = "?r\<lparr>gr_announce := True\<rparr>"] r(1,3)
    by (auto simp: farewells set_reader_def s0_def)
  from gml_exec_trans[OF 5 6] 1 show ?thesis by (intro exI[of _ ?s1] exI[of _ s5]) (simp add: shows_denied_def del: gml_exec.simps)
qed

lemma request_refused:
  assumes o: "asking_low i ch rid is (low b)" and v: "is_valid_request_id rid"
    and g: "at_rest (gate b)" "\<not> approve_flag (approver (gst (gate b)))"
    and h: "unbound ch (high b)" and len: "length rid < MAX_PAYLOAD_SIZE"
  shows "\<exists>es c. bridge_exec es b = Some c \<and> length es = 6 \<and> concat (map (read_by i) es) = [] \<and>
    low c = (low b)\<lparr>g_send := (g_send (low b))\<lparr>queue := []\<rparr>\<rparr> \<and>
    low_trace c = low_trace b @ [SentDatagram (Serialize (mk_msg ch CREATE_CHANNEL rid))] \<and>
    ch \<notin> approved (gst (gate c)) \<and> unbound ch (high c) \<and> open_fds (high c) = open_fds (high b) \<and>
    Serialize (verdict_for False ch rid) \<in> set (gcd_sent (high_trace c))"
proof -
  let ?c = "Serialize (mk_msg ch CREATE_CHANNEL rid)" and ?v = "Serialize (verdict_for False ch rid)"
  from gate_refuses[OF g v] obtain order g1 g2 where
    g: "guard_step (DenyCheck order) (gate b) = Some (g1, [])"
      "guard_step (Recv (Inr ?c)) g1 = Some (g2, [?c, ?v, shutdown_wire ch])" "ch \<notin> approved (gst g2)" by blast
  from high_relays[OF h len] obtain x h1 h2 where
    h: "gcd_step (UdpRecv (Inr ?v)) (high b) = Some (h1, [])"
      "gcd_exec [Handle x 0 [], UdpSend] h1 = Some (h2, [Dequeued (verdict_for False ch rid), Datagram ?v])"
      "unbound ch h2" "open_fds h2 = open_fds (high b)" by blast
  let ?b1 = "b\<lparr>low := (low b)\<lparr>g_send := (g_send (low b))\<lparr>queue := []\<rparr>\<rparr>, low_trace := low_trace b @ [SentDatagram ?c]\<rparr>"
  have 1: "bridge_exec (map Low [GUdpSend]) b = Some ?b1"
    by (rule bridge_exec_low[OF low_asks[OF o]]) (simp add: gml_input_def)
  let ?es = "[Gate (DenyCheck order), Gate (Recv (Inr ?c)), High (UdpRecv (Inr ?v))]"
  let ?b2 = "?b1\<lparr>gate := g2, gate_trace := (gate_trace b @ [(DenyCheck order, [])]) @ [(Recv (Inr ?c), [?c, ?v, shutdown_wire ch])], high := h1\<rparr>"
  have 2: "bridge_exec ?es ?b1 = Some ?b2"
    using g(1,2) h(1) by (simp add: carried_def guard_input_def gcd_input_def arriving_def sent_def
        del: guard_step.simps gcd_step.simps)
  let ?hs = "[Dequeued (verdict_for False ch rid), Datagram ?v]"
  let ?b3 = "?b2\<lparr>high := h2, high_trace := high_trace b @ ?hs\<rparr>"
  have 3: "bridge_exec (map High [Handle x 0 [], UdpSend]) ?b2 = Some ?b3"
    using bridge_exec_high[of "[Handle x 0 [], UdpSend]" ?b2 h2 ?hs] h(2) by (simp add: gcd_input_def del: bridge_exec.simps gcd_exec.simps)
  let ?all = "(map Low [GUdpSend] @ ?es) @ map High [Handle x 0 [], UdpSend]"
  have "concat (map (read_by i) ?all) = []" "length ?all = 6" by (simp_all add: read_by_def)
  with bridge_exec_trans[OF bridge_exec_trans[OF 1 2] 3] g(3) h(3,4) show ?thesis
    by (intro exI[of _ ?all] exI[of _ ?b3]) (simp add: gcd_sent_in)
qed


text \<open>The same browser when the operator has denied.\<close>

definition ex_denied :: "bridge_event list" where
  "ex_denied = ex_asking @ map Gate [Toggle (Inr ''deny''), FlagDeny, DenyCheck [], Recv (Inl EAGAIN)]"

lemma ex_denied_ran:
  "bridge_ran ex_denied (\<lambda>b. asking_low 0 0 ''aaaaaaaaaaaa'' ex_handshake (low b) \<and> mailbox_empty 0 0 (low b) \<and>
     at_rest (gate b) \<and> \<not> approve_flag (approver (gst (gate b))) \<and> unbound 0 (high b) \<and> gr_fd (g_threads (low b) ! 0) = 7)"
  by code_simp


end
