(* ===== verification/Progress.thy ===== *)
theory Progress imports Prelude begin

text \<open>
  A process that can always come to its end: in every state that satisfies an invariant and has something left to
  do, some step leaves less to do. From such a state a bounded run does all that is left.
\<close>

section \<open>Runs that come to an end\<close>

locale progress =
  fixes step :: "'e \<Rightarrow> 's \<Rightarrow> ('s \<times> 'o list) option"
    and exec :: "'e list \<Rightarrow> 's \<Rightarrow> ('s \<times> 'o list) option"
    and inv :: "'s \<Rightarrow> bool"
    and todo :: "'s \<Rightarrow> nat"
  assumes exec_Nil: "exec [] s = Some (s, [])"
    and exec_Cons: "step e s = Some (s1, os) \<Longrightarrow> exec es s1 = Some (s2, tr) \<Longrightarrow> exec (e # es) s = Some (s2, os @ tr)"
    and less_todo: "inv s \<Longrightarrow> todo s > 0 \<Longrightarrow> \<exists>e s1 os. step e s = Some (s1, os) \<and> inv s1 \<and> todo s1 < todo s"
begin

theorem run_out:
  assumes "inv s"
  shows "\<exists>es s' tr. length es \<le> todo s \<and> exec es s = Some (s', tr) \<and> inv s' \<and> todo s' = 0"
  using assms
proof (induction "todo s" arbitrary: s rule: less_induct)
  case less
  show ?case
  proof (cases "todo s = 0")
    case True
    with less.prems exec_Nil[of s] show ?thesis by (intro exI[of _ "[]"]) auto
  next
    case False
    with less_todo[OF less.prems] obtain e s1 os where
      e: "step e s = Some (s1, os)" "inv s1" "todo s1 < todo s" by auto
    from less.hyps[OF e(3,2)] obtain es s' tr where
      r: "length es \<le> todo s1" "exec es s1 = Some (s', tr)" "inv s'" "todo s' = 0" by blast
    with e exec_Cons[OF e(1) r(2)] show ?thesis by (intro exI[of _ "e # es"] exI[of _ s'] exI[of _ "os @ tr"]) simp
  qed
qed

end

end
