(* ===== verification/Stopping.thy ===== *)
theory Stopping imports Progress Gcd_Theorems Gml_Claims begin

text \<open>
  Both brokers can always be stopped: from every state a run can reach, an interrupt leads to the end of
  \<open>main\<close> in a bounded number of steps of their own threads. What is left to do is counted: the places a reader
  still has to pass, the threads that are still in their loops, and the statements \<open>main\<close> still has to execute.
\<close>

section \<open>\<open>gcdbroker\<close>\<close>

fun places :: "reader_pc \<Rightarrow> nat" where
  "places Reading = 4"
| "places LoopLeft = 3"
| "places Unbound = 2"
| "places FdClosed = 1"
| "places Gone = 0"

fun calls :: "main_pc \<Rightarrow> nat" where
  "calls Serving = 4"
| "calls RecvClosed = 3"
| "calls FdsShut = 2"
| "calls ReadersLeft = 1"
| "calls SendClosed = 0"

definition gcd_todo :: "gcd \<Rightarrow> nat" where
  "gcd_todo s = sum_list (map (\<lambda>r. places (rd_pc r)) (threads s)) + calls (gcd_main s) +
     of_bool (\<not> udp_recv_done s) + of_bool (\<not> guacd_send_done s)"

lemma sum_update: "i < length xs \<Longrightarrow> f x < f (xs ! i) \<Longrightarrow> sum_list (map f (xs[i := x])) < sum_list (map f xs)" for f :: "'a \<Rightarrow> nat"
proof (induction xs arbitrary: i)
  case (Cons y ys)
  then show ?case by (cases i) simp_all
qed simp

lemma sum_positive: "0 < sum_list (map f xs) \<Longrightarrow> \<exists>i < length xs. 0 < f (xs ! i)" for f :: "'a \<Rightarrow> nat"
  by (metis gr0I in_set_conv_nth sum_list_eq_0_iff list.set_map image_iff not_gr0)

definition gcd_stopping :: "gcd \<Rightarrow> bool" where
  "gcd_stopping s \<longleftrightarrow> gcd_inv s \<and> \<not> running s"

text \<open>A reader that has not gone can go on.\<close>

lemma reader_goes_on:
  assumes inv: "gcd_stopping s" and i: "i < length (threads s)" "places (rd_pc (threads s ! i)) > 0"
  shows "\<exists>e s1 os. gcd_step e s = Some (s1, os) \<and> gcd_stopping s1 \<and> gcd_todo s1 < gcd_todo s"
proof -
  let ?r = "threads s ! i"
  have "\<exists>e s1 os r. gcd_step e s = Some (s1, os) \<and> threads s1 = (threads s)[i := r] \<and> places (rd_pc r) < places (rd_pc ?r) \<and>
      running s1 = running s \<and> gcd_main s1 = gcd_main s \<and> udp_recv_done s1 = udp_recv_done s \<and>
      guacd_send_done s1 = guacd_send_done s"
  proof (cases "rd_pc ?r")
    case Reading
    with i inv show ?thesis
      by (intro exI[of _ "StopReading i"]) (auto simp: gcd_stopping_def at_pc_def set_pc_def)
  next
    case LoopLeft
    with i show ?thesis
      by (intro exI[of _ "Unbind i"]) (auto simp: at_pc_def set_pc_def reader_unbind_def Let_def split: prod.splits)
  next
    case Unbound
    with i show ?thesis by (intro exI[of _ "CloseFd i"]) (auto simp: at_pc_def set_pc_def)
  next
    case FdClosed
    with i show ?thesis by (intro exI[of _ "LeaveGroup i"]) (auto simp: at_pc_def set_pc_def)
  qed (use i in simp)
  then obtain e s1 os r where e: "gcd_step e s = Some (s1, os)" "threads s1 = (threads s)[i := r]"
    "places (rd_pc r) < places (rd_pc ?r)" "running s1 = running s" "gcd_main s1 = gcd_main s"
    "udp_recv_done s1 = udp_recv_done s" "guacd_send_done s1 = guacd_send_done s" by blast
  have "gcd_stopping s1" using inv step_inv[OF _ e(1)] e(4) by (simp add: gcd_stopping_def)
  moreover have "gcd_todo s1 < gcd_todo s"
    using sum_update[OF i(1), of "\<lambda>r. places (rd_pc r)" r] e by (simp add: gcd_todo_def)
  ultimately show ?thesis using e(1) by blast
qed

lemma gcd_less:
  assumes "gcd_stopping s" and "gcd_step e s = Some (s1, os)" and "running s1 = running s" and "gcd_todo s1 < gcd_todo s"
  shows "\<exists>e s1 os. gcd_step e s = Some (s1, os) \<and> gcd_stopping s1 \<and> gcd_todo s1 < gcd_todo s"
  using assms step_inv[OF _ assms(2)] by (auto simp: gcd_stopping_def)

text \<open>\<open>main\<close> goes on once nothing else does.\<close>

lemma gcd_main_goes_on:
  assumes inv: "gcd_stopping s" and gone: "\<forall>r\<in>set (threads s). rd_pc r = Gone" and "udp_recv_done s" "guacd_send_done s"
    and more: "gcd_main s \<noteq> SendClosed"
  shows "\<exists>e s1 os. gcd_step e s = Some (s1, os) \<and> gcd_stopping s1 \<and> gcd_todo s1 < gcd_todo s"
proof (cases "gcd_main s")
  case Serving
  with assms(3,4) show ?thesis
    by (intro gcd_less[OF inv, of JoinRecv "s\<lparr>recv_queue := CloseQueue (recv_queue s), gcd_main := RecvClosed\<rparr>" "[]"])
      (auto simp: gcd_todo_def)
next
  case RecvClosed
  with assms(3,4) show ?thesis
    by (intro gcd_less[OF inv, of "ShutdownFds (remdups (bound s))" "s\<lparr>gcd_main := FdsShut\<rparr>"
      "map ShutFd (Fds (remdups (bound s)) (tbl s))"]) (auto simp: gcd_todo_def)
next
  case FdsShut
  have "WaitAll (readers s)" using inv gone by (simp add: gcd_stopping_def gcd_inv_def counted_def WaitAll_def filter_empty_conv)
  with FdsShut show ?thesis
    by (intro gcd_less[OF inv, of WaitReaders "s\<lparr>gcd_main := ReadersLeft\<rparr>" "[]"]) (auto simp: gcd_todo_def)
next
  case ReadersLeft
  then show ?thesis
    by (intro gcd_less[OF inv, of CloseSend "s\<lparr>send_queue := CloseQueue (send_queue s), gcd_main := SendClosed\<rparr>" "[]"])
      (auto simp: gcd_todo_def)
qed (use more in simp)

lemma gcd_goes_on:
  assumes inv: "gcd_stopping s" and more: "gcd_todo s > 0"
  shows "\<exists>e s1 os. gcd_step e s = Some (s1, os) \<and> gcd_stopping s1 \<and> gcd_todo s1 < gcd_todo s"
proof (cases "\<exists>i < length (threads s). places (rd_pc (threads s ! i)) > 0")
  case True
  with reader_goes_on[OF inv] show ?thesis by blast
next
  case False
  have nr: "\<not> running s" using inv by (simp add: gcd_stopping_def)
  have gone: "\<forall>r\<in>set (threads s). rd_pc r = Gone"
  proof
    fix r
    assume "r \<in> set (threads s)"
    then obtain i where "i < length (threads s)" "r = threads s ! i" by (auto simp: in_set_conv_nth)
    with False show "rd_pc r = Gone" by (cases "rd_pc r") auto
  qed
  consider "\<not> udp_recv_done s" | "\<not> guacd_send_done s" | "udp_recv_done s" "guacd_send_done s" by blast
  then show ?thesis
  proof cases
    case 1
    with nr show ?thesis
      by (intro gcd_less[OF inv, of UdpRecvEnd "s\<lparr>udp_recv_done := True\<rparr>" "[]"]) (auto simp: gcd_todo_def)
  next
    case 2
    with nr show ?thesis
      by (intro gcd_less[OF inv, of HandleEnd "s\<lparr>guacd_send_done := True\<rparr>" "[]"]) (auto simp: gcd_todo_def)
  next
    case 3
    have "sum_list (map (\<lambda>r. places (rd_pc r)) (threads s)) = 0" using False sum_positive by (metis gr0I)
    with more 3 have "gcd_main s \<noteq> SendClosed" unfolding gcd_todo_def by auto
    from gcd_main_goes_on[OF inv gone 3 this] show ?thesis .
  qed
qed

interpretation gcd_end: progress gcd_step gcd_exec gcd_stopping gcd_todo
  by unfold_locales (simp, simp, rule gcd_goes_on)

text \<open>The work left is bounded by the number of readers, and none left means that \<open>main\<close> has returned.\<close>

lemma sum_bound: "(\<And>x. f x \<le> k) \<Longrightarrow> sum_list (map f xs) \<le> k * length xs" for f :: "'a \<Rightarrow> nat"
  by (induction xs) (simp_all add: add_le_mono)

lemma gcd_todo_bound: "gcd_todo s \<le> 4 * length (threads s) + 6"
proof -
  have "places (rd_pc r) \<le> 4" for r by (cases "rd_pc r") simp_all
  from sum_bound[OF this] have "sum_list (map (\<lambda>r. places (rd_pc r)) (threads s)) \<le> 4 * length (threads s)" .
  moreover have "calls (gcd_main s) \<le> 4" by (cases "gcd_main s") simp_all
  ultimately show ?thesis by (simp add: gcd_todo_def of_bool_def)
qed

lemma gcd_todo_none: "gcd_todo s = 0 \<Longrightarrow> gcd_main s = SendClosed"
  by (cases "gcd_main s") (simp_all add: gcd_todo_def)

section \<open>\<open>gmlbroker\<close>\<close>

fun g_places :: "gml_pc \<Rightarrow> nat" where
  "g_places Starting = 8"
| "g_places (AtMail p) = 9"
| "g_places (AtSock p) = 8"
| "g_places AtPoll = 7"
| "g_places (Leaving n) = 6 - n"

fun g_calls :: "gml_main_pc \<Rightarrow> nat" where
  "g_calls GServing = 4"
| "g_calls GRecvClosed = 3"
| "g_calls GFdsShut = 2"
| "g_calls GReadersLeft = 1"
| "g_calls GSendClosed = 0"

definition gml_todo :: "gml \<Rightarrow> nat" where
  "gml_todo s = sum_list (map (\<lambda>r. g_places (gr_pc r)) (g_threads s)) + g_calls (g_main s) +
     of_bool (\<not> accept_done s) + of_bool (\<not> g_udp_recv_done s) + of_bool (\<not> guacamole_send_done s)"

definition gml_stopping :: "gml \<Rightarrow> bool" where
  "gml_stopping s \<longleftrightarrow> gml_inv s \<and> \<not> g_running s"

text \<open>Whatever is to be written, each write returns once its peer is gone.\<close>

lemma writes_return: "\<exists>res. write_chunks fd (replicate (length cs) (None, [Inl OTHER_ERRNO])) cs = Some res"
proof (induction cs)
  case (Cons c cs)
  have "send_loop c 0 [Inl OTHER_ERRNO] = (Some 0, []) \<or> send_loop c 0 [Inl OTHER_ERRNO] = (Some (-1), [])"
    by (simp add: send_loop.simps[of c 0 "[Inl OTHER_ERRNO]"])
  with Cons show ?case by (auto simp: server_Send_def)
qed auto

lemma mail_goes_on:
  assumes "pc_of i s = Some (AtMail p)"
  shows "\<exists>ws s1 os r. mail_step i ws p s = Some (s1, os) \<and> g_threads s1 = (g_threads s)[i := r] \<and> g_places (gr_pc r) < 9 \<and>
    g_running s1 = g_running s \<and> g_main s1 = g_main s \<and> accept_done s1 = accept_done s \<and>
    g_udp_recv_done s1 = g_udp_recv_done s \<and> guacamole_send_done s1 = guacamole_send_done s"
proof -
  let ?r = "g_threads s ! i"
  show ?thesis
  proof (cases "gr_mailbox ?r = None \<or> \<not> mail_ready p")
    case True
    then have "mail_step i [] p s = Some (set_reader i (?r\<lparr>gr_pc := AtSock p\<rparr>) s, [])"
      by (cases "gr_mailbox ?r") (auto simp: mail_step_def Let_def)
    then show ?thesis by (intro exI conjI) (assumption | simp add: set_reader_def)+
  next
    case False
    then obtain b where b: "gr_mailbox ?r = Some b" "mail_ready p" by auto
    obtain cs down an m where d: "Drain (boxes (g_mail s) b) = ((cs, down, an), m)" by (metis prod_cases3 prod.exhaust)
    let ?ws = "replicate (length cs) (None, [Inl OTHER_ERRNO])"
    obtain failed sls where w: "write_chunks (gr_fd ?r) ?ws cs = Some (failed, sls)" using writes_return by (metis prod.exhaust)
    then obtain r1 eff where m: "mail_work ?ws (cs, down, an) p ?r = Some (r1, eff)" "g_places (gr_pc r1) < 9"
      by (cases down; cases failed) (auto simp: mail_work_def)
    have "mail_step i ?ws p s = Some (commit Relayed i r1 eff (s\<lparr>g_mail := on_box b (\<lambda>_. m) (g_mail s)\<rparr>))"
      using b d m by (simp add: mail_step_def)
    with m(2) show ?thesis by (intro exI conjI) (assumption | simp add: commit_def set_reader_def)+
  qed
qed

lemma sock_goes_on:
  assumes "sock_step i tls got draws ms p s = (s1, os)"
  shows "\<exists>r. g_threads s1 = (g_threads s)[i := r] \<and> g_places (gr_pc r) < 8 \<and> g_running s1 = g_running s \<and>
    g_main s1 = g_main s \<and> accept_done s1 = accept_done s \<and> g_udp_recv_done s1 = g_udp_recv_done s \<and>
    guacamole_send_done s1 = guacamole_send_done s"
proof -
  let ?r = "g_threads s ! i" and ?f = "load_flag (gr_approved (g_threads s ! i)) (g_approvals s)"
  obtain r1 rid eff where w: "sock_work tls got draws ms ?f p ?r = ((r1, rid), eff)" by (metis prod.exhaust)
  then have "g_places (gr_pc r1) < 8"
    by (auto simp: sock_work_def idle_work_def forge_work_def pipe_work_def Let_def split: prod.splits if_splits)
  with w assms show ?thesis
    by (cases rid) (auto simp: sock_step_def Let_def commit_def set_reader_def)
qed

text \<open>A reader that has not left can go on.\<close>

lemma g_reader_moves:
  assumes "\<not> g_running s" and i: "i < length (g_threads s)" "g_places (gr_pc (g_threads s ! i)) > 0"
  shows "\<exists>e s1 os r. gml_step e s = Some (s1, os) \<and> g_threads s1 = (g_threads s)[i := r] \<and>
    g_places (gr_pc r) < g_places (gr_pc (g_threads s ! i)) \<and> g_running s1 = g_running s \<and> g_main s1 = g_main s \<and>
    accept_done s1 = accept_done s \<and> g_udp_recv_done s1 = g_udp_recv_done s \<and> guacamole_send_done s1 = guacamole_send_done s"
proof (cases "gr_pc (g_threads s ! i)")
  case Starting
  with i show ?thesis
    by (intro exI[of _ "Start i"]) (auto simp: pc_of_def set_reader_def start_reader_def)
next
  case AtPoll
  with i assms(1) show ?thesis by (intro exI[of _ "StopLoop i"]) (auto simp: pc_of_def set_reader_def)
next
  case (AtMail p)
  with i have pc: "pc_of i s = Some (AtMail p)" by (simp add: pc_of_def)
  from mail_goes_on[OF this] obtain ws s1 os r where "mail_step i ws p s = Some (s1, os)"
    "g_threads s1 = (g_threads s)[i := r] \<and> g_places (gr_pc r) < 9 \<and> g_running s1 = g_running s \<and> g_main s1 = g_main s \<and>
     accept_done s1 = accept_done s \<and> g_udp_recv_done s1 = g_udp_recv_done s \<and> guacamole_send_done s1 = guacamole_send_done s"
    by blast
  with pc AtMail show ?thesis by (intro exI[of _ "MailWork i ws"] exI[of _ s1] exI[of _ os] exI[of _ r]) simp
next
  case (AtSock p)
  let ?d = "replicate 12 0"
  obtain s1 os where w: "sock_step i None (Inl EAGAIN) ?d 0 p s = (s1, os)" by fastforce
  moreover have "pc_of i s = Some (AtSock p)" "draws_ok ?d" using i AtSock by (simp_all add: pc_of_def draws_ok_def list_all_iff)
  ultimately have "gml_step (SockWork i None (Inl EAGAIN) ?d 0) s = Some (s1, os)" by simp
  with sock_goes_on[OF w] AtSock show ?thesis by (metis g_places.simps(3))
next
  case (Leaving n)
  with i show ?thesis
    by (intro exI[of _ "Leaves i"])
      (auto simp: pc_of_def leave_step_def Let_def set_reader_def commit_def)
qed

lemma g_reader_goes_on:
  assumes inv: "gml_stopping s" and i: "i < length (g_threads s)" "g_places (gr_pc (g_threads s ! i)) > 0"
  shows "\<exists>e s1 os. gml_step e s = Some (s1, os) \<and> gml_stopping s1 \<and> gml_todo s1 < gml_todo s"
proof -
  from g_reader_moves[OF _ i] inv obtain e s1 os r where e: "gml_step e s = Some (s1, os)" "g_threads s1 = (g_threads s)[i := r]"
    "g_places (gr_pc r) < g_places (gr_pc (g_threads s ! i))" "g_running s1 = g_running s" "g_main s1 = g_main s"
    "accept_done s1 = accept_done s" "g_udp_recv_done s1 = g_udp_recv_done s" "guacamole_send_done s1 = guacamole_send_done s"
    by (auto simp: gml_stopping_def)
  have "gml_stopping s1" using inv gml_step_inv[OF _ e(1)] e(4) by (simp add: gml_stopping_def)
  moreover have "gml_todo s1 < gml_todo s"
    using sum_update[OF i(1), of "\<lambda>r. g_places (gr_pc r)" r] e by (simp add: gml_todo_def)
  ultimately show ?thesis using e(1) by blast
qed

lemma gml_less:
  assumes "gml_stopping s" and "gml_step e s = Some (s1, os)" and "g_running s1 = g_running s" and "gml_todo s1 < gml_todo s"
  shows "\<exists>e s1 os. gml_step e s = Some (s1, os) \<and> gml_stopping s1 \<and> gml_todo s1 < gml_todo s"
  using assms gml_step_inv[OF _ assms(2)] by (auto simp: gml_stopping_def)

lemma gml_main_goes_on:
  assumes inv: "gml_stopping s" and wait: "WaitAll (g_readers s)"
    and "accept_done s" "g_udp_recv_done s" "guacamole_send_done s" and more: "g_main s \<noteq> GSendClosed"
  shows "\<exists>e s1 os. gml_step e s = Some (s1, os) \<and> gml_stopping s1 \<and> gml_todo s1 < gml_todo s"
proof (cases "g_main s")
  case GServing
  with assms(3-5) show ?thesis
    by (intro gml_less[OF inv, of GJoin "s\<lparr>g_recv := CloseQueue (g_recv s), g_main := GRecvClosed\<rparr>" "[]"])
      (auto simp: gml_todo_def)
next
  case GRecvClosed
  with assms(3-5) show ?thesis
    by (intro gml_less[OF inv, of "GShutdownFds (remdups (g_bound s))" "s\<lparr>g_main := GFdsShut\<rparr>"
      "map ShutGml (Fds (remdups (g_bound s)) (g_table s))"]) (auto simp: gml_todo_def)
next
  case GFdsShut
  with wait show ?thesis
    by (intro gml_less[OF inv, of GWaitReaders "s\<lparr>g_main := GReadersLeft\<rparr>" "[]"]) (auto simp: gml_todo_def)
next
  case GReadersLeft
  then show ?thesis
    by (intro gml_less[OF inv, of GCloseSend "s\<lparr>g_send := CloseQueue (g_send s), g_main := GSendClosed\<rparr>" "[]"])
      (auto simp: gml_todo_def)
qed (use more in simp)

lemma gml_goes_on:
  assumes inv: "gml_stopping s" and more: "gml_todo s > 0"
  shows "\<exists>e s1 os. gml_step e s = Some (s1, os) \<and> gml_stopping s1 \<and> gml_todo s1 < gml_todo s"
proof (cases "\<exists>i < length (g_threads s). g_places (gr_pc (g_threads s ! i)) > 0")
  case True
  with g_reader_goes_on[OF inv] show ?thesis by blast
next
  case False
  have nr: "\<not> g_running s" using inv by (simp add: gml_stopping_def)
  have "\<not> holds 5 r" if "r \<in> set (g_threads s)" for r
  proof -
    from that obtain i where "i < length (g_threads s)" "r = g_threads s ! i" by (auto simp: in_set_conv_nth)
    with False show ?thesis by (cases "gr_pc r") (auto simp: holds_def)
  qed
  then have wait: "WaitAll (g_readers s)"
    using inv by (simp add: gml_stopping_def gml_inv_def g_counted_def WaitAll_def filter_empty_conv)
  consider "\<not> accept_done s" | "\<not> g_udp_recv_done s" | "\<not> guacamole_send_done s"
    | "accept_done s" "g_udp_recv_done s" "guacamole_send_done s" by blast
  then show ?thesis
  proof cases
    case 1
    with nr show ?thesis
      by (intro gml_less[OF inv, of AcceptEnd "s\<lparr>accept_done := True\<rparr>" "[]"]) (auto simp: gml_todo_def)
  next
    case 2
    with nr show ?thesis
      by (intro gml_less[OF inv, of GUdpRecvEnd "s\<lparr>g_udp_recv_done := True\<rparr>" "[]"]) (auto simp: gml_todo_def)
  next
    case 3
    with nr show ?thesis
      by (intro gml_less[OF inv, of TakeEnd "s\<lparr>guacamole_send_done := True\<rparr>" "[]"]) (auto simp: gml_todo_def)
  next
    case 4
    have "sum_list (map (\<lambda>r. g_places (gr_pc r)) (g_threads s)) = 0" using False sum_positive by (metis gr0I)
    with more 4 have "g_main s \<noteq> GSendClosed" unfolding gml_todo_def by auto
    from gml_main_goes_on[OF inv wait 4 this] show ?thesis .
  qed
qed

interpretation gml_end: progress gml_step gml_exec gml_stopping gml_todo
  by unfold_locales (simp, simp, rule gml_goes_on)

lemma gml_todo_bound: "gml_todo s \<le> 9 * length (g_threads s) + 7"
proof -
  have "g_places (gr_pc r) \<le> 9" for r by (cases "gr_pc r") simp_all
  from sum_bound[OF this] have "sum_list (map (\<lambda>r. g_places (gr_pc r)) (g_threads s)) \<le> 9 * length (g_threads s)" .
  moreover have "g_calls (g_main s) \<le> 4" by (cases "g_main s") simp_all
  ultimately show ?thesis by (simp add: gml_todo_def of_bool_def)
qed

lemma gml_todo_none: "gml_todo s = 0 \<Longrightarrow> g_main s = GSendClosed"
  by (cases "g_main s") (simp_all add: gml_todo_def)

section \<open>Every open descriptor is closed\<close>

lemma gcd_keeps_fd:
  assumes "gcd_step e s = Some (s', os)" and "fd \<in> set (open_fds s)"
  shows "fd \<in> set (open_fds s') \<or> ClosedFd fd \<in> set os"
proof (cases e)
  case (Handle cfd now rs)
  with assms(1) obtain m q os' where h: "handle_message cfd now rs m (s\<lparr>recv_queue := q\<rparr>) = Some (s', os')" using handleE by metis
  then have "\<exists>rs. threads s' = threads s @ rs"
    by (auto simp: handle_message_def handle_verdict_def handle_teardown_def handle_data_def Let_def
        split: ChannelAction.splits prod.splits option.splits if_splits bool.splits)
  with assms(2) show ?thesis by (auto simp: open_fds_def)
next
  case (Read i got now)
  obtain r rq sq where r: "reader_iteration got now (threads s ! i) = (r, rq, sq)" by (metis prod_cases3)
  from iteration_keeps[OF r] Read assms r show ?thesis
    by (auto simp: open_fds_iff reader_read_def at_pc_def fd_open_def nth_list_update split: if_splits)
qed (use assms in \<open>auto simp: open_fds_iff at_pc_def set_pc_def reader_unbind_def fd_open_def nth_list_update Let_def
    split: if_splits prod.splits option.splits\<close>)

lemma gcd_exec_closes:
  "gcd_exec es s = Some (s', os) \<Longrightarrow> fd \<in> set (open_fds s) \<Longrightarrow> fd \<in> set (open_fds s') \<or> ClosedFd fd \<in> set os"
proof (induction es arbitrary: s os)
  case (Cons e es)
  from Cons.prems(1) obtain s1 os1 tr where e: "gcd_step e s = Some (s1, os1)" "gcd_exec es s1 = Some (s', tr)" "os = os1 @ tr"
    by (auto split: option.splits)
  from gcd_keeps_fd[OF e(1) Cons.prems(2)] Cons.IH[OF e(2)] e(3) show ?case by auto
qed simp

lemma g_open_fds_iff:
  "fd \<in> set (g_open_fds s) \<longleftrightarrow> (\<exists>i < length (g_threads s). holds 4 (g_threads s ! i) \<and> gr_fd (g_threads s ! i) = fd)"
  by (auto simp: g_open_fds_def g_open_holds in_set_conv_nth)

text \<open>A step of a reader that does not close its socket.\<close>

lemma g_keeps_at:
  assumes "fd \<in> set (g_open_fds s)" and "i < length (g_threads s)" and "g_threads s' = (g_threads s)[i := r]"
    and "gr_fd r = gr_fd (g_threads s ! i)" and "holds 4 (g_threads s ! i) \<Longrightarrow> holds 4 r"
  shows "fd \<in> set (g_open_fds s')"
  using assms unfolding g_open_fds_iff by (metis length_list_update nth_list_update)

lemma mail_keeps:
  assumes fd: "fd \<in> set (g_open_fds s)" and p: "pc_of i s = Some (AtMail p)" "mail_step i ws p s = Some (s', os)"
  shows "fd \<in> set (g_open_fds s')"
proof -
  from p(2) obtain r where "g_threads s' = (g_threads s)[i := r]" "gr_fd r = gr_fd (g_threads s ! i)" "holds 4 r"
    by (auto simp: mail_step_def Let_def commit_def set_reader_def same_holder_def holds_def dest!: mail_work_holder
        split: option.splits if_splits prod.splits gml_pc.splits)
  with g_keeps_at[OF fd] pc_ofD[OF p(1)] show ?thesis by auto
qed

lemma sock_keeps:
  assumes fd: "fd \<in> set (g_open_fds s)" and p: "pc_of i s = Some (AtSock p)" "sock_step i tls got draws t p s = (s', os)"
  shows "fd \<in> set (g_open_fds s')"
proof -
  obtain r1 rid eff where w: "sock_work tls got draws t (load_flag (gr_approved (g_threads s ! i)) (g_approvals s)) p
      (g_threads s ! i) = ((r1, rid), eff)" by (metis prod.exhaust)
  have "g_threads s' = (g_threads s)[i := r1]"
    using p(2) w by (auto simp: sock_step_def Let_def commit_def set_reader_def split: option.splits)
  moreover have "gr_fd r1 = gr_fd (g_threads s ! i)" "holds 4 r1"
    using sock_work_holder[OF w] holds_mono[of 0 r1 4] by (simp_all add: same_holder_def)
  ultimately show ?thesis using g_keeps_at[OF fd] pc_ofD[OF p(1)] by auto
qed

lemma leave_keeps:
  assumes fd: "fd \<in> set (g_open_fds s)" and n: "pc_of i s = Some (Leaving n)" "leave_step i n s = Some (s', os)"
  shows "fd \<in> set (g_open_fds s') \<or> ClosedGml fd \<in> set os"
proof (cases "n = 4 \<and> gr_fd (g_threads s ! i) = fd")
  case True
  with n(2) show ?thesis by (auto simp: leave_step_def Let_def)
next
  case False
  from n(2) have th: "g_threads s' = (g_threads s)[i := (g_threads s ! i)\<lparr>gr_pc := Leaving (n + 1)\<rparr>]"
    by (auto simp: leave_step_def Let_def set_reader_def commit_def split: if_splits)
  from fd obtain j where j: "j < length (g_threads s)" "holds 4 (g_threads s ! j)" "gr_fd (g_threads s ! j) = fd"
    unfolding g_open_fds_iff by blast
  with False th pc_ofD[OF n(1)] have "holds 4 (g_threads s' ! j) \<and> gr_fd (g_threads s' ! j) = fd"
    by (cases "j = i") (auto simp: holds_def)
  with j(1) th have "fd \<in> set (g_open_fds s')" unfolding g_open_fds_iff by auto
  then show ?thesis ..
qed

lemma gml_keeps_fd:
  assumes st: "gml_step e s = Some (s', os)" and fd: "fd \<in> set (g_open_fds s)"
  shows "fd \<in> set (g_open_fds s') \<or> ClosedGml fd \<in> set os"
proof (cases e)
  case (AcceptClient rng x)
  with st have "\<exists>rs. g_threads s' = g_threads s @ rs"
    by (auto simp: accept_client_def split: if_splits prod.splits option.splits)
  with fd show ?thesis by (auto simp: g_open_fds_def)
next
  case TakeMessage
  with st have "g_threads s' = g_threads s"
    using message_regs by (auto simp: same_regs_def split: if_splits prod.splits dequeued.splits)
  with fd show ?thesis by (simp add: g_open_fds_def)
next
  case (Start i)
  with st fd show ?thesis
    by (auto simp: pc_of_def set_reader_def start_reader_def holds_def intro!: disjI1 g_keeps_at[OF fd, of i] split: if_splits)
next
  case (Poll i res)
  with st fd show ?thesis
    by (auto simp: pc_of_def set_reader_def holds_def Let_def intro!: disjI1 g_keeps_at[OF fd, of i] split: if_splits sum.splits)
next
  case (StopLoop i)
  with st fd show ?thesis
    by (auto simp: pc_of_def set_reader_def holds_def intro!: disjI1 g_keeps_at[OF fd, of i] split: if_splits)
next
  case (MailWork i ws)
  with st mail_keeps[OF fd] show ?thesis by (auto split: option.splits gml_pc.splits)
next
  case (SockWork i tls got draws t)
  with st sock_keeps[OF fd] show ?thesis by (auto split: option.splits gml_pc.splits if_splits)
next
  case (Leaves i)
  with st leave_keeps[OF fd] show ?thesis by (auto split: option.splits gml_pc.splits)
qed (use st fd in \<open>auto simp: g_open_fds_def split: if_splits prod.splits option.splits\<close>)

lemma gml_exec_closes:
  "gml_exec es s = Some (s', os) \<Longrightarrow> fd \<in> set (g_open_fds s) \<Longrightarrow> fd \<in> set (g_open_fds s') \<or> ClosedGml fd \<in> set os"
proof (induction es arbitrary: s os)
  case (Cons e es)
  from Cons.prems(1) obtain s1 os1 tr where e: "gml_step e s = Some (s1, os1)" "gml_exec es s1 = Some (s', tr)" "os = os1 @ tr"
    by (auto split: option.splits)
  from gml_keeps_fd[OF e(1) Cons.prems(2)] Cons.IH[OF e(2)] e(3) show ?case by auto
qed simp

section \<open>Properties\<close>




lemma ex_accepted_ran: "gml_ran [AcceptClient (\<lambda>_. 5) 7, Start 0] (\<lambda>s tr. g_open_fds s = [7])"
  by code_simp


end
