(* ===== verification/Spec2Isabelle.thy ===== *)
theory Spec2Isabelle
  imports Bridge_Claims Bridge_Limits Bridge_Smuggle Flow_Down Net_Setup_Theorems Queue_Monitor Session_Start Stopping Unit_Tests
begin

text \<open>
  A verification library for the Guacamole data-diode proxies (\<open>src/proxies\<close>).

  \<^bold>\<open>The program.\<close> A browser reaches a guacd behind a pair of data diodes. \<open>gmlbroker\<close> (the low side) accepts
  the web server's TCP connections, plays guacd for the handshake, and carries each connection as a channel
  in UDP datagrams. \<open>gmguard\<close> sits between the diodes: it decides each request (\<open>CREATE\<close>), parses every byte
  that goes up and cuts out or stops what the policy denies. \<open>gcdbroker\<close> (the high side) dials guacd for an
  approved channel, replays and acknowledges on behalf of the browser, and sends what guacd says back down.
  Requests and input flow gmlbroker, guard, gcdbroker; verdicts and output flow gcdbroker, gmlbroker.

  \<^bold>\<open>Theories and sources.\<close>
  \<^item> \<open>Prelude\<close>: bytes, channels, the pieces of the C++ library the code uses, 64-bit arithmetic.
  \<^item> \<open>Opcode_Parser\<close> is \<open>shared/src/parser/opcode_parser.cpp\<close>: a record of the class's fields, one definition
    per case of \<open>Parse\<close>, the virtual methods as a record of hooks; \<open>Excision\<close>, \<open>Framing\<close>, \<open>Deny_Filter\<close>,
    \<open>Instr_Filter\<close>, \<open>Chunking\<close>, \<open>Observer\<close>, \<open>Resync\<close> and \<open>Parse_Safety\<close> are its theory: \<open>Excise\<close> equals a
    reference cut, a byte is a move in the wire grammar, the contracts of filtering (\<open>deny_filter\<close>,
    \<open>strict_filter\<close>) and of watching (\<open>observer\<close>, \<open>appender\<close>) subclasses as locales, independence of where a
    stream is cut, and memory safety.
  \<^item> \<open>Guard_Parser\<close> (\<open>gmguard/src/guard_opcode_parser.cpp\<close>), \<open>Guard\<close> (\<open>gmguard/src/main.cpp\<close>, \<open>approver.cpp\<close>) with
    \<open>Guard_Policy\<close>, \<open>Guard_Runs\<close>, \<open>Guard_Theorems\<close>: the receive loop and control thread as steps, and what the
    sent datagrams satisfy in every run.
  \<^item> \<open>Bridge_Message\<close> (\<open>multiplexer.cpp\<close>), \<open>Net_Queue\<close> (\<open>netqueue.h\<close>, \<open>reader_group.h\<close>), \<open>Channel_Table\<close>
    (\<open>channeltable.h\<close>), \<open>Udp\<close>, \<open>Sockets\<close> and \<open>Net_Setup\<close> (\<open>shared/src/network/\<close>, the UDP handlers, \<open>util/\<close> and
    the start of the three \<open>main\<close>s), \<open>Operator_Input\<close> (\<open>control_channel.h\<close>, \<open>netargs.h\<close>).
  \<^item> \<open>Sync_Faker\<close>, \<open>Gcd_Broker\<close> (\<open>gcdbroker/src/\<close>) with \<open>Gcd_Theorems\<close> and \<open>Gcd_Provenance\<close>.
  \<^item> \<open>Approval_Registry\<close>, \<open>Mailbox\<close>, \<open>Clipboard_Ack_Faker\<close>, \<open>Broker_Filters\<close>, \<open>Handshake_Forger\<close>, \<open>Gml_Broker\<close>
    (\<open>gmlbroker/src/\<close>) with \<open>Gml_Invariant\<close>, \<open>Gml_Output\<close>, \<open>Gml_Theorems\<close>, \<open>Gml_Return\<close>, \<open>Gml_Wire\<close>,
    \<open>Gml_Provenance\<close> and \<open>Gml_Claims\<close>.
  \<^item> \<open>Bridge_System\<close> joins the three processes by links that may lose, repeat, delay and reorder datagrams but
    make none up; \<open>Bridge_Claims\<close> are the safety properties of the whole, \<open>Bridge_Limits\<close> those of single
    seams, \<open>Delivery\<close> and \<open>Delivery_Down\<close> what an open session delivers in each direction, \<open>Session_Start\<close> and
    \<open>Session_End\<close> how one begins and ends.
  \<^item> \<open>Bridge_Smuggle\<close> is what a second request on a live channel does when the low side is not gmlbroker.
  \<^item> \<open>Progress\<close> is a process that can always come to its end as a locale; \<open>Stopping\<close> interprets it on both brokers.
  \<^item> \<open>Stage\<close> is one process of a pipeline as a locale (what a run took in against what it made and still holds);
    \<open>Flow_Low\<close>, \<open>Flow_Gate\<close> and \<open>Flow_High\<close> interpret it on the three processes, \<open>Flow_Up\<close> joins them; \<open>Back_High\<close>, \<open>Back_Low\<close> and \<open>Flow_Down\<close> do so for
    the way back.
  \<^item> \<open>Queue_Monitor\<close> is \<open>util/queue_monitor.h\<close>; \<open>Unit_Tests\<close> are the repository's C++ unit tests, read as
    statements about these definitions and proved.

  \<^bold>\<open>State and steps.\<close> Each process is a record of what its \<open>main\<close> and threads share and a function from an
  event (what the kernel returned to which thread) to the next state and the observable calls; a run is any
  sequence of enabled events, so the interleaving of threads and every answer of the environment are
  arbitrary. Methods under one mutex are atomic; where a method leaves its mutex and then touches an
  \<open>eventfd\<close> (\<open>Mailbox\<close>) or a reader polls, drains and reads (\<open>Gml_Broker\<close>) the parts are separate steps.

  \<^bold>\<open>What is shown.\<close> For the guard: only instructions the policy accepts leave, framed, on an approved
  channel, and an honest stream passes unchanged however it is cut. For the brokers: nothing of a session
  crosses before its own approval, guacd gets bytes only on connections dialed for an approval, output
  reaches the browser of its channel only, queues keep order, descriptors are closed by their owners,
  shutdowns wait for every reader, and from every state an interrupt can be followed by a bounded number of the
  process's own steps to the end of \<open>main\<close>. For the bridge: the same end to end, without a hypothesis on the
  neighbours; an approved request has a schedule that opens its session and a refused one a schedule that tells
  the browser so; an open session always has a schedule that hands guacd what the browser typed, less the
  keepalives and what the policy denies, and one that hands the browser what guacd said; an
  operator's deny, a browser that leaves and a guacd that closes can each end it at both ends; and in every run, while
  the upward links keep the order, what guacd is given of a session is a prefix of that, in order, with only
  whole acknowledgements of gcdbroker's own between, and all of it once nothing is under way; the same holds of
  what guacd says and all that the browser is written. For the seams:
  where honest input is treated as corruption, where verdicts are relayed, and how a forged \<open>CREATE\<close> takes the
  guard's framing out of step with guacd's.

  \<^bold>\<open>Bounds and fuel.\<close> No definition needs fuel except \<open>udp_send_steps\<close>, whose argument is the number of loop
  iterations considered. Loops that retry on \<open>EINTR\<close> recurse over the list of results the kernel gives. The
  64-bit \<open>current_length\<close> of the parser is kept at its width where the limit does not bound it.

  \<^bold>\<open>Not modelled.\<close> OpenSSL and kernel internals (their results are arguments), signals (a stop is an event),
  logging, the Python tools and the containers. Both \<open>main\<close>s have the call of the queue monitor commented out.
  Relaxed atomics are read as sequentially consistent. The approval flag is read once per reader iteration,
  where the code reads it twice; the sender threads may go on a turn after \<open>running\<close> was cleared, which
  adds runs. The order in which an \<open>unordered_set\<close> is walked is an argument, and so are the random draws
  of request ids.
\<close>

end
